(* ===== verification/Mega_Prelude.thy ===== *)
theory Mega_Prelude
  imports Main "HOL-Library.Word" "HOL-Library.Code_Target_Nat"
begin

text \<open>
  Shared vocabulary of the development: the machine types of the C++ code, the object
  representation of integers (the SDK copies integers to and from buffers with
  \<^verbatim>\<open>memcpy\<close> on little-endian targets), the standard algorithms the sources call
  (\<^verbatim>\<open>std::lower_bound\<close>), and the lemma collections the component theories feed to the
  simplifier.
\<close>

unbundle bit_operations_syntax

named_theorems bytes_simps \<open>unfolding rules for byte-level codecs\<close>
named_theorems codec_laws \<open>what decoding an encoding gives\<close>
named_theorems inv_intros \<open>invariant preservation, one rule per operation\<close>

section \<open>Machine types\<close>

type_synonym byte = "8 word"
type_synonym bytes = "byte list"
type_synonym u16 = "16 word"
type_synonym u32 = "32 word"
type_synonym u64 = "64 word"
type_synonym m_off_t = int
type_synonym m_time_t = int
type_synonym handle = u64

abbreviation ch :: "char \<Rightarrow> byte" where
  "ch c \<equiv> of_char c"

abbreviation asc :: "string \<Rightarrow> bytes" where
  "asc s \<equiv> map of_char s"

definition UNDEF :: handle where
  "UNDEF = - 1"

text \<open>The direction of a transfer.\<close>

datatype direction = GET | PUT

section \<open>Bytes, one value or one bit at a time\<close>

lemma byte_all_iff: "(\<forall>b :: byte. P b) \<longleftrightarrow> (\<forall>n \<in> set [0..<256]. P (word_of_nat n))"
proof
  assume P: "\<forall>n \<in> set [0..<256]. P (word_of_nat n :: byte)"
  show "\<forall>b :: byte. P b"
  proof
    fix b :: byte
    have "unat b < 256" using unsigned_less [of b, where ?'a = nat] by simp
    then have "unat b \<in> set [0..<256]" by simp
    with P have "P (word_of_nat (unat b))" by (rule bspec)
    then show "P b" by simp
  qed
qed simp

lemma byte_bit_high [simp]: "8 \<le> n \<Longrightarrow> \<not> bit (x :: byte) n"
  by (auto dest: bit_imp_le_length)

lemma byte_eqI:
  fixes x y :: byte
  assumes "bit x 0 = bit y 0" "bit x 1 = bit y 1" "bit x 2 = bit y 2" "bit x 3 = bit y 3"
    "bit x 4 = bit y 4" "bit x 5 = bit y 5" "bit x 6 = bit y 6" "bit x 7 = bit y 7"
  shows "x = y"
proof (rule bit_word_eqI)
  fix n assume "n < LENGTH(8)"
  then consider "n = 0" | "n = 1" | "n = 2" | "n = 3" | "n = 4" | "n = 5" | "n = 6" | "n = 7"
    by force
  then show "bit x n = bit y n" using assms by cases simp_all
qed

lemma sint_ascii: "uint (c :: byte) < 128 \<Longrightarrow> sint c = uint c"
  unfolding sint_uint by (rule signed_take_bit_int_eq_self) (rule order_trans [OF _ uint_ge_0], simp_all)

lemma scast_ascii: "uint (c :: byte) < 128 \<Longrightarrow> scast c = (ucast c :: 'a::len word)"
  by (simp only: scast_eq ucast_eq sint_ascii)

section \<open>Object representation of integers\<close>

text \<open>
  \<open>le_bytes n w\<close> is what appending the first \<open>n\<close> bytes of an integer object to a string
  appends; \<open>le_word bs\<close> is what \<^verbatim>\<open>MemAccess::get\<close> (or a \<^verbatim>\<open>memcpy\<close> over a zeroed integer)
  reads back.
\<close>

fun le_bytes :: "nat \<Rightarrow> 'a::len word \<Rightarrow> bytes" where
  "le_bytes 0 w = []"
| "le_bytes (Suc n) w = ucast w # le_bytes n (drop_bit 8 w)"

fun le_word :: "bytes \<Rightarrow> 'a::len word" where
  "le_word [] = 0"
| "le_word (b # bs) = ucast b OR push_bit 8 (le_word bs)"

lemma length_le_bytes [simp]: "length (le_bytes n w) = n"
  by (induction n arbitrary: w) auto

lemma bit_ucast_byte: "bit (ucast (w :: 'a::len word) :: 'b::len word) k \<longleftrightarrow> bit w k \<and> k < LENGTH('b)"
  by (auto simp: bit_simps)

lemma bit_le_word_le_bytes:
  "bit (le_word (le_bytes n (w :: 'a::len word)) :: 'b::len word) k \<longleftrightarrow>
   k < 8 * n \<and> k < LENGTH('b) \<and> bit w k"
proof (induction n arbitrary: w k)
  case (Suc n)
  then show ?case by (cases "k < 8") (auto simp: bit_simps)
qed simp

lemma le_word_le_bytes_ucast:
  "LENGTH('a) \<le> 8 * n \<Longrightarrow> le_word (le_bytes n (w :: 'a::len word)) = (ucast w :: 'b::len word)"
  by (rule bit_word_eqI) (auto simp: bit_le_word_le_bytes bit_simps dest: bit_imp_le_length)

lemma le_word_le_bytes: "le_word (le_bytes n w) = take_bit (8 * n) (w :: 'a::len word)"
  by (rule bit_word_eqI) (auto simp: bit_le_word_le_bytes bit_simps)

lemma le_word_le_bytes_full:
  "LENGTH('a) \<le> 8 * n \<Longrightarrow> le_word (le_bytes n w) = (w :: 'a::len word)"
  by (simp add: le_word_le_bytes take_bit_word_eq_self)

lemma le_bytes_le_word:
  "8 * length bs \<le> LENGTH('a) \<Longrightarrow> le_bytes (length bs) (le_word bs :: 'a::len word) = bs"
proof (induction bs)
  case Nil
  then show ?case by simp
next
  case (Cons b bs)
  let ?w = "le_word bs :: 'a word"
  have hi: "bit ?w n \<Longrightarrow> n < 8 * length bs" for n
  proof -
    assume "bit ?w n"
    moreover have "?w = take_bit (8 * length bs) ?w"
      using Cons.IH Cons.prems le_word_le_bytes [of "length bs" ?w] by simp
    ultimately show ?thesis by (metis bit_take_bit_iff)
  qed
  have "(ucast (ucast b OR push_bit 8 ?w :: 'a word) :: byte) = b"
    by (rule bit_word_eqI) (use Cons.prems in \<open>auto simp: bit_simps\<close>)
  moreover have "drop_bit 8 (ucast b OR push_bit 8 ?w :: 'a word) = ?w"
  proof (rule bit_word_eqI)
    fix n assume n: "n < LENGTH('a)"
    show "bit (drop_bit 8 (ucast b OR push_bit 8 ?w :: 'a word)) n = bit ?w n"
      using hi [of n] Cons.prems by (auto simp: bit_simps dest: bit_imp_le_length)
  qed
  ultimately show ?case using Cons by simp
qed

section \<open>std::lower\_bound on sorted sequences\<close>

text \<open>
  \<^verbatim>\<open>std::lower_bound\<close> as the index of the first element that is not less than the key.
\<close>

fun lower_bound :: "('a \<Rightarrow> 'k::linorder) \<Rightarrow> 'a list \<Rightarrow> 'k \<Rightarrow> nat" where
  "lower_bound f [] k = 0"
| "lower_bound f (x # xs) k = (if f x < k then Suc (lower_bound f xs k) else 0)"

lemma lower_bound_le [simp]: "lower_bound f xs k \<le> length xs"
  by (induction xs) auto

lemma lower_bound_before: "i < lower_bound f xs k \<Longrightarrow> f (xs ! i) < k"
  by (induction xs arbitrary: i) (auto simp: nth_Cons' split: if_splits)

lemma lower_bound_at: "lower_bound f xs k < length xs \<Longrightarrow> k \<le> f (xs ! lower_bound f xs k)"
  by (induction xs) auto

lemma lower_bound_nth:
  "sorted_wrt (<) (map f xs) \<Longrightarrow> i < length xs \<Longrightarrow> lower_bound f xs (f (xs ! i)) = i"
proof (induction xs arbitrary: i)
  case (Cons x xs)
  then show ?case by (cases i) auto
qed simp

lemma lower_bound_take_drop:
  "sorted (map f xs) \<Longrightarrow>
   (\<forall>y \<in> set (take (lower_bound f xs k) xs). f y < k) \<and>
   (\<forall>y \<in> set (drop (lower_bound f xs k) xs). k \<le> f y)"
  by (induction xs) auto

definition insert_at :: "nat \<Rightarrow> 'a \<Rightarrow> 'a list \<Rightarrow> 'a list" where
  "insert_at i x xs = take i xs @ x # drop i xs"

definition erase_at :: "nat \<Rightarrow> 'a list \<Rightarrow> 'a list" where
  "erase_at i xs = take i xs @ drop (Suc i) xs"

lemma set_insert_at [simp]: "set (insert_at i x xs) = insert x (set xs)"
  by (metis Un_insert_right append_take_drop_id insert_at_def list.simps(15) set_append)

lemma length_insert_at [simp]: "length (insert_at i x xs) = Suc (length xs)"
  by (simp add: insert_at_def)

lemma map_insert_at: "map f (insert_at i x xs) = insert_at i (f x) (map f xs)"
  by (simp add: insert_at_def take_map drop_map)

lemma map_erase_at: "map f (erase_at i xs) = erase_at i (map f xs)"
  by (simp add: erase_at_def take_map drop_map)

lemma length_erase_at [simp]: "i < length xs \<Longrightarrow> length (erase_at i xs) = length xs - 1"
  by (simp add: erase_at_def)

lemma sorted_insert_lower_bound:
  assumes "sorted (map f xs)"
  shows "sorted (map f (insert_at (lower_bound f xs (f x)) x xs))"
proof -
  have "sorted (map f (take n xs @ drop n xs))" for n using assms by simp
  then show ?thesis
    using lower_bound_take_drop [OF assms, of "f x"]
    by (auto simp: insert_at_def sorted_append simp del: append_take_drop_id)
qed

end
