(* ===== verification/Mega_Base64.thy ===== *)
theory Mega_Base64
  imports Mega_Prelude
begin

text \<open>
  \<^verbatim>\<open>src/base64.cpp\<close>: the modified Base64 alphabet, Base32, the base-64 integer notation and
  URL escaping. A NUL-terminated C string is the list of its characters; reading past the
  list reads the terminator 0. Output buffers are the list of bytes written so far, so the
  write position \<open>p\<close> of the code is the length of that list.
\<close>

section \<open>Alphabets\<close>

definition to64 :: "byte \<Rightarrow> byte" where
  "to64 c0 = (let c = c0 AND 63 in
     if c < 26 then c + ch CHR ''A''
     else if c < 52 then c - 26 + ch CHR ''a''
     else if c < 62 then c - 52 + ch CHR ''0''
     else if c = 62 then ch CHR ''-''
     else ch CHR ''_'')"

definition from64 :: "byte \<Rightarrow> byte" where
  "from64 c =
    (if c \<ge> ch CHR ''A'' \<and> c \<le> ch CHR ''Z'' then c - ch CHR ''A''
     else if c \<ge> ch CHR ''a'' \<and> c \<le> ch CHR ''z'' then c - ch CHR ''a'' + 26
     else if c \<ge> ch CHR ''0'' \<and> c \<le> ch CHR ''9'' then c - ch CHR ''0'' + 52
     else if c = ch CHR ''-'' \<or> c = ch CHR ''+'' then 62
     else if c = ch CHR ''_'' \<or> c = ch CHR ''/'' then 63
     else 255)"

definition to32 :: "byte \<Rightarrow> byte" where
  "to32 c0 = (let c = c0 AND 31 in
     if c < 26 then c + ch CHR ''a'' else c - 26 + ch CHR ''2'')"

definition from32 :: "byte \<Rightarrow> byte" where
  "from32 c =
    (if c \<ge> ch CHR ''a'' \<and> c \<le> ch CHR ''z'' then c - ch CHR ''a''
     else if c \<ge> ch CHR ''2'' \<and> c \<le> ch CHR ''9'' then c - ch CHR ''2'' + 26
     else 255)"

section \<open>Decoding loops\<close>

text \<open>
  The inner \<^verbatim>\<open>for\<close> loop of both decoders: read up to \<open>n\<close> digits into \<open>c\<close>, stopping after the
  first character that is no digit (whose code 255 is stored all the same). The result is the
  array, the count \<open>i\<close> and the unread input.
\<close>

definition cstr_hd :: "bytes \<Rightarrow> byte" where
  "cstr_hd a = (case a of [] \<Rightarrow> 0 | x # _ \<Rightarrow> x)"

lemma cstr_hd_simps [simp]: "cstr_hd [] = 0" "cstr_hd (x # xs) = x"
  by (simp_all add: cstr_hd_def)

function scan_digits :: "(byte \<Rightarrow> byte) \<Rightarrow> nat \<Rightarrow> bytes \<Rightarrow> nat \<Rightarrow> bytes \<Rightarrow> bytes \<times> nat \<times> bytes" where
  "scan_digits dec n c i a =
    (if i < n then
       (let v = dec (cstr_hd a); c' = c[i := v]
        in if v = 255 then (c', i, tl a) else scan_digits dec n c' (Suc i) (tl a))
     else (c, i, a))"
  by pat_completeness auto
termination
  by (relation "measure (\<lambda>(dec, n, c, i, a). n - i)") auto

declare scan_digits.simps [simp del]

lemma scan_digits_done: "n \<le> i \<Longrightarrow> scan_digits dec n c i a = (c, i, a)"
  by (simp add: scan_digits.simps)

lemma scan_digits_stop:
  "i < n \<Longrightarrow> dec (cstr_hd a) = 255 \<Longrightarrow> scan_digits dec n c i a = (c[i := 255], i, tl a)"
  by (simp add: scan_digits.simps)

lemma scan_digits_go:
  "i < n \<Longrightarrow> dec (cstr_hd a) \<noteq> 255 \<Longrightarrow>
   scan_digits dec n c i a = scan_digits dec n (c[i := dec (cstr_hd a)]) (Suc i) (tl a)"
  by (subst scan_digits.simps) simp

lemmas scan_digits_steps = scan_digits_done scan_digits_stop scan_digits_go

lemma scan_digits_count_consumes:
  assumes "scan_digits dec n c i a = (c', j, a')" "i \<le> n"
  shows "j \<le> n \<and> (j = n \<longrightarrow> dec 0 = 255 \<longrightarrow> length a' + (n - i) = length a)"
  using assms
proof (induction dec n c i a rule: scan_digits.induct)
  case (1 dec n c i a)
  show ?case
  proof (cases "i < n \<and> dec (cstr_hd a) \<noteq> 255")
    case True
    with 1 have IH: "j \<le> n \<and> (j = n \<longrightarrow> dec 0 = 255 \<longrightarrow> length a' + (n - Suc i) = length (tl a))"
      by (simp add: scan_digits_go)
    from True show ?thesis
    proof (cases a)
      case Nil
      with True IH show ?thesis by (auto simp: cstr_hd_def)
    next
      case (Cons x xs)
      with True IH show ?thesis by auto
    qed
  next
    case False
    with "1.prems" show ?thesis by (cases "i < n") (auto simp: scan_digits_steps)
  qed
qed

lemma from64_0 [simp]: "from64 0 = 255"
  by (simp add: from64_def)

lemma from32_0 [simp]: "from32 0 = 255"
  by (simp add: from32_def)

function atob_loop :: "bytes \<Rightarrow> bytes \<Rightarrow> int \<Rightarrow> bytes \<Rightarrow> bytes" where
  "atob_loop c a blen b =
    (let (c, i, a') = scan_digits from64 4 c 0 a in
     if int (length b) \<ge> blen \<or> i = 0 then b
     else let b = b @ [push_bit 2 (c ! 0) OR drop_bit 4 (c ! 1 AND 0x30)] in
     if int (length b) \<ge> blen \<or> i < 3 then b
     else let b = b @ [push_bit 4 (c ! 1) OR drop_bit 2 (c ! 2 AND 0x3c)] in
     if int (length b) \<ge> blen \<or> i < 4 then b
     else let b = b @ [push_bit 6 (c ! 2) OR c ! 3] in
     atob_loop c a' blen b)"
  by pat_completeness auto

lemma scan_digits_full_shrinks:
  assumes "(c', j, a') = scan_digits dec n c 0 a" "\<not> j < n" "dec 0 = 255" "0 < n"
  shows "length a' < length a"
  using scan_digits_count_consumes [of dec n c 0 a c' j a'] assms by auto

termination atob_loop
  by (relation "measure (\<lambda>(c, a, blen, b). length a)")
    (auto dest: scan_digits_full_shrinks [where n = 4 and dec = from64])

declare atob_loop.simps [simp del]

definition atob :: "bytes \<Rightarrow> int \<Rightarrow> bytes" where
  "atob a blen = atob_loop [0, 0, 0, 0] a blen []"

definition atob_str :: "bytes \<Rightarrow> bytes" where
  "atob_str in_s = atob in_s (int (length in_s * 3 div 4 + 3))"

function atob32_loop :: "bytes \<Rightarrow> bytes \<Rightarrow> int \<Rightarrow> bytes \<Rightarrow> bytes" where
  "atob32_loop c a blen b =
    (let (c, i, a') = scan_digits from32 8 c 0 a in
     if int (length b) \<ge> blen \<or> i = 0 then b
     else let b = b @ [push_bit 3 (c ! 0) OR drop_bit 2 (c ! 1 AND 0x1C)] in
     if int (length b) \<ge> blen \<or> i < 4 then b
     else let b = b @ [push_bit 6 (c ! 1) OR push_bit 1 (c ! 2) OR drop_bit 4 (c ! 3 AND 0x10)] in
     if int (length b) \<ge> blen \<or> i < 5 then b
     else let b = b @ [push_bit 4 (c ! 3) OR drop_bit 1 (c ! 4 AND 0x1E)] in
     if int (length b) \<ge> blen \<or> i < 7 then b
     else let b = b @ [push_bit 7 (c ! 4) OR push_bit 2 (c ! 5) OR drop_bit 3 (c ! 6 AND 0x18)] in
     if int (length b) \<ge> blen \<or> i < 8 then b
     else let b = b @ [push_bit 5 (c ! 6) OR c ! 7] in
     atob32_loop c a' blen b)"
  by pat_completeness auto

termination atob32_loop
  by (relation "measure (\<lambda>(c, a, blen, b). length a)")
    (auto dest: scan_digits_full_shrinks [where n = 8 and dec = from32])

declare atob32_loop.simps [simp del]

definition atob32 :: "bytes \<Rightarrow> int \<Rightarrow> bytes" where
  "atob32 a blen = atob32_loop (replicate 8 0) a blen []"

section \<open>Encoding loops\<close>

fun btoa :: "bytes \<Rightarrow> bytes" where
  "btoa [] = []"
| "btoa [b0] = [to64 (drop_bit 2 b0), to64 (push_bit 4 b0 OR drop_bit 4 0)]"
| "btoa [b0, b1] =
    [to64 (drop_bit 2 b0), to64 (push_bit 4 b0 OR drop_bit 4 b1),
     to64 (push_bit 2 b1 OR drop_bit 6 0)]"
| "btoa (b0 # b1 # b2 # b) =
    to64 (drop_bit 2 b0) # to64 (push_bit 4 b0 OR drop_bit 4 b1) #
    to64 (push_bit 2 b1 OR drop_bit 6 b2) # to64 b2 # btoa b"

fun btoa32 :: "bytes \<Rightarrow> bytes" where
  "btoa32 [] = []"
| "btoa32 [b0] = [to32 (drop_bit 3 b0), to32 (push_bit 2 b0 OR drop_bit 6 0)]"
| "btoa32 [b0, b1] =
    [to32 (drop_bit 3 b0), to32 (push_bit 2 b0 OR drop_bit 6 b1),
     to32 (drop_bit 1 b1), to32 (push_bit 4 b1 OR drop_bit 4 0)]"
| "btoa32 [b0, b1, b2] =
    [to32 (drop_bit 3 b0), to32 (push_bit 2 b0 OR drop_bit 6 b1),
     to32 (drop_bit 1 b1), to32 (push_bit 4 b1 OR drop_bit 4 b2),
     to32 (push_bit 1 b2 OR drop_bit 7 0)]"
| "btoa32 [b0, b1, b2, b3] =
    [to32 (drop_bit 3 b0), to32 (push_bit 2 b0 OR drop_bit 6 b1),
     to32 (drop_bit 1 b1), to32 (push_bit 4 b1 OR drop_bit 4 b2),
     to32 (push_bit 1 b2 OR drop_bit 7 b3),
     to32 (drop_bit 2 b3), to32 (push_bit 3 b3 OR drop_bit 5 0)]"
| "btoa32 (b0 # b1 # b2 # b3 # b4 # b) =
    to32 (drop_bit 3 b0) # to32 (push_bit 2 b0 OR drop_bit 6 b1) #
    to32 (drop_bit 1 b1) # to32 (push_bit 4 b1 OR drop_bit 4 b2) #
    to32 (push_bit 1 b2 OR drop_bit 7 b3) #
    to32 (drop_bit 2 b3) # to32 (push_bit 3 b3 OR drop_bit 5 b4) # to32 b4 # btoa32 b"

definition toStandard :: "bytes \<Rightarrow> bytes" where
  "toStandard s0 =
    (let s1 = map (\<lambda>c. if c = ch CHR ''-'' then ch CHR ''+'' else c) s0;
         s2 = map (\<lambda>c. if c = ch CHR ''_'' then ch CHR ''/'' else c) s1;
         padChars = 4 - length s2 mod 4
     in if padChars < 4 then s2 @ replicate padChars (ch CHR ''='') else s2)"

section \<open>Integers in base 64\<close>

function itoa_loop :: "int \<Rightarrow> bytes \<Rightarrow> bytes" where
  "itoa_loop val result =
    (if val > 0 then itoa_loop (val div 64) (to64 (word_of_int (val mod 64)) # result) else result)"
  by pat_completeness auto
termination
  by (relation "measure (\<lambda>(val, result). nat val)") auto

declare itoa_loop.simps [simp del]

text \<open>\<open>itoa val result\<close> is the content of \<^verbatim>\<open>*result\<close> after the call.\<close>

definition itoa :: "int \<Rightarrow> bytes \<Rightarrow> bytes" where
  "itoa val result =
    (if val < 0 then result
     else if val = 0 then [ch CHR ''A'']
     else itoa_loop val [])"

text \<open>
  The accumulator is an \<^verbatim>\<open>int64_t\<close>; overflowing it is undefined behaviour in C++, which the
  model reports as \<open>None\<close>.
\<close>

fun atoi_loop :: "bytes \<Rightarrow> int \<Rightarrow> nat \<Rightarrow> (int \<times> nat) option" where
  "atoi_loop [] res valid = Some (res, valid)"
| "atoi_loop (x # xs) res valid =
    (let b = from64 x in
     if b = 255 then atoi_loop xs res valid
     else if res * 64 + uint b < 2 ^ 63 then atoi_loop xs (res * 64 + uint b) (Suc valid)
     else None)"

definition atoi :: "bytes \<Rightarrow> int option" where
  "atoi val =
    (if val = [] then Some (-1)
     else case atoi_loop val 0 0 of
       None \<Rightarrow> None
     | Some (res, valid) \<Rightarrow> if valid = 0 \<or> res < 0 then Some (-1) else Some res)"

section \<open>URL escaping\<close>

definition ishexdigit :: "byte \<Rightarrow> bool" where
  "ishexdigit c \<longleftrightarrow>
    (c \<ge> ch CHR ''0'' \<and> c \<le> ch CHR ''9'') \<or> (c \<ge> ch CHR ''a'' \<and> c \<le> ch CHR ''f'') \<or>
    (c \<ge> ch CHR ''A'' \<and> c \<le> ch CHR ''F'')"

definition issafe :: "byte \<Rightarrow> bool" where
  "issafe c \<longleftrightarrow>
    ishexdigit c \<or> (c \<ge> ch CHR ''a'' \<and> c \<le> ch CHR ''z'') \<or> (c \<ge> ch CHR ''A'' \<and> c \<le> ch CHR ''Z'') \<or>
    c = ch CHR ''-'' \<or> c = ch CHR ''.'' \<or> c = ch CHR ''_'' \<or> c = ch CHR ''~''"

definition hexval :: "byte \<Rightarrow> byte" where
  "hexval c = ((c AND 0xf) + drop_bit 6 c) OR (drop_bit 3 c AND 0x8)"

text \<open>The two digits \<^verbatim>\<open>%02x\<close> prints for a byte.\<close>

definition lchex :: "byte \<Rightarrow> byte" where
  "lchex n = (if n < 10 then n + ch CHR ''0'' else n - 10 + ch CHR ''a'')"

fun url_escape :: "bytes \<Rightarrow> bytes" where
  "url_escape [] = []"
| "url_escape (c # plain) =
    (if issafe c then c # url_escape plain
     else ch CHR ''%'' # lchex (drop_bit 4 c) # lchex (c AND 0xf) # url_escape plain)"

fun url_unescape :: "bytes \<Rightarrow> bytes" where
  "url_unescape [] = []"
| "url_unescape (m0 # m) =
    (case m of
       m1 # m2 # m3 \<Rightarrow>
         if m0 = ch CHR ''%'' \<and> ishexdigit m1 \<and> ishexdigit m2
         then (push_bit 4 (hexval m1) OR hexval m2) # url_unescape m3
         else m0 # url_unescape m
     | _ \<Rightarrow> m0 # url_unescape m)"

section \<open>The digit interface\<close>

text \<open>
  What the decoders need of an alphabet of \<open>k\<close>-bit digits: decoding a digit gives back its low
  \<open>k\<close> bits, no digit decodes to the stop code, and the string terminator stops the scan.
\<close>

locale digit_code =
  fixes k :: nat and enc dec :: "byte \<Rightarrow> byte"
  assumes dec_enc: "dec (enc c) = take_bit k c"
    and enc_digit: "dec (enc c) \<noteq> 255"
begin

lemma scan_digits_map:
  "length c = n \<Longrightarrow> i \<le> n \<Longrightarrow> i + length ds = n \<Longrightarrow>
   scan_digits dec n c i (map enc ds @ rest) = (take i c @ map (take_bit k) ds, n, rest)"
proof (induction ds arbitrary: c i)
  case Nil
  then show ?case by (simp add: scan_digits_done)
next
  case (Cons d ds)
  then have "scan_digits dec n c i (map enc (d # ds) @ rest) =
      scan_digits dec n (c[i := take_bit k d]) (Suc i) (map enc ds @ rest)"
    using enc_digit [of d] by (simp add: scan_digits_go dec_enc)
  also have "\<dots> = (take (Suc i) (c[i := take_bit k d]) @ map (take_bit k) ds, n, rest)"
    using Cons.prems by (intro Cons.IH) auto
  finally show ?case using Cons.prems by (simp add: take_Suc_conv_app_nth)
qed

lemma scan_digits_map_end:
  "length c = n \<Longrightarrow> i + length ds < n \<Longrightarrow> dec (cstr_hd q) = 255 \<Longrightarrow>
   scan_digits dec n c i (map enc ds @ q) =
     (take i c @ map (take_bit k) ds @ 255 # drop (Suc (i + length ds)) c, i + length ds, tl q)"
proof (induction ds arbitrary: c i)
  case Nil
  then show ?case by (simp add: scan_digits_stop upd_conv_take_nth_drop)
next
  case (Cons d ds)
  then have "scan_digits dec n c i (map enc (d # ds) @ q) =
      scan_digits dec n (c[i := take_bit k d]) (Suc i) (map enc ds @ q)"
    using enc_digit [of d] by (simp add: scan_digits_go dec_enc)
  also have "\<dots> = (take (Suc i) (c[i := take_bit k d]) @ map (take_bit k) ds @
      255 # drop (Suc (Suc i + length ds)) (c[i := take_bit k d]), Suc i + length ds, tl q)"
    using Cons.prems by (intro Cons.IH) auto
  finally show ?case using Cons.prems by (simp add: take_Suc_conv_app_nth)
qed

end

text \<open>Both alphabets are finite tables: checking every digit value settles the interface.\<close>

lemma take_bit_byte_cases:
  fixes c :: byte
  assumes "list_all (\<lambda>n. P (word_of_nat n :: byte)) [0..<2 ^ k]" "k \<le> 8"
  shows "P (take_bit k c)"
proof -
  have "unat (take_bit k c) < 2 ^ k"
    by (simp add: unsigned_take_bit_eq)
  then have "P (word_of_nat (unat (take_bit k c)))"
    using assms(1) unfolding list_all_iff by (metis atLeastLessThan_iff le0 set_upt)
  then show ?thesis by simp
qed

lemma mask_byte: "(c :: byte) AND 63 = take_bit 6 c" "(c :: byte) AND 31 = take_bit 5 c"
  by (simp_all add: take_bit_eq_mask mask_eq_exp_minus_1)

lemma to64_table:
  "list_all (\<lambda>n. from64 (to64 (word_of_nat n)) = word_of_nat n \<and> word_of_nat n \<noteq> (255 :: byte) \<and>
     issafe (to64 (word_of_nat n))) [0..<2 ^ 6]"
  by (simp add: upt_rec to64_def from64_def issafe_def ishexdigit_def)

lemma to32_table:
  "list_all (\<lambda>n. from32 (to32 (word_of_nat n)) = word_of_nat n \<and> word_of_nat n \<noteq> (255 :: byte)) [0..<2 ^ 5]"
  by (simp add: upt_rec to32_def from32_def)

lemma from64_to64: "from64 (to64 c) = take_bit 6 c \<and> take_bit 6 c \<noteq> 255 \<and> issafe (to64 c)"
proof -
  have "to64 (take_bit 6 c) = to64 c" by (simp add: to64_def mask_byte)
  with take_bit_byte_cases [OF to64_table, of c] show ?thesis by simp
qed

lemma from32_to32: "from32 (to32 c) = take_bit 5 c \<and> take_bit 5 c \<noteq> 255"
proof -
  have "to32 (take_bit 5 c) = to32 c" by (simp add: to32_def mask_byte)
  with take_bit_byte_cases [OF to32_table, of c] show ?thesis by simp
qed

interpretation d64: digit_code 6 to64 from64
  by unfold_locales (simp_all add: from64_to64)

interpretation d32: digit_code 5 to32 from32
  by unfold_locales (simp_all add: from32_to32)

section \<open>Round trips\<close>

text \<open>One group of digits regroups into the bytes it came from.\<close>

lemma regroup64:
  fixes x y z :: byte
  shows "push_bit 2 (take_bit 6 (drop_bit 2 x)) OR
      drop_bit 4 (take_bit 6 (push_bit 4 x OR drop_bit 4 y) AND 0x30) = x"
    and "push_bit 4 (take_bit 6 (push_bit 4 x OR drop_bit 4 y)) OR
      drop_bit 2 (take_bit 6 (push_bit 2 y OR drop_bit 6 z) AND 0x3c) = y"
    and "push_bit 6 (take_bit 6 (push_bit 2 y OR drop_bit 6 z)) OR take_bit 6 z = z"
  by (rule byte_eqI; simp add: bit_simps)+

lemma regroup32:
  fixes v w x y z :: byte
  shows "push_bit 3 (take_bit 5 (drop_bit 3 v)) OR
      drop_bit 2 (take_bit 5 (push_bit 2 v OR drop_bit 6 w) AND 0x1C) = v"
    and "push_bit 6 (take_bit 5 (push_bit 2 v OR drop_bit 6 w)) OR
      push_bit 1 (take_bit 5 (drop_bit 1 w)) OR
      drop_bit 4 (take_bit 5 (push_bit 4 w OR drop_bit 4 x) AND 0x10) = w"
    and "push_bit 4 (take_bit 5 (push_bit 4 w OR drop_bit 4 x)) OR
      drop_bit 1 (take_bit 5 (push_bit 1 x OR drop_bit 7 y) AND 0x1E) = x"
    and "push_bit 7 (take_bit 5 (push_bit 1 x OR drop_bit 7 y)) OR
      push_bit 2 (take_bit 5 (drop_bit 2 y)) OR
      drop_bit 3 (take_bit 5 (push_bit 3 y OR drop_bit 5 z) AND 0x18) = y"
    and "push_bit 5 (take_bit 5 (push_bit 3 y OR drop_bit 5 z)) OR take_bit 5 z = z"
  by (rule byte_eqI; simp add: bit_simps del: push_bit_Suc One_nat_def; simp)+

lemma scan64:
  assumes "length c = 4"
  shows "scan_digits from64 4 c 0 (to64 d0 # to64 d1 # to64 d2 # to64 d3 # rest) =
      ([take_bit 6 d0, take_bit 6 d1, take_bit 6 d2, take_bit 6 d3], 4, rest)"
  using assms d64.scan_digits_map [of c 4 0 "[d0, d1, d2, d3]" rest] by (simp add: numeral_eq_Suc)

lemma scan64_end:
  assumes "length c = 4" "from64 (cstr_hd q) = 255"
  shows "scan_digits from64 4 c 0 q = (255 # drop 1 c, 0, tl q)"
    and "scan_digits from64 4 c 0 (to64 d0 # to64 d1 # q) =
      (take_bit 6 d0 # take_bit 6 d1 # 255 # drop 3 c, 2, tl q)"
    and "scan_digits from64 4 c 0 (to64 d0 # to64 d1 # to64 d2 # q) =
      ([take_bit 6 d0, take_bit 6 d1, take_bit 6 d2, 255], 3, tl q)"
  using assms d64.scan_digits_map_end [of c 4 0 "[]" q] d64.scan_digits_map_end [of c 4 0 "[d0, d1]" q]
    d64.scan_digits_map_end [of c 4 0 "[d0, d1, d2]" q]
  by (simp_all add: numeral_eq_Suc)

text \<open>What follows the text must not start with a digit: the end, or the quote that closes a JSON string.\<close>

lemma atob_loop_btoa:
  "length c = 4 \<Longrightarrow> int (length b + length x) \<le> blen \<Longrightarrow> from64 (cstr_hd q) = 255 \<Longrightarrow> atob_loop c (btoa x @ q) blen b = b @ x"
proof (induction x arbitrary: b c rule: btoa.induct)
  case 1
  then show ?case by (subst atob_loop.simps) (simp add: scan64_end)
next
  case (2 b0)
  then show ?case
    using regroup64(1) [of b0 0] by (subst atob_loop.simps) (simp add: scan64_end)
next
  case (3 b0 b1)
  then show ?case
    using regroup64(1) [of b0 b1] regroup64(2) [of b0 b1 0]
    by (subst atob_loop.simps) (simp add: scan64_end)
next
  case (4 b0 b1 b2 x)
  have *: "atob_loop [take_bit 6 (drop_bit 2 b0), take_bit 6 (push_bit 4 b0 OR drop_bit 4 b1),
      take_bit 6 (push_bit 2 b1 OR drop_bit 6 b2), take_bit 6 b2] (btoa x @ q) blen (b @ [b0, b1, b2]) =
      (b @ [b0, b1, b2]) @ x"
    using "4.prems" by (intro "4.IH") auto
  show ?case
    using * "4.prems" regroup64(1) [of b0 b1] regroup64(2) [of b0 b1 b2] regroup64(3) [of b1 b2]
    by (subst atob_loop.simps) (auto simp: scan64 simp del: take_bit_or take_bit_push_bit)
qed

lemma atob_btoa: "int (length x) \<le> blen \<Longrightarrow> from64 (cstr_hd q) = 255 \<Longrightarrow> atob (btoa x @ q) blen = x"
  by (simp add: atob_def atob_loop_btoa)

lemmas atob_btoa_end = atob_btoa [where q = "[]", simplified]

lemma scan32:
  assumes "length c = 8"
  shows "scan_digits from32 8 c 0 (to32 d0 # to32 d1 # to32 d2 # to32 d3 # to32 d4 # to32 d5 #
        to32 d6 # to32 d7 # rest) =
      (map (take_bit 5) [d0, d1, d2, d3, d4, d5, d6, d7], 8, rest)"
    and "scan_digits from32 8 c 0 [] = (255 # drop 1 c, 0, [])"
    and "scan_digits from32 8 c 0 [to32 d0, to32 d1] =
      (map (take_bit 5) [d0, d1] @ 255 # drop 3 c, 2, [])"
    and "scan_digits from32 8 c 0 [to32 d0, to32 d1, to32 d2, to32 d3] =
      (map (take_bit 5) [d0, d1, d2, d3] @ 255 # drop 5 c, 4, [])"
    and "scan_digits from32 8 c 0 [to32 d0, to32 d1, to32 d2, to32 d3, to32 d4] =
      (map (take_bit 5) [d0, d1, d2, d3, d4] @ 255 # drop 6 c, 5, [])"
    and "scan_digits from32 8 c 0 [to32 d0, to32 d1, to32 d2, to32 d3, to32 d4, to32 d5, to32 d6] =
      (map (take_bit 5) [d0, d1, d2, d3, d4, d5, d6] @ 255 # drop 8 c, 7, [])"
  using assms d32.scan_digits_map [of c 8 0 "[d0, d1, d2, d3, d4, d5, d6, d7]" rest]
    d32.scan_digits_map_end [of c 8 0 "[]" "[]"] d32.scan_digits_map_end [of c 8 0 "[d0, d1]" "[]"]
    d32.scan_digits_map_end [of c 8 0 "[d0, d1, d2, d3]" "[]"]
    d32.scan_digits_map_end [of c 8 0 "[d0, d1, d2, d3, d4]" "[]"]
    d32.scan_digits_map_end [of c 8 0 "[d0, d1, d2, d3, d4, d5, d6]" "[]"]
  by (simp_all add: numeral_eq_Suc)

lemma atob32_loop_btoa32:
  "length c = 8 \<Longrightarrow> int (length b + length x) \<le> blen \<Longrightarrow> atob32_loop c (btoa32 x) blen b = b @ x"
proof (induction x arbitrary: b c rule: btoa32.induct)
  case 1
  then show ?case by (subst atob32_loop.simps) (simp add: scan32)
next
  case (2 b0)
  then show ?case
    using regroup32(1) [of b0 0] by (subst atob32_loop.simps) (simp add: scan32)
next
  case (3 b0 b1)
  then show ?case
    using regroup32(1) [of b0 b1] regroup32(2) [of b0 b1 0]
    by (subst atob32_loop.simps) (simp add: scan32)
next
  case (4 b0 b1 b2)
  then show ?case
    using regroup32(1) [of b0 b1] regroup32(2) [of b0 b1 b2] regroup32(3) [of b1 b2 0]
    by (subst atob32_loop.simps) (simp add: scan32)
next
  case (5 b0 b1 b2 b3)
  then show ?case
    using regroup32(1) [of b0 b1] regroup32(2) [of b0 b1 b2] regroup32(3) [of b1 b2 b3]
      regroup32(4) [of b2 b3 0]
    by (subst atob32_loop.simps) (simp add: scan32)
next
  case (6 b0 b1 b2 b3 b4 x)
  have *: "atob32_loop (map (take_bit 5) [drop_bit 3 b0, push_bit 2 b0 OR drop_bit 6 b1,
      drop_bit 1 b1, push_bit 4 b1 OR drop_bit 4 b2, push_bit 1 b2 OR drop_bit 7 b3,
      drop_bit 2 b3, push_bit 3 b3 OR drop_bit 5 b4, b4]) (btoa32 x) blen
      (b @ [b0, b1, b2, b3, b4]) = (b @ [b0, b1, b2, b3, b4]) @ x"
    using "6.prems" by (intro "6.IH") auto
  show ?case
    using * "6.prems" regroup32(1) [of b0 b1] regroup32(2) [of b0 b1 b2] regroup32(3) [of b1 b2 b3]
      regroup32(4) [of b2 b3 b4] regroup32(5) [of b3 b4]
    by (subst atob32_loop.simps) (auto simp: scan32)
qed

lemma length_btoa: "length (btoa x) = (4 * length x + 2) div 3"
  by (induction x rule: btoa.induct) auto

lemma btoa_issafe: "c \<in> set (btoa x) \<Longrightarrow> issafe c"
  by (induction x rule: btoa.induct) (auto simp: from64_to64)

lemma atob_loop_bound: "int (length b) \<le> max blen (int (length b0)) \<Longrightarrow>
   int (length (atob_loop c a blen b)) \<le> max blen (int (length b0))"
proof (induction c a blen b rule: atob_loop.induct)
  case (1 c a blen b)
  obtain c' i a' where s: "scan_digits from64 4 c 0 a = (c', i, a')"
    by (metis prod_cases3)
  show ?case
    using "1.prems" "1.IH" [OF s [symmetric] refl]
    by (subst atob_loop.simps) (auto simp: s Let_def)
qed

lemma atoi_loop_append:
  "atoi_loop (xs @ ys) res valid =
    (case atoi_loop xs res valid of None \<Rightarrow> None | Some (r, v) \<Rightarrow> atoi_loop ys r v)"
  by (induction xs arbitrary: res valid) (auto simp: Let_def)

lemma itoa_loop_acc: "itoa_loop val (xs @ ys) = itoa_loop val xs @ ys"
proof (induction val xs rule: itoa_loop.induct)
  case (1 val xs)
  then show ?case
    by (cases "val > 0") (simp_all add: itoa_loop.simps [of val] itoa_loop.simps [of val xs])
qed

lemma from64_digit: "0 \<le> d \<Longrightarrow> d < 64 \<Longrightarrow> from64 (to64 (word_of_int d)) = word_of_int d"
  by (simp add: from64_to64 take_bit_of_int take_bit_int_eq_self)

lemma itoa_loop_atoi_loop:
  "0 \<le> val \<Longrightarrow> val < 2 ^ 63 \<Longrightarrow>
   \<exists>n. (0 < val \<longrightarrow> 0 < n) \<and> atoi_loop (itoa_loop val []) 0 0 = Some (val, n)"
proof (induction "nat val" arbitrary: val rule: less_induct)
  case less
  show ?case
  proof (cases "val > 0")
    case False
    with less.prems show ?thesis by (simp add: itoa_loop.simps)
  next
    case True
    let ?d = "word_of_int (val mod 64) :: byte"
    have "nat (val div 64) < nat val" using True by simp
    then obtain n where n: "atoi_loop (itoa_loop (val div 64) []) 0 0 = Some (val div 64, n)"
      using less.hyps [of "val div 64"] less.prems True by (auto simp: pos_imp_zdiv_nonneg_iff)
    have d: "from64 (to64 ?d) = ?d" by (rule from64_digit) simp_all
    have u: "uint ?d = val mod 64" by (simp add: take_bit_int_eq_self uint_word_of_int_eq)
    have "?d \<noteq> 255" using from64_to64 [of ?d] d by metis
    moreover have "itoa_loop val [] = itoa_loop (val div 64) [] @ [to64 ?d]"
      using True itoa_loop_acc [of "val div 64" "[]" "[to64 ?d]"] by (subst itoa_loop.simps) simp
    ultimately have "atoi_loop (itoa_loop val []) 0 0 = Some (val, Suc n)"
      using n d u less.prems by (simp add: atoi_loop_append)
    then show ?thesis by blast
  qed
qed

lemma lchex_table:
  "list_all (\<lambda>n. ishexdigit (lchex (word_of_nat n)) \<and> hexval (lchex (word_of_nat n)) = word_of_nat n)
     [0..<2 ^ 4]"
  by (simp add: upt_rec ishexdigit_def hexval_def lchex_def)

lemma hexval_lchex: "ishexdigit (lchex (take_bit 4 c)) \<and> hexval (lchex (take_bit 4 c)) = take_bit 4 c"
  using take_bit_byte_cases [OF lchex_table, of c] by simp

lemma nibbles:
  fixes c :: byte
  shows "c AND 0xf = take_bit 4 c" "take_bit 4 (drop_bit 4 c) = drop_bit 4 c"
    and "push_bit 4 (drop_bit 4 c) OR take_bit 4 c = c"
  by (rule byte_eqI; simp add: bit_simps)+

lemma url_unescape_plain: "m0 \<noteq> ch CHR ''%'' \<Longrightarrow> url_unescape (m0 # m) = m0 # url_unescape m"
  by (subst url_unescape.simps) (simp split: list.split)

lemma url_unescape_hex:
  "m0 = ch CHR ''%'' \<Longrightarrow> ishexdigit m1 \<Longrightarrow> ishexdigit m2 \<Longrightarrow>
   url_unescape (m0 # m1 # m2 # m) = (push_bit 4 (hexval m1) OR hexval m2) # url_unescape m"
  by (subst url_unescape.simps) simp

declare url_unescape.simps(2) [simp del]

lemma not_issafe_percent: "\<not> issafe (ch CHR ''%'')"
  by (simp add: issafe_def ishexdigit_def)

lemma toStandard_padded: "length (toStandard s) mod 4 = 0"
  by (simp add: toStandard_def Let_def) presburger

section \<open>Properties\<close>

text \<open>
  C20: decoding the Base64 text of a string with the string interface gives the string back. The
  buffer the interface sizes from the text is never too small for it.
\<close>

theorem base64_roundtrip: "atob_str (btoa x) = x"
proof -
  have "int (length x) \<le> int (length (btoa x) * 3 div 4 + 3)"
    unfolding length_btoa by presburger
  then show ?thesis
    by (simp add: atob_str_def atob_btoa_end)
qed

text \<open>Base32 decoding inverts Base32 encoding in any buffer that can hold the result.\<close>

theorem base32_roundtrip: "int (length x) \<le> blen \<Longrightarrow> atob32 (btoa32 x) blen = x"
  by (simp add: atob32_def atob32_loop_btoa32)

theorem base32_roundtrip_witness: "atob32 (btoa32 [1, 2, 255]) 3 = [1, 2, 255]"
  using base32_roundtrip [of "[1, 2, 255]" 3] by simp

text \<open>
  Neither decoder nor encoder writes outside its buffer: a decoder given \<open>blen\<close> bytes writes
  at most that many, and the encoder's text with its terminator fits the buffer \<^verbatim>\<open>btoa\<close> resizes
  the output string to.
\<close>

theorem base64_buffer_bounds:
  "int (length (atob a blen)) \<le> max blen 0 \<and> length (btoa x) + 1 \<le> length x * 4 div 3 + 4"
proof
  show "int (length (atob a blen)) \<le> max blen 0"
    using atob_loop_bound [of "[]" blen "[]" "[0, 0, 0, 0]" a] by (simp add: atob_def)
  show "length (btoa x) + 1 \<le> length x * 4 div 3 + 4"
    unfolding length_btoa by presburger
qed

text \<open>The base-64 integer notation reads back every non-negative 64-bit integer, without overflow.\<close>

theorem itoa_atoi_roundtrip:
  assumes "0 \<le> val" "val < 2 ^ 63"
  shows "atoi (itoa val s) = Some val"
proof (cases "val = 0")
  case True
  then show ?thesis by (simp add: itoa_def atoi_def from64_def)
next
  case False
  with assms obtain n where "0 < n" "atoi_loop (itoa_loop val []) 0 0 = Some (val, n)"
    using itoa_loop_atoi_loop [of val] by auto
  moreover from this False have "itoa_loop val [] \<noteq> []" by auto
  ultimately show ?thesis using assms False by (simp add: itoa_def atoi_def)
qed

theorem itoa_atoi_roundtrip_witness: "atoi (itoa 9223372036854775807 []) = Some 9223372036854775807"
  using itoa_atoi_roundtrip [of 9223372036854775807 "[]"] by simp

text \<open>
  URL escaping is inverted by unescaping, and the escaped text holds only characters that
  need no further escaping besides the percent sign itself.
\<close>

theorem url_escape_roundtrip:
  "url_unescape (url_escape s) = s \<and> (\<forall>c \<in> set (url_escape s). issafe c \<or> c = ch CHR ''%'')"
proof (induction s)
  case (Cons c s)
  show ?case
  proof (cases "issafe c")
    case True
    then have "c \<noteq> ch CHR ''%''" using not_issafe_percent by auto
    with True Cons show ?thesis by (simp add: url_unescape_plain)
  next
    case False
    have h: "ishexdigit (lchex (drop_bit 4 c))" "hexval (lchex (drop_bit 4 c)) = drop_bit 4 c"
      "ishexdigit (lchex (c AND 0xf))" "hexval (lchex (c AND 0xf)) = take_bit 4 c"
      using hexval_lchex [of "drop_bit 4 c"] hexval_lchex [of c] unfolding nibbles by simp_all
    moreover from h have "issafe (lchex (drop_bit 4 c))" "issafe (lchex (c AND 0xf))"
      by (simp_all add: issafe_def)
    ultimately show ?thesis using False Cons nibbles(3) [of c] by (simp add: url_unescape_hex)
  qed
qed simp

theorem url_escape_roundtrip_witness: "url_unescape (url_escape (asc ''a b/%'')) = asc ''a b/%''"
  by (rule conjunct1 [OF url_escape_roundtrip])

end
