(* ===== verification/Mega_Serialize.thy ===== *)
theory Mega_Serialize
  imports Mega_Base64 "HOL-Library.Sublist"
begin

text \<open>
  The cache format: \<^verbatim>\<open>src/serialize64.cpp\<close>, the \<^verbatim>\<open>CacheableWriter\<close> and \<^verbatim>\<open>CacheableReader\<close> of
  \<^verbatim>\<open>src/utils.cpp\<close>, and the fingerprint codecs of \<^verbatim>\<open>src/filefingerprint.cpp\<close>. A writer operation
  takes the destination string and returns it extended. A reader is the unread input
  (\<^verbatim>\<open>ptr\<close> up to \<^verbatim>\<open>end\<close>) and the field counter; a read returns its value, or \<open>None\<close> for a
  \<^verbatim>\<open>false\<close> result, together with the reader it leaves behind, which a failed read may have
  advanced. Signed integers and doubles travel as their object representation.
\<close>

section \<open>Serialize64\<close>

function serialize64_loop :: "u64 \<Rightarrow> bytes" where
  "serialize64_loop value =
    (if value \<noteq> 0 then ucast value # serialize64_loop (drop_bit 8 value) else [])"
  by pat_completeness auto
termination
proof (relation "measure unat")
  fix v :: u64
  assume "v \<noteq> 0"
  then have "unat v div 256 < unat v"
    by (simp add: unat_gt_0 div_less_dividend)
  then show "(drop_bit 8 v, v) \<in> measure unat"
    by (simp add: drop_bit_eq_div unat_div)
qed simp

declare serialize64_loop.simps [simp del]

definition serialize64 :: "u64 \<Rightarrow> bytes" where
  "serialize64 value = (let bs = serialize64_loop value in word_of_nat (length bs) # bs)"

text \<open>The last byte of the group is read first; the result is the value and the bytes consumed.\<close>

fun unserialize64_loop :: "bytes \<Rightarrow> nat \<Rightarrow> u64 \<Rightarrow> u64" where
  "unserialize64_loop bs 0 value = value"
| "unserialize64_loop bs (Suc n) value =
    unserialize64_loop bs n (push_bit 8 value + ucast (bs ! Suc n))"

definition unserialize64 :: "bytes \<Rightarrow> (u64 \<times> nat) option" where
  "unserialize64 bs =
    (let byteCount = unat (cstr_hd bs) in
     if byteCount > 8 \<or> byteCount \<ge> length bs then None
     else Some (unserialize64_loop bs byteCount 0, byteCount + 1))"

section \<open>CacheableWriter\<close>

definition serializebinary :: "bytes \<Rightarrow> bytes \<Rightarrow> bytes" where
  "serializebinary dest data = dest @ data"

text \<open>\<^verbatim>\<open>field\<close> is \<open>None\<close> for a null pointer; the characters are those before the terminator.\<close>

definition serializecstr :: "bytes \<Rightarrow> bytes option \<Rightarrow> bool \<Rightarrow> bytes" where
  "serializecstr dest field storeNull =
    (let ll = (case field of None \<Rightarrow> 0 | Some s \<Rightarrow> of_nat (length s + (if storeNull then 1 else 0))) :: u16
     in dest @ le_bytes 2 ll @ take (unat ll) (case field of None \<Rightarrow> [] | Some s \<Rightarrow> s @ [0]))"

definition serializepstr :: "bytes \<Rightarrow> bytes option \<Rightarrow> bytes" where
  "serializepstr dest field =
    (let ll = (case field of None \<Rightarrow> 0 | Some s \<Rightarrow> of_nat (length s)) :: u16
     in dest @ le_bytes 2 ll @ (case field of None \<Rightarrow> [] | Some s \<Rightarrow> take (unat ll) s))"

definition serializestring :: "bytes \<Rightarrow> bytes \<Rightarrow> bytes" where
  "serializestring dest field =
    (let ll = of_nat (length field) :: u16 in dest @ le_bytes 2 ll @ take (unat ll) field)"

definition serializestring_u32 :: "bytes \<Rightarrow> bytes \<Rightarrow> bytes" where
  "serializestring_u32 dest field =
    (let ll = of_nat (length field) :: u32 in dest @ le_bytes 4 ll @ take (unat ll) field)"

definition serializecompressedu64 :: "bytes \<Rightarrow> u64 \<Rightarrow> bytes" where
  "serializecompressedu64 dest field = dest @ serialize64 field"

definition serializei8 :: "bytes \<Rightarrow> 8 word \<Rightarrow> bytes" where
  "serializei8 dest field = dest @ le_bytes 1 field"

definition serializei32 :: "bytes \<Rightarrow> u32 \<Rightarrow> bytes" where
  "serializei32 dest field = dest @ le_bytes 4 field"

definition serializei64 :: "bytes \<Rightarrow> u64 \<Rightarrow> bytes" where
  "serializei64 dest field = dest @ le_bytes 8 field"

definition serializeu64 :: "bytes \<Rightarrow> u64 \<Rightarrow> bytes" where
  "serializeu64 dest field = dest @ le_bytes 8 field"

definition serializeu32 :: "bytes \<Rightarrow> u32 \<Rightarrow> bytes" where
  "serializeu32 dest field = dest @ le_bytes 4 field"

definition serializeu16 :: "bytes \<Rightarrow> u16 \<Rightarrow> bytes" where
  "serializeu16 dest field = dest @ le_bytes 2 field"

definition serializeu8 :: "bytes \<Rightarrow> 8 word \<Rightarrow> bytes" where
  "serializeu8 dest field = dest @ le_bytes 1 field"

definition serializehandle :: "bytes \<Rightarrow> handle \<Rightarrow> bytes" where
  "serializehandle dest field = dest @ le_bytes 8 field"

definition serializenodehandle :: "bytes \<Rightarrow> handle \<Rightarrow> bytes" where
  "serializenodehandle dest field = dest @ le_bytes 6 field"

definition serializebool :: "bytes \<Rightarrow> bool \<Rightarrow> bytes" where
  "serializebool dest field = dest @ [if field then 1 else 0]"

definition serializebyte :: "bytes \<Rightarrow> byte \<Rightarrow> bytes" where
  "serializebyte dest field = dest @ le_bytes 1 field"

definition serializedouble :: "bytes \<Rightarrow> u64 \<Rightarrow> bytes" where
  "serializedouble dest field = dest @ le_bytes 8 field"

definition serializeexpansionflags :: "bytes \<Rightarrow> bool list \<Rightarrow> bytes" where
  "serializeexpansionflags dest b =
    dest @ map (\<lambda>i. if i < length b \<and> b ! i then 1 else 0) [0..<8]"

section \<open>CacheableReader\<close>

record reader =
  rest :: bytes
  fieldnum :: u32

type_synonym 'a read = "reader \<Rightarrow> 'a option \<times> reader"

definition new_reader :: "bytes \<Rightarrow> reader" where
  "new_reader d = \<lparr>rest = d, fieldnum = 0\<rparr>"

definition hasdataleft :: "reader \<Rightarrow> bool" where
  "hasdataleft r \<longleftrightarrow> rest r \<noteq> []"

definition eraseused :: "bytes \<Rightarrow> reader \<Rightarrow> bytes" where
  "eraseused d r = drop (length d - length (rest r)) d"

text \<open>The step every fixed-size read takes: check, copy, advance, count.\<close>

definition advance :: "nat \<Rightarrow> reader \<Rightarrow> reader" where
  "advance n r = r\<lparr>rest := drop n (rest r), fieldnum := fieldnum r + 1\<rparr>"

definition read_fixed :: "nat \<Rightarrow> (bytes \<Rightarrow> 'a) \<Rightarrow> 'a read" where
  "read_fixed n conv r =
    (if length (rest r) < n then (None, r) else (Some (conv (take n (rest r))), advance n r))"

text \<open>
  The two reads of a length-prefixed string: the length is consumed even when the body is short,
  and an empty body leaves the caller's string \<open>s\<close> as it was.
\<close>

definition read_sized :: "nat \<Rightarrow> nat \<Rightarrow> bytes \<Rightarrow> bytes read" where
  "read_sized w trim s r =
    (if length (rest r) < w then (None, r)
     else let len = unat (le_word (take w (rest r)) :: u32); r' = r\<lparr>rest := drop w (rest r)\<rparr> in
       if length (rest r') < len then (None, r')
       else (Some (if len \<noteq> 0 then take (len - trim) (rest r') else s), advance len r'))"

definition unserializecstr :: "bytes \<Rightarrow> bool \<Rightarrow> bytes read" where
  "unserializecstr s removeNull = read_sized 2 (if removeNull then 1 else 0) s"

definition unserializestring :: "bytes \<Rightarrow> bytes read" where
  "unserializestring s = read_sized 2 0 s"

definition unserializestring_u32 :: "bytes \<Rightarrow> bytes read" where
  "unserializestring_u32 s = read_sized 4 0 s"

definition unserializebinary :: "nat \<Rightarrow> bytes read" where
  "unserializebinary len = read_fixed len (\<lambda>bs. bs)"

text \<open>This read does not count its field.\<close>

definition unserializecompressedu64 :: "u64 read" where
  "unserializecompressedu64 r =
    (case unserialize64 (rest r) of
       None \<Rightarrow> (None, r)
     | Some (field, n) \<Rightarrow> (Some field, r\<lparr>rest := drop n (rest r)\<rparr>))"

definition unserializei8 :: "8 word read" where
  "unserializei8 = read_fixed 1 le_word"

definition unserializei32 :: "u32 read" where
  "unserializei32 = read_fixed 4 le_word"

definition unserializei64 :: "u64 read" where
  "unserializei64 = read_fixed 8 le_word"

definition unserializeu16 :: "u16 read" where
  "unserializeu16 = read_fixed 2 le_word"

definition unserializeu32 :: "u32 read" where
  "unserializeu32 = read_fixed 4 le_word"

definition unserializeu8 :: "8 word read" where
  "unserializeu8 = read_fixed 1 le_word"

definition unserializeu64 :: "u64 read" where
  "unserializeu64 = read_fixed 8 le_word"

definition unserializehandle :: "handle read" where
  "unserializehandle = read_fixed 8 le_word"

definition unserializenodehandle :: "handle read" where
  "unserializenodehandle = read_fixed 6 le_word"

definition unserializebool :: "bool read" where
  "unserializebool = read_fixed 1 (\<lambda>bs. bs ! 0 \<noteq> 0)"

definition unserializebyte :: "byte read" where
  "unserializebyte = read_fixed 1 le_word"

definition unserializedouble :: "u64 read" where
  "unserializedouble = read_fixed 8 le_word"

definition unserializedirection :: "u32 read" where
  "unserializedirection = read_fixed 4 le_word"

definition unserializeexpansionflags :: "nat \<Rightarrow> bytes read" where
  "unserializeexpansionflags usedFlagCount r =
    (if length (rest r) < 8 then (None, r)
     else let field = take 8 (rest r) in
       if \<exists>i \<in> set [usedFlagCount..<8]. field ! i \<noteq> 0 then (None, r)
       else (Some field, advance 8 r))"

text \<open>\<^verbatim>\<open>!r.a(x) || !r.b(y) || ...\<close>: reads in sequence, stopping at the first failure.\<close>

definition rthen :: "'a read \<Rightarrow> ('a \<Rightarrow> 'b read) \<Rightarrow> 'b read" where
  "rthen f k r = (case f r of (None, r') \<Rightarrow> (None, r') | (Some x, r') \<Rightarrow> k x r')"

definition rret :: "'a \<Rightarrow> 'a read" where
  "rret x r = (Some x, r)"

definition rfail :: "'a read" where
  "rfail r = (None, r)"

section \<open>File fingerprints\<close>

record fingerprint =
  fp_size :: u64
  fp_mtime :: u64
  fp_crc :: "u32 list"
  fp_isvalid :: bool

definition crc_bytes :: "u32 list \<Rightarrow> bytes" where
  "crc_bytes crc = concat (map (le_bytes 4) crc)"

definition crc_of_bytes :: "bytes \<Rightarrow> u32 list" where
  "crc_of_bytes bs = map (\<lambda>i. le_word (take 4 (drop (4 * i) bs))) [0..<4]"

text \<open>\<^verbatim>\<open>operator==\<close>, which tolerates two seconds of difference between modification times.\<close>

definition fp_eq :: "fingerprint \<Rightarrow> fingerprint \<Rightarrow> bool" where
  "fp_eq lhs rhs \<longleftrightarrow>
    \<not> fp_size lhs \<noteq> fp_size rhs \<and>
    \<not> \<bar>sint (fp_mtime lhs) - sint (fp_mtime rhs)\<bar> > 2 \<and>
    \<not> (\<not> fp_isvalid lhs \<or> \<not> fp_isvalid rhs) \<and>
    fp_crc lhs = fp_crc rhs"

definition EqualExceptValidFlag :: "fingerprint \<Rightarrow> fingerprint \<Rightarrow> bool" where
  "EqualExceptValidFlag lhs rhs \<longleftrightarrow>
    fp_size lhs = fp_size rhs \<and> \<not> \<bar>sint (fp_mtime lhs) - sint (fp_mtime rhs)\<bar> > 2 \<and>
    fp_crc lhs = fp_crc rhs"

definition equalExceptMtime :: "fingerprint \<Rightarrow> fingerprint \<Rightarrow> bool" where
  "equalExceptMtime lhs rhs \<longleftrightarrow>
    fp_size lhs = fp_size rhs \<and> fp_isvalid lhs \<and> fp_isvalid rhs \<and> fp_crc lhs = fp_crc rhs"

definition fp_serialize :: "bytes \<Rightarrow> fingerprint \<Rightarrow> bytes" where
  "fp_serialize d fp =
    d @ le_bytes 8 (fp_size fp) @ le_bytes 8 (fp_mtime fp) @ crc_bytes (fp_crc fp) @
    [if fp_isvalid fp then 1 else 0]"

definition serializeExcludingMtime :: "bytes \<Rightarrow> fingerprint \<Rightarrow> bytes" where
  "serializeExcludingMtime d fp =
    d @ le_bytes 8 (fp_size fp) @ crc_bytes (fp_crc fp) @ [if fp_isvalid fp then 1 else 0]"

text \<open>The result pairs the fingerprint with the advanced pointer.\<close>

definition fp_unserialize :: "bytes \<Rightarrow> (fingerprint \<times> bytes) option" where
  "fp_unserialize p =
    (if length p < 8 + 8 + 4 * 4 + 1 then None
     else Some (\<lparr>fp_size = le_word (take 8 p), fp_mtime = le_word (take 8 (drop 8 p)),
                fp_crc = crc_of_bytes (take 16 (drop 16 p)), fp_isvalid = p ! 32 \<noteq> 0\<rparr>,
                drop 33 p))"

definition unserializefingerprint_field :: "fingerprint read" where
  "unserializefingerprint_field r =
    (case fp_unserialize (rest r) of
       None \<Rightarrow> (None, r)
     | Some (fp, p) \<Rightarrow> (Some fp, r\<lparr>rest := p, fieldnum := fieldnum r + 1\<rparr>))"

text \<open>The text form: Base64 of the CRC and the compressed modification time.\<close>

definition serializefingerprint :: "fingerprint \<Rightarrow> bytes" where
  "serializefingerprint fp = btoa (crc_bytes (fp_crc fp) @ serialize64 (fp_mtime fp))"

text \<open>\<open>None\<close> is the result 0, which leaves the fingerprint alone.\<close>

definition unserializefingerprint :: "fingerprint \<Rightarrow> bytes \<Rightarrow> fingerprint option" where
  "unserializefingerprint fp d =
    (let buf = atob d (16 + 8 + 1) in
     if length buf < 16 + 1 then None
     else case unserialize64 (drop 16 buf) of
       None \<Rightarrow> None
     | Some (t, _) \<Rightarrow> Some (fp\<lparr>fp_crc := crc_of_bytes (take 16 buf), fp_mtime := t, fp_isvalid := True\<rparr>))"

text \<open>The sign of \<^verbatim>\<open>memcmp\<close> on blocks of the same size.\<close>

fun memcmp_lt :: "bytes \<Rightarrow> bytes \<Rightarrow> bool" where
  "memcmp_lt (x # xs) (y # ys) \<longleftrightarrow> x < y \<or> x = y \<and> memcmp_lt xs ys"
| "memcmp_lt _ _ \<longleftrightarrow> False"

definition FileFingerprintCmp :: "fingerprint \<Rightarrow> fingerprint \<Rightarrow> bool" where
  "FileFingerprintCmp a b =
    (if sint (fp_size a) < sint (fp_size b) then True
     else if sint (fp_size a) > sint (fp_size b) then False
     else if sint (fp_mtime a) < sint (fp_mtime b) then True
     else if sint (fp_mtime a) > sint (fp_mtime b) then False
     else memcmp_lt (crc_bytes (fp_crc a)) (crc_bytes (fp_crc b)))"

definition FileFingerprintCmpNoMtime :: "fingerprint \<Rightarrow> fingerprint \<Rightarrow> bool" where
  "FileFingerprintCmpNoMtime a b =
    (if sint (fp_size a) < sint (fp_size b) then True
     else if sint (fp_size a) > sint (fp_size b) then False
     else memcmp_lt (crc_bytes (fp_crc a)) (crc_bytes (fp_crc b)))"

section \<open>The loop over a stream of records\<close>

text \<open>
  \<^verbatim>\<open>while (r.hasdataleft()) { ... }\<close>: read a record, fold it into the state, fail on a corrupt one.
  The fuel bounds the number of iterations; a read that succeeds consumes input, so as many
  steps as there are bytes are enough (\<open>while_data_unfold\<close> below).
\<close>

fun while_data :: "nat \<Rightarrow> 'a read \<Rightarrow> ('a \<Rightarrow> 's \<Rightarrow> 's) \<Rightarrow> reader \<Rightarrow> 's \<Rightarrow> 's option" where
  "while_data fuel get upd r s =
    (if \<not> hasdataleft r then Some s
     else case fuel of
       0 \<Rightarrow> None
     | Suc n \<Rightarrow> (case get r of (None, _) \<Rightarrow> None | (Some x, r') \<Rightarrow> while_data n get upd r' (upd x s)))"

declare while_data.simps [simp del]

definition read_all :: "'a read \<Rightarrow> ('a \<Rightarrow> 's \<Rightarrow> 's) \<Rightarrow> bytes \<Rightarrow> 's \<Rightarrow> 's option" where
  "read_all get upd blob s = while_data (length blob) get upd (new_reader blob) s"

lemma while_data_invariant:
  "while_data fuel get upd r s = Some s' \<Longrightarrow> P s \<Longrightarrow> (\<And>x s. P s \<Longrightarrow> P (upd x s)) \<Longrightarrow> P s'"
proof (induction fuel arbitrary: r s)
  case 0
  then show ?case by (simp add: while_data.simps split: if_splits)
next
  case (Suc fuel)
  then show ?case
    by (subst (asm) (2) while_data.simps) (auto split: if_splits prod.splits option.splits)
qed

lemma read_all_invariant:
  "read_all get upd blob s = Some s' \<Longrightarrow> P s \<Longrightarrow> (\<And>x s. P s \<Longrightarrow> P (upd x s)) \<Longrightarrow> P s'"
  unfolding read_all_def by (rule while_data_invariant)

section \<open>The field interface\<close>

text \<open>
  What a reader of a field promises its clients: it inverts the writer and leaves exactly what
  follows, it never moves past the end of the input, it makes progress, and it rejects every
  truncated field.  A body may be empty (a string whose length was read before it).
\<close>

locale body_codec =
  fixes put :: "bytes \<Rightarrow> 'a \<Rightarrow> bytes" and get :: "'a read" and ok :: "'a \<Rightarrow> bool" and cnt :: "'a \<Rightarrow> u32"
  assumes put_append: "put d x = d @ put [] x"
    and get_put: "ok x \<Longrightarrow>
      get \<lparr>rest = put [] x @ t, fieldnum = n\<rparr> = (Some x, \<lparr>rest = t, fieldnum = n + cnt x\<rparr>)"
    and get_suffix: "suffix (rest (snd (get r))) (rest r)"
    and get_truncated: "ok x \<Longrightarrow> strict_prefix p (put [] x) \<Longrightarrow> fst (get \<lparr>rest = p, fieldnum = n\<rparr>) = None"

text \<open>A field proper is never empty, so loops over fields end.\<close>

locale field_codec = body_codec +
  assumes get_progress: "fst (get r) \<noteq> None \<Longrightarrow> length (rest (snd (get r))) < length (rest r)"
begin

lemma put_nonempty: "ok x \<Longrightarrow> put [] x \<noteq> []"
  using get_progress [of "\<lparr>rest = put [] x, fieldnum = 0\<rparr>"] get_put [of x "[]" 0] by auto

lemma get_put': "ok x \<Longrightarrow> rest r = put [] x @ t \<Longrightarrow> get r = (Some x, \<lparr>rest = t, fieldnum = fieldnum r + cnt x\<rparr>)"
  by (cases r) (simp add: get_put)

lemma while_data_mono:
  "length (rest r) \<le> fuel \<Longrightarrow> while_data fuel get upd r s = while_data (length (rest r)) get upd r s"
proof (induction "length (rest r)" arbitrary: r s fuel rule: less_induct)
  case less
  show ?case
  proof (cases "hasdataleft r")
    case False
    then show ?thesis by (simp add: while_data.simps)
  next
    case True
    then obtain m k where m: "length (rest r) = Suc m" and k: "fuel = Suc k" "m \<le> k"
      using less.prems by (cases "length (rest r)"; cases fuel) (auto simp: hasdataleft_def)
    show ?thesis
    proof (cases "fst (get r)")
      case None
      then obtain r' where "get r = (None, r')" by (metis prod.collapse)
      then show ?thesis using m k
        by (simp add: while_data.simps [of "Suc _"])
    next
      case (Some x)
      then obtain r' where g: "get r = (Some x, r')" by (metis prod.collapse)
      have l: "length (rest r') < length (rest r)" using get_progress [of r] g by simp
      then have "while_data k get upd r' (upd x s) = while_data m get upd r' (upd x s)"
        using less.hyps [OF l, of k] less.hyps [OF l, of m] m k by simp
      then show ?thesis using m k g
        by (simp add: while_data.simps [of "Suc _"])
    qed
  qed
qed

lemma while_data_unfold:
  "while_data (length (rest r)) get upd r s =
    (if \<not> hasdataleft r then Some s
     else case get r of (None, _) \<Rightarrow> None
       | (Some x, r') \<Rightarrow> while_data (length (rest r')) get upd r' (upd x s))"
proof (cases "hasdataleft r")
  case False
  then show ?thesis by (simp add: while_data.simps)
next
  case True
  then obtain m where m: "length (rest r) = Suc m"
    by (cases "length (rest r)") (auto simp: hasdataleft_def)
  have "get r = (Some x, r') \<Longrightarrow> while_data m get upd r' s' = while_data (length (rest r')) get upd r' s'"
    for x r' s'
    using while_data_mono [of r' m upd s'] get_progress [of r] m by simp
  then show ?thesis
    using True m by (auto simp: while_data.simps [of "Suc _"] split: prod.split option.split)
qed

lemma while_data_puts:
  "\<forall>x \<in> set xs. ok x \<Longrightarrow>
   while_data (length (rest r)) get upd r s = Some (fold upd xs s)"
  if "rest r = concat (map (put []) xs)"
  using that
proof (induction xs arbitrary: r s)
  case Nil
  then show ?case by (simp add: while_data.simps hasdataleft_def)
next
  case (Cons x xs)
  then have "hasdataleft r" using put_nonempty [of x] by (simp add: hasdataleft_def)
  moreover have "get r = (Some x, \<lparr>rest = concat (map (put []) xs), fieldnum = fieldnum r + cnt x\<rparr>)"
    using Cons.prems by (intro get_put') simp_all
  ultimately show ?case using Cons by (subst while_data_unfold) simp
qed

lemma foldl_put: "foldl put d xs = d @ concat (map (put []) xs)"
proof (induction xs arbitrary: d)
  case (Cons x xs)
  then show ?case by (simp add: put_append [of "put d x"]) (metis append_assoc put_append)
qed simp

theorem read_all_puts:
  "\<forall>x \<in> set xs. ok x \<Longrightarrow> read_all get upd (foldl put [] xs) s = Some (fold upd xs s)"
  using while_data_puts [of "new_reader (concat (map (put []) xs))" xs upd s]
  by (simp add: read_all_def new_reader_def foldl_put)

text \<open>Input cut short is rejected unless it is cut between two records.\<close>

lemma while_data_prefix:
  assumes "prefix p (concat (map (put []) xs))" "\<forall>x \<in> set xs. ok x" "rest r = p"
    and "while_data (length p) get upd r s = Some s'"
  shows "\<exists>k \<le> length xs. p = concat (map (put []) (take k xs)) \<and> s' = fold upd (take k xs) s"
  using assms
proof (induction xs arbitrary: p r s)
  case Nil
  then show ?case by (simp add: while_data.simps hasdataleft_def)
next
  case (Cons x xs)
  show ?case
  proof (cases "p = []")
    case True
    then show ?thesis using Cons.prems by (intro exI [of _ 0]) (simp add: while_data.simps hasdataleft_def)
  next
    case False
    then have u: "(case get r of (None, _) \<Rightarrow> None
        | (Some x, r') \<Rightarrow> while_data (length (rest r')) get upd r' (upd x s)) = Some s'"
      using Cons.prems while_data_unfold [of r upd s] by (simp add: hasdataleft_def)
    have r: "r = \<lparr>rest = p, fieldnum = fieldnum r\<rparr>" using Cons.prems by (cases r) simp
    have "\<not> strict_prefix p (put [] x)"
      using u get_truncated [of x p "fieldnum r"] r Cons.prems(2) by (auto split: prod.splits option.splits)
    then obtain q where q: "p = put [] x @ q" "prefix q (concat (map (put []) xs))"
      using Cons.prems(1) by (auto simp: prefix_append strict_prefix_def)
    have g: "get r = (Some x, \<lparr>rest = q, fieldnum = fieldnum r + cnt x\<rparr>)"
      using get_put' [of x r q] Cons.prems q by simp
    then have "\<exists>k \<le> length xs. q = concat (map (put []) (take k xs)) \<and> s' = fold upd (take k xs) (upd x s)"
      using u Cons.prems q by (intro Cons.IH) simp_all
    then obtain k where "k \<le> length xs" "q = concat (map (put []) (take k xs))" "s' = fold upd (take k xs) (upd x s)"
      by blast
    then show ?thesis using q by (intro exI [of _ "Suc k"]) simp
  qed
qed

lemma read_all_prefix:
  assumes "prefix p (foldl put [] xs)" "\<forall>x \<in> set xs. ok x" "read_all get upd p s = Some s'"
  shows "\<exists>k \<le> length xs. p = foldl put [] (take k xs) \<and> s' = fold upd (take k xs) s"
  using while_data_prefix [of p xs "new_reader p" upd s s'] assms
  by (simp add: read_all_def foldl_put new_reader_def)

end

text \<open>Fixed-size fields meet the interface when conversion inverts the object representation.\<close>

lemma advance_simps [simp]:
  "rest (advance n r) = drop n (rest r)" "fieldnum (advance n r) = fieldnum r + 1"
  by (simp_all add: advance_def)

lemma strict_prefix_appendE:
  assumes "strict_prefix p (u @ v)"
  obtains "strict_prefix p u" | q where "p = u @ q" "strict_prefix q v"
proof (cases "v = [] \<or> length p < length u")
  case True
  then have "strict_prefix p u"
    using assms by (auto simp: strict_prefix_def prefix_def append_eq_append_conv2)
  then show ?thesis by (rule that(1))
next
  case False
  then obtain q where "p = u @ q" "strict_prefix q v"
    using assms by (auto simp: strict_prefix_def prefix_def append_eq_append_conv2)
  then show ?thesis by (rule that(2))
qed

lemma fixed_codecI:
  assumes put: "\<And>d x. put d x = d @ w x" and get: "get = read_fixed n conv"
    and len: "\<And>x. ok x \<Longrightarrow> length (w x) = n" and conv: "\<And>x. ok x \<Longrightarrow> conv (w x) = x" and "0 < n"
  shows "field_codec put get ok (\<lambda>_. 1)"
proof
  fix d x show "put d x = d @ put [] x" by (simp add: put)
next
  fix x t k assume "ok x"
  then show "get \<lparr>rest = put [] x @ t, fieldnum = k\<rparr> = (Some x, \<lparr>rest = t, fieldnum = k + 1\<rparr>)"
    using len [of x] conv [of x] by (simp add: put get read_fixed_def advance_def)
next
  fix r show "suffix (rest (snd (get r))) (rest r)"
    by (simp add: get read_fixed_def suffix_drop)
next
  fix r assume "fst (get r) \<noteq> None"
  then show "length (rest (snd (get r))) < length (rest r)"
    using \<open>0 < n\<close> by (simp add: get read_fixed_def split: if_splits)
next
  fix x p k assume "ok x" "strict_prefix p (put [] x)"
  then show "fst (get \<lparr>rest = p, fieldnum = k\<rparr>) = None"
    using len [of x] prefix_length_less [of p "w x"] by (simp add: put get read_fixed_def)
qed

lemma sized_codecI:
  assumes put: "\<And>d x. put d x = d @ w x" and get: "get = read_sized k 0 []" and "0 < k"
    and w: "\<And>x. ok x \<Longrightarrow> \<exists>l. w x = l @ x \<and> length l = k \<and> unat (le_word l :: u32) = length x"
  shows "field_codec put get ok (\<lambda>_. 1)"
proof
  fix d x show "put d x = d @ put [] x" by (simp add: put)
next
  fix x t n assume "ok x"
  then obtain l where "w x = l @ x" "length l = k" "unat (le_word l :: u32) = length x" using w by blast
  then show "get \<lparr>rest = put [] x @ t, fieldnum = n\<rparr> = (Some x, \<lparr>rest = t, fieldnum = n + 1\<rparr>)"
    by (simp add: put get read_sized_def Let_def advance_def)
next
  fix r show "suffix (rest (snd (get r))) (rest r)"
    by (auto simp: get read_sized_def Let_def suffix_drop)
next
  fix r assume "fst (get r) \<noteq> None"
  then show "length (rest (snd (get r))) < length (rest r)"
    using \<open>0 < k\<close> by (simp add: get read_sized_def Let_def split: if_splits)
next
  fix x p n assume ok: "ok x" and p: "strict_prefix p (put [] x)"
  from ok obtain l where l: "w x = l @ x" "length l = k" "unat (le_word l :: u32) = length x" using w by blast
  from p l have "strict_prefix p (l @ x)" by (simp add: put)
  then show "fst (get \<lparr>rest = p, fieldnum = n\<rparr>) = None"
  proof (cases rule: strict_prefix_appendE)
    case 1
    then show ?thesis using l prefix_length_less [of p l] by (simp add: get read_sized_def)
  next
    case (2 q)
    then show ?thesis using l prefix_length_less [of q x] by (simp add: get read_sized_def Let_def)
  qed
qed

lemma rthen_simps [simp]:
  "f r = (Some x, r') \<Longrightarrow> rthen f k r = k x r'"
  "f r = (None, r') \<Longrightarrow> rthen f k r = (None, r')"
  "rret x r = (Some x, r)" "rfail r = (None, r)"
  by (simp_all add: rthen_def rret_def rfail_def)

text \<open>Two fields in a row form one field.\<close>

locale pair_codec = a: field_codec put1 get1 ok1 c1 + b: field_codec put2 get2 ok2 c2
  for put1 get1 ok1 c1 put2 get2 ok2 c2
begin

lemma pair_truncated:
  assumes "ok1 x" "ok2 y" "strict_prefix p (put1 [] x @ put2 [] y)"
  shows "fst (rthen get1 (\<lambda>x. rthen get2 (\<lambda>y. rret (x, y))) \<lparr>rest = p, fieldnum = n\<rparr>) = None"
  using assms(3)
proof (cases rule: strict_prefix_appendE)
  case 1
  then have "fst (get1 \<lparr>rest = p, fieldnum = n\<rparr>) = None" by (rule a.get_truncated [OF assms(1)])
  then show ?thesis by (metis prod.collapse rthen_simps(2) fst_conv)
next
  case (2 q)
  then have "fst (get2 \<lparr>rest = q, fieldnum = n + c1 x\<rparr>) = None"
    using b.get_truncated [OF assms(2)] by simp
  then have "fst (rthen get2 (\<lambda>y. rret (x, y)) \<lparr>rest = q, fieldnum = n + c1 x\<rparr>) = None"
    by (metis prod.collapse rthen_simps(2) fst_conv)
  then show ?thesis using a.get_put [OF assms(1)] 2(1) by simp
qed

end

sublocale pair_codec \<subseteq>
  field_codec "\<lambda>d (x, y). put2 (put1 d x) y" "rthen get1 (\<lambda>x. rthen get2 (\<lambda>y. rret (x, y)))"
    "\<lambda>(x, y). ok1 x \<and> ok2 y" "\<lambda>(x, y). c1 x + c2 y"
proof
  fix d and x :: "'a \<times> 'b"
  show "(case x of (x, y) \<Rightarrow> put2 (put1 d x) y) = d @ (case x of (x, y) \<Rightarrow> put2 (put1 [] x) y)"
    by (cases x) (metis a.put_append append_assoc b.put_append case_prod_conv)
next
  fix x :: "'a \<times> 'b" and t n
  assume ok: "case x of (x, y) \<Rightarrow> ok1 x \<and> ok2 y"
  obtain u v where x: "x = (u, v)" by fastforce
  have "put2 (put1 [] u) v @ t = put1 [] u @ put2 [] v @ t" by (metis b.put_append append_assoc)
  with ok x show "rthen get1 (\<lambda>x. rthen get2 (\<lambda>y. rret (x, y)))
      \<lparr>rest = (case x of (x, y) \<Rightarrow> put2 (put1 [] x) y) @ t, fieldnum = n\<rparr> =
      (Some x, \<lparr>rest = t, fieldnum = n + (case x of (x, y) \<Rightarrow> c1 x + c2 y)\<rparr>)"
    by (simp add: a.get_put b.get_put add.assoc)
next
  fix r
  show "suffix (rest (snd (rthen get1 (\<lambda>x. rthen get2 (\<lambda>y. rret (x, y))) r))) (rest r)"
    using a.get_suffix [of r] b.get_suffix
    by (auto simp: rthen_def rret_def split: prod.split option.split)
      (metis snd_conv suffix_order.trans)+
next
  fix r
  assume "fst (rthen get1 (\<lambda>x. rthen get2 (\<lambda>y. rret (x, y))) r) \<noteq> None"
  then obtain u v r1 r2 where "get1 r = (Some u, r1)" "get2 r1 = (Some v, r2)"
    by (auto simp: rthen_def rret_def split: prod.splits option.splits)
  then show "length (rest (snd (rthen get1 (\<lambda>x. rthen get2 (\<lambda>y. rret (x, y))) r))) < length (rest r)"
    using a.get_progress [of r] b.get_progress [of r1] by simp
next
  fix x :: "'a \<times> 'b" and p n
  assume "case x of (x, y) \<Rightarrow> ok1 x \<and> ok2 y" "strict_prefix p (case x of (x, y) \<Rightarrow> put2 (put1 [] x) y)"
  then show "fst (rthen get1 (\<lambda>x. rthen get2 (\<lambda>y. rret (x, y))) \<lparr>rest = p, fieldnum = n\<rparr>) = None"
    by (cases x) (metis b.put_append case_prod_conv pair_truncated)
qed

text \<open>A header that determines how its body is read: lengths before strings, tags before variants.\<close>

locale dep_codec = a: field_codec put1 get1 ok1 c1 for put1 get1 ok1 and c1 :: "'a \<Rightarrow> u32" +
  fixes hdr :: "'b \<Rightarrow> 'a" and put2 :: "bytes \<Rightarrow> 'b \<Rightarrow> bytes" and get2 :: "'a \<Rightarrow> 'b read"
    and ok2 :: "'b \<Rightarrow> bool" and c2 :: "'b \<Rightarrow> u32"
  assumes body: "body_codec put2 (get2 h) (\<lambda>y. ok2 y \<and> hdr y = h) c2"
begin

lemma body_put_append: "put2 d y = d @ put2 [] y"
  by (rule body_codec.put_append [OF body])

lemma body_get_put:
  "ok2 y \<Longrightarrow> get2 (hdr y) \<lparr>rest = put2 [] y @ t, fieldnum = n\<rparr> = (Some y, \<lparr>rest = t, fieldnum = n + c2 y\<rparr>)"
  using body_codec.get_put [OF body] by blast

lemma body_suffix: "suffix (rest (snd (get2 h r))) (rest r)"
  by (rule body_codec.get_suffix [OF body])

lemma dep_truncated:
  assumes "ok1 (hdr y)" "ok2 y" "strict_prefix p (put1 [] (hdr y) @ put2 [] y)"
  shows "fst (rthen get1 get2 \<lparr>rest = p, fieldnum = n\<rparr>) = None"
  using assms(3)
proof (cases rule: strict_prefix_appendE)
  case 1
  then have "fst (get1 \<lparr>rest = p, fieldnum = n\<rparr>) = None" by (rule a.get_truncated [OF assms(1)])
  then show ?thesis by (metis prod.collapse rthen_simps(2) fst_conv)
next
  case (2 q)
  then have "fst (get2 (hdr y) \<lparr>rest = q, fieldnum = n + c1 (hdr y)\<rparr>) = None"
    using body_codec.get_truncated [OF body] assms(2) by blast
  then show ?thesis using a.get_put [OF assms(1)] 2(1) by simp
qed

end

sublocale dep_codec \<subseteq>
  field_codec "\<lambda>d y. put2 (put1 d (hdr y)) y" "rthen get1 get2" "\<lambda>y. ok1 (hdr y) \<and> ok2 y" "\<lambda>y. c1 (hdr y) + c2 y"
proof
  fix d y
  show "put2 (put1 d (hdr y)) y = d @ put2 (put1 [] (hdr y)) y"
    by (metis a.put_append append_assoc body_put_append)
next
  fix y t n
  assume ok: "ok1 (hdr y) \<and> ok2 y"
  have "put2 (put1 [] (hdr y)) y @ t = put1 [] (hdr y) @ put2 [] y @ t" by (metis body_put_append append_assoc)
  with ok show "rthen get1 get2 \<lparr>rest = put2 (put1 [] (hdr y)) y @ t, fieldnum = n\<rparr> =
      (Some y, \<lparr>rest = t, fieldnum = n + (c1 (hdr y) + c2 y)\<rparr>)"
    by (simp add: a.get_put body_get_put add.assoc)
next
  fix r
  show "suffix (rest (snd (rthen get1 get2 r))) (rest r)"
    using a.get_suffix [of r] body_suffix
    by (auto simp: rthen_def split: prod.split option.split) (metis snd_conv suffix_order.trans)+
next
  fix r
  assume "fst (rthen get1 get2 r) \<noteq> None"
  then obtain h r1 where "get1 r = (Some h, r1)" "fst (get2 h r1) \<noteq> None"
    by (auto simp: rthen_def split: prod.splits option.splits)
  then show "length (rest (snd (rthen get1 get2 r))) < length (rest r)"
    using a.get_progress [of r] suffix_length_le [OF body_suffix [of h r1]] by simp
next
  fix y p n
  assume "ok1 (hdr y) \<and> ok2 y" "strict_prefix p (put2 (put1 [] (hdr y)) y)"
  then show "fst (rthen get1 get2 \<lparr>rest = p, fieldnum = n\<rparr>) = None"
    by (metis body_put_append dep_truncated)
qed

section \<open>The fields of the cache format\<close>

lemma unat_of_nat_u16: "n < 65536 \<Longrightarrow> unat (of_nat n :: u16) = n"
  by (simp add: unat_of_nat)

lemma unat_of_nat_u32: "n < 4294967296 \<Longrightarrow> unat (of_nat n :: u32) = n"
  by (simp add: unat_of_nat)

lemma unat_ucast_u16: "unat (ucast (w :: u16) :: u32) = unat w"
  using unsigned_less [of w, where ?'a = nat]
  by (simp add: unsigned_ucast_eq take_bit_nat_eq_self)

interpretation u8f: field_codec serializeu8 unserializeu8 "\<lambda>_. True" "\<lambda>_. 1"
  by (rule fixed_codecI [where w = "le_bytes 1" and n = 1 and conv = le_word])
    (simp_all add: serializeu8_def unserializeu8_def le_word_le_bytes_full)

interpretation i8f: field_codec serializei8 unserializei8 "\<lambda>_. True" "\<lambda>_. 1"
  by (rule fixed_codecI [where w = "le_bytes 1" and n = 1 and conv = le_word])
    (simp_all add: serializei8_def unserializei8_def le_word_le_bytes_full)

interpretation bytef: field_codec serializebyte unserializebyte "\<lambda>_. True" "\<lambda>_. 1"
  by (rule fixed_codecI [where w = "le_bytes 1" and n = 1 and conv = le_word])
    (simp_all add: serializebyte_def unserializebyte_def le_word_le_bytes_full)

interpretation u16f: field_codec serializeu16 unserializeu16 "\<lambda>_. True" "\<lambda>_. 1"
  by (rule fixed_codecI [where w = "le_bytes 2" and n = 2 and conv = le_word])
    (simp_all add: serializeu16_def unserializeu16_def le_word_le_bytes_full)

interpretation u32f: field_codec serializeu32 unserializeu32 "\<lambda>_. True" "\<lambda>_. 1"
  by (rule fixed_codecI [where w = "le_bytes 4" and n = 4 and conv = le_word])
    (simp_all add: serializeu32_def unserializeu32_def le_word_le_bytes_full)

interpretation i32f: field_codec serializei32 unserializei32 "\<lambda>_. True" "\<lambda>_. 1"
  by (rule fixed_codecI [where w = "le_bytes 4" and n = 4 and conv = le_word])
    (simp_all add: serializei32_def unserializei32_def le_word_le_bytes_full)

interpretation u64f: field_codec serializeu64 unserializeu64 "\<lambda>_. True" "\<lambda>_. 1"
  by (rule fixed_codecI [where w = "le_bytes 8" and n = 8 and conv = le_word])
    (simp_all add: serializeu64_def unserializeu64_def le_word_le_bytes_full)

interpretation i64f: field_codec serializei64 unserializei64 "\<lambda>_. True" "\<lambda>_. 1"
  by (rule fixed_codecI [where w = "le_bytes 8" and n = 8 and conv = le_word])
    (simp_all add: serializei64_def unserializei64_def le_word_le_bytes_full)

interpretation doublef: field_codec serializedouble unserializedouble "\<lambda>_. True" "\<lambda>_. 1"
  by (rule fixed_codecI [where w = "le_bytes 8" and n = 8 and conv = le_word])
    (simp_all add: serializedouble_def unserializedouble_def le_word_le_bytes_full)

interpretation handlef: field_codec serializehandle unserializehandle "\<lambda>_. True" "\<lambda>_. 1"
  by (rule fixed_codecI [where w = "le_bytes 8" and n = 8 and conv = le_word])
    (simp_all add: serializehandle_def unserializehandle_def le_word_le_bytes_full)

text \<open>A node handle keeps its six low bytes only.\<close>

definition is_nodehandle :: "handle \<Rightarrow> bool" where
  "is_nodehandle h \<longleftrightarrow> take_bit 48 h = h"

interpretation nodehandlef: field_codec serializenodehandle unserializenodehandle is_nodehandle "\<lambda>_. 1"
  by (rule fixed_codecI [where w = "le_bytes 6" and n = 6 and conv = le_word])
    (simp_all add: serializenodehandle_def unserializenodehandle_def le_word_le_bytes is_nodehandle_def)

interpretation boolf: field_codec serializebool unserializebool "\<lambda>_. True" "\<lambda>_. 1"
  by (rule fixed_codecI [where w = "\<lambda>b. [if b then 1 else 0]" and n = 1 and conv = "\<lambda>bs. bs ! 0 \<noteq> 0"])
    (simp_all add: serializebool_def unserializebool_def)

text \<open>Raw bytes of a length known beforehand.\<close>

interpretation binaryf: body_codec serializebinary "unserializebinary n" "\<lambda>k. length k = n" "\<lambda>_. 1" for n
proof
  fix x p :: bytes and m
  assume "length x = n" "strict_prefix p (serializebinary [] x)"
  then show "fst (unserializebinary n \<lparr>rest = p, fieldnum = m\<rparr>) = None"
    using prefix_length_less [of p x] by (simp add: serializebinary_def unserializebinary_def read_fixed_def)
qed (auto simp: serializebinary_def unserializebinary_def read_fixed_def advance_def suffix_drop)

interpretation key16f: field_codec serializebinary "unserializebinary 16" "\<lambda>k. length k = 16" "\<lambda>_. 1"
  by (rule fixed_codecI [where w = "\<lambda>k. k" and n = 16 and conv = "\<lambda>bs. bs"])
    (simp_all add: serializebinary_def unserializebinary_def)

interpretation stringf: field_codec serializestring "unserializestring []" "\<lambda>s. length s < 65536" "\<lambda>_. 1"
proof (rule sized_codecI [where w = "\<lambda>s. le_bytes 2 (of_nat (length s) :: u16) @ take (unat (of_nat (length s) :: u16)) s"])
  fix s :: bytes assume "length s < 65536"
  then show "\<exists>l. le_bytes 2 (of_nat (length s) :: u16) @ take (unat (of_nat (length s) :: u16)) s = l @ s \<and>
      length l = 2 \<and> unat (le_word l :: u32) = length s"
    by (intro exI [of _ "le_bytes 2 (of_nat (length s) :: u16)"])
      (simp add: unat_of_nat_u16 le_word_le_bytes_ucast unat_ucast_u16)
qed (simp_all add: Let_def serializestring_def unserializestring_def)

interpretation string32f:
  field_codec serializestring_u32 "unserializestring_u32 []" "\<lambda>s. length s < 4294967296" "\<lambda>_. 1"
proof (rule sized_codecI [where w = "\<lambda>s. le_bytes 4 (of_nat (length s) :: u32) @ take (unat (of_nat (length s) :: u32)) s"])
  fix s :: bytes assume "length s < 4294967296"
  then show "\<exists>l. le_bytes 4 (of_nat (length s) :: u32) @ take (unat (of_nat (length s) :: u32)) s = l @ s \<and>
      length l = 4 \<and> unat (le_word l :: u32) = length s"
    by (intro exI [of _ "le_bytes 4 (of_nat (length s) :: u32)"])
      (simp add: unat_of_nat_u32 le_word_le_bytes_full)
qed (simp_all add: Let_def serializestring_u32_def unserializestring_u32_def)

subsection \<open>Compressed integers\<close>

lemma serialize64_loop_step:
  "v \<noteq> 0 \<Longrightarrow> serialize64_loop v = ucast v # serialize64_loop (drop_bit 8 v)" "serialize64_loop 0 = []"
  by (simp_all add: serialize64_loop.simps [of v] serialize64_loop.simps [of 0])

lemma length_serialize64_loop: "unat v < 256 ^ k \<Longrightarrow> length (serialize64_loop v) \<le> k"
proof (induction k arbitrary: v)
  case 0
  then show ?case by (simp add: unat_eq_0 serialize64_loop_step)
next
  case (Suc k)
  show ?case
  proof (cases "v = 0")
    case False
    have "unat (drop_bit 8 v) < 256 ^ k"
      using Suc.prems by (simp add: drop_bit_eq_div unat_div less_mult_imp_div_less mult.commute)
    then show ?thesis using False Suc.IH by (simp add: serialize64_loop_step)
  qed (simp add: serialize64_loop_step)
qed

lemma length_serialize64_loop_8: "length (serialize64_loop v) \<le> 8"
  using length_serialize64_loop [of v 8] unsigned_less [of v, where ?'a = nat] by simp

lemma le_word_serialize64_loop: "le_word (serialize64_loop v) = v"
proof (induction v rule: serialize64_loop.induct)
  case (1 v)
  show ?case
  proof (cases "v = 0")
    case False
    then have "le_word (serialize64_loop v) = (ucast (ucast v :: byte) OR push_bit 8 (drop_bit 8 v) :: u64)"
      using 1 by (simp add: serialize64_loop_step)
    also have "\<dots> = v"
    proof (rule bit_word_eqI)
      fix n show "bit (ucast (ucast v :: byte) OR push_bit 8 (drop_bit 8 v) :: u64) n = bit v n"
        by (cases "n < 8") (auto simp: bit_simps dest: bit_imp_le_length)
    qed
    finally show ?thesis .
  qed (simp add: serialize64_loop_step)
qed

lemma le_word_Cons_add: "le_word (b # bs) = ucast b + push_bit 8 (le_word bs :: u64)"
  by (simp add: disjunctive_add bit_simps)

lemma le_word_append:
  "le_word (xs @ ys) = (le_word xs + push_bit (8 * length xs) (le_word ys) :: u64)"
proof (induction xs)
  case (Cons x xs)
  show ?case
    using Cons.IH by (simp only: append_Cons le_word_Cons_add) (simp add: push_bit_add)
qed simp

lemma unserialize64_loop_le_word:
  "unserialize64_loop (h # bs @ t) (length bs) acc = le_word bs + push_bit (8 * length bs) acc"
proof (induction bs arbitrary: acc t rule: rev_induct)
  case (snoc b bs)
  have "unserialize64_loop (h # (bs @ [b]) @ t) (length (bs @ [b])) acc =
      unserialize64_loop (h # bs @ (b # t)) (length bs) (push_bit 8 acc + ucast b)"
    by (simp add: nth_append)
  also have "\<dots> = le_word bs + push_bit (8 * length bs) (push_bit 8 acc + ucast b)"
    by (rule snoc.IH)
  finally show ?case
    by (simp add: le_word_append push_bit_add add.commute)
qed simp

lemma unserialize64_serialize64:
  "unserialize64 (serialize64 v @ t) = Some (v, length (serialize64 v))"
proof -
  let ?n = "length (serialize64_loop v)"
  have n: "unat (word_of_nat ?n :: byte) = ?n"
    using length_serialize64_loop_8 [of v] by (simp add: unat_of_nat)
  then show ?thesis
    using length_serialize64_loop_8 [of v]
      unserialize64_loop_le_word [of "word_of_nat ?n" "serialize64_loop v" t 0]
    by (simp add: unserialize64_def serialize64_def Let_def le_word_serialize64_loop)
qed

interpretation compressedf: field_codec serializecompressedu64 unserializecompressedu64 "\<lambda>_. True" "\<lambda>_. 0"
proof
  fix d x show "serializecompressedu64 d x = d @ serializecompressedu64 [] x"
    by (simp add: serializecompressedu64_def)
next
  fix x t n
  show "unserializecompressedu64 \<lparr>rest = serializecompressedu64 [] x @ t, fieldnum = n\<rparr> =
      (Some x, \<lparr>rest = t, fieldnum = n + 0\<rparr>)"
    by (simp add: unserializecompressedu64_def serializecompressedu64_def unserialize64_serialize64)
next
  fix r show "suffix (rest (snd (unserializecompressedu64 r))) (rest r)"
    by (auto simp: unserializecompressedu64_def suffix_drop split: option.split)
next
  fix r assume "fst (unserializecompressedu64 r) \<noteq> None"
  then show "length (rest (snd (unserializecompressedu64 r))) < length (rest r)"
    by (auto simp: unserializecompressedu64_def unserialize64_def Let_def split: if_splits)
next
  fix x p n assume "strict_prefix p (serializecompressedu64 [] x)"
  then have p: "strict_prefix p (serialize64 x)" by (simp add: serializecompressedu64_def)
  then have l: "length p \<le> length (serialize64_loop x)"
    using prefix_length_less [OF p] by (simp add: serialize64_def Let_def)
  have "p = [] \<or> hd p = word_of_nat (length (serialize64_loop x))"
    using p by (auto simp: serialize64_def Let_def strict_prefix_def prefix_Cons)
  with l have "length p \<le> unat (cstr_hd p)"
    using length_serialize64_loop_8 [of x] by (cases p) (auto simp: unat_of_nat)
  then show "fst (unserializecompressedu64 \<lparr>rest = p, fieldnum = n\<rparr>) = None"
    by (simp add: unserializecompressedu64_def unserialize64_def Let_def)
qed

subsection \<open>Fingerprints\<close>

lemma length_crc_bytes: "length (crc_bytes crc) = 4 * length crc"
  by (induction crc) (simp_all add: crc_bytes_def)

lemma crc_roundtrip: "length crc = 4 \<Longrightarrow> crc_of_bytes (crc_bytes crc) = crc"
proof -
  assume "length crc = 4"
  then obtain a b c d where "crc = [a, b, c, d]"
    by (auto simp: length_Suc_conv numeral_eq_Suc)
  moreover have "[0..<4] = [0, 1, 2, 3 :: nat]" by (simp add: upt_rec)
  ultimately show ?thesis
    by (simp add: crc_of_bytes_def crc_bytes_def le_word_le_bytes_full)
qed

lemma fp_unserialize_fp_serialize:
  "length (fp_crc fp) = 4 \<Longrightarrow> fp_unserialize (fp_serialize [] fp @ t) = Some (fp, t)"
  by (simp add: fp_unserialize_def fp_serialize_def length_crc_bytes nth_append
      le_word_le_bytes_full crc_roundtrip)

interpretation fingerprintf:
  field_codec fp_serialize unserializefingerprint_field "\<lambda>fp. length (fp_crc fp) = 4" "\<lambda>_. 1"
proof
  fix d x show "fp_serialize d x = d @ fp_serialize [] x"
    by (simp add: fp_serialize_def)
next
  fix x :: fingerprint and t n assume "length (fp_crc x) = 4"
  then show "unserializefingerprint_field \<lparr>rest = fp_serialize [] x @ t, fieldnum = n\<rparr> =
      (Some x, \<lparr>rest = t, fieldnum = n + 1\<rparr>)"
    by (simp add: unserializefingerprint_field_def fp_unserialize_fp_serialize)
next
  fix r show "suffix (rest (snd (unserializefingerprint_field r))) (rest r)"
    by (auto simp: unserializefingerprint_field_def fp_unserialize_def suffix_drop split: option.split)
next
  fix r assume "fst (unserializefingerprint_field r) \<noteq> None"
  then show "length (rest (snd (unserializefingerprint_field r))) < length (rest r)"
    by (auto simp: unserializefingerprint_field_def fp_unserialize_def split: if_splits)
next
  fix x p n assume "length (fp_crc x) = 4" "strict_prefix p (fp_serialize [] x)"
  then show "fst (unserializefingerprint_field \<lparr>rest = p, fieldnum = n\<rparr>) = None"
    using prefix_length_less [of p "fp_serialize [] x"]
    by (simp add: unserializefingerprint_field_def fp_unserialize_def fp_serialize_def length_crc_bytes)
qed

lemma memcmp_lt_irrefl: "\<not> memcmp_lt xs xs"
  by (induction xs) auto

lemma memcmp_lt_trans: "memcmp_lt xs ys \<Longrightarrow> memcmp_lt ys zs \<Longrightarrow> memcmp_lt xs zs"
proof (induction xs ys arbitrary: zs rule: memcmp_lt.induct)
  case (1 x xs y ys)
  then show ?case by (cases zs) auto
qed auto

lemma memcmp_lt_total: "length xs = length ys \<Longrightarrow> memcmp_lt xs ys \<or> memcmp_lt ys xs \<or> xs = ys"
  by (induction xs ys rule: list_induct2) auto

lemma crc_bytes_inject: "length x = 4 \<Longrightarrow> length y = 4 \<Longrightarrow> crc_bytes x = crc_bytes y \<Longrightarrow> x = y"
  by (metis crc_roundtrip)

lemma three_way: "(if x < y then True else if x > y then False else P) \<longleftrightarrow> x < y \<or> x = y \<and> P"
  for x y :: int
  by auto

lemma FileFingerprintCmp_iff:
  "FileFingerprintCmp a b \<longleftrightarrow>
    sint (fp_size a) < sint (fp_size b) \<or> sint (fp_size a) = sint (fp_size b) \<and>
    (sint (fp_mtime a) < sint (fp_mtime b) \<or> sint (fp_mtime a) = sint (fp_mtime b) \<and>
     memcmp_lt (crc_bytes (fp_crc a)) (crc_bytes (fp_crc b)))"
  unfolding FileFingerprintCmp_def three_way ..

lemma lex3_trans:
  fixes x y z x' y' z' :: int
  assumes "x < y \<or> x = y \<and> (x' < y' \<or> x' = y' \<and> memcmp_lt c d)"
    and "y < z \<or> y = z \<and> (y' < z' \<or> y' = z' \<and> memcmp_lt d e)"
  shows "x < z \<or> x = z \<and> (x' < z' \<or> x' = z' \<and> memcmp_lt c e)"
  using assms by (auto intro: memcmp_lt_trans)

lemma lex3_tie:
  fixes x y x' y' :: int
  assumes "length c = length d"
  shows "\<not> (x < y \<or> x = y \<and> (x' < y' \<or> x' = y' \<and> memcmp_lt c d)) \<and>
    \<not> (y < x \<or> y = x \<and> (y' < x' \<or> y' = x' \<and> memcmp_lt d c)) \<longleftrightarrow> x = y \<and> x' = y' \<and> c = d"
  using memcmp_lt_total [OF assms] memcmp_lt_irrefl by auto

section \<open>Properties\<close>

text \<open>
  C21: a compressed integer is written in at most nine bytes (the buffer of
  \<^verbatim>\<open>serializecompressedu64\<close>) and reading it gives the integer back and stops right behind it; a
  truncated one is rejected.
\<close>

theorem compressed_u64_roundtrip:
  "length (serialize64 v) \<le> 9 \<and>
   unserializecompressedu64 \<lparr>rest = serializecompressedu64 [] v @ t, fieldnum = n\<rparr> =
     (Some v, \<lparr>rest = t, fieldnum = n\<rparr>) \<and>
   (strict_prefix p (serializecompressedu64 [] v) \<longrightarrow>
     fst (unserializecompressedu64 \<lparr>rest = p, fieldnum = n\<rparr>) = None)"
  using compressedf.get_put [of v t n] compressedf.get_truncated [of p v n]
    length_serialize64_loop_8 [of v]
  by (simp add: serialize64_def Let_def)

theorem compressed_u64_roundtrip_witness:
  "fst (unserializecompressedu64 \<lparr>rest = [2], fieldnum = 0\<rparr>) = None"
proof -
  have s: "serializecompressedu64 [] 256 = [2, 0, 1]"
    by (simp add: serializecompressedu64_def serialize64_def serialize64_loop_step drop_bit_eq_div)
  then have "strict_prefix [2] (serializecompressedu64 [] 256)" by simp
  then show ?thesis using compressed_u64_roundtrip [of 256 "[]" 0 "[2]"] by blast
qed

text \<open>
  What reading back a string field gives, for strings of every length: the writer keeps the
  length modulo 65536 and that many characters, and the reader leaves its argument alone for an
  empty field. Strings shorter than 65536 bytes read into an empty variable survive unchanged.
\<close>

theorem string_field_roundtrip:
  "unserializestring s \<lparr>rest = serializestring [] f @ t, fieldnum = n\<rparr> =
     (Some (if length f mod 65536 = 0 then s else take (length f mod 65536) f),
      \<lparr>rest = t, fieldnum = n + 1\<rparr>)"
proof -
  have "unat (of_nat (length f) :: u16) = length f mod 65536" by (simp add: unat_of_nat)
  moreover have "min (length f) (length f mod 65536) = length f mod 65536" by simp
  ultimately show ?thesis
    by (simp add: unserializestring_def serializestring_def read_sized_def Let_def advance_def
        le_word_le_bytes_ucast unat_ucast_u16)
qed

text \<open>
  The text form of a fingerprint restores its CRC and modification time into any
  fingerprint and marks it valid.
\<close>

theorem fingerprint_text_roundtrip:
  assumes "length (fp_crc fp) = 4"
  shows "unserializefingerprint fp' (serializefingerprint fp) =
    Some (fp'\<lparr>fp_crc := fp_crc fp, fp_mtime := fp_mtime fp, fp_isvalid := True\<rparr>)"
proof -
  let ?x = "crc_bytes (fp_crc fp) @ serialize64 (fp_mtime fp)"
  have c: "length (crc_bytes (fp_crc fp)) = 16" using assms by (simp add: length_crc_bytes)
  have "length (serialize64 (fp_mtime fp)) \<le> 9"
    using length_serialize64_loop_8 by (simp add: serialize64_def Let_def)
  with c have "atob (btoa ?x) 25 = ?x" by (simp add: atob_btoa_end)
  moreover have "serialize64 (fp_mtime fp) \<noteq> []" by (simp add: serialize64_def Let_def)
  ultimately show ?thesis
    using c assms unserialize64_serialize64 [of "fp_mtime fp" "[]"]
    by (simp add: unserializefingerprint_def serializefingerprint_def crc_roundtrip Let_def)
qed

theorem fingerprint_text_roundtrip_witness:
  "unserializefingerprint \<lparr>fp_size = 7, fp_mtime = 0, fp_crc = [0, 0, 0, 0], fp_isvalid = False\<rparr>
     (serializefingerprint \<lparr>fp_size = 5, fp_mtime = 1700000000, fp_crc = [1, 2, 3, 4], fp_isvalid = True\<rparr>) =
   Some \<lparr>fp_size = 7, fp_mtime = 1700000000, fp_crc = [1, 2, 3, 4], fp_isvalid = True\<rparr>"
  using fingerprint_text_roundtrip [of "\<lparr>fp_size = 5, fp_mtime = 1700000000, fp_crc = [1, 2, 3, 4], fp_isvalid = True\<rparr>"]
  by simp

text \<open>
  The order of \<^verbatim>\<open>FileFingerprintCmp\<close>, which keys the transfer maps, is a strict weak order whose
  ties are exactly the fingerprints with equal size, modification time and CRC.
\<close>

theorem fingerprint_cmp_strict_order:
  assumes "length (fp_crc a) = 4" "length (fp_crc b) = 4"
  shows "\<not> FileFingerprintCmp a a \<and>
    (FileFingerprintCmp a b \<longrightarrow> FileFingerprintCmp b c \<longrightarrow> FileFingerprintCmp a c) \<and>
    (\<not> FileFingerprintCmp a b \<and> \<not> FileFingerprintCmp b a \<longleftrightarrow>
      fp_size a = fp_size b \<and> fp_mtime a = fp_mtime b \<and> fp_crc a = fp_crc b)"
proof (intro conjI impI)
  show "\<not> FileFingerprintCmp a a" unfolding FileFingerprintCmp_iff using memcmp_lt_irrefl by blast
  show "FileFingerprintCmp a b \<Longrightarrow> FileFingerprintCmp b c \<Longrightarrow> FileFingerprintCmp a c"
    unfolding FileFingerprintCmp_iff by (rule lex3_trans)
  have "length (crc_bytes (fp_crc a)) = length (crc_bytes (fp_crc b))"
    using assms by (simp add: length_crc_bytes)
  from lex3_tie [OF this] show "\<not> FileFingerprintCmp a b \<and> \<not> FileFingerprintCmp b a \<longleftrightarrow>
      fp_size a = fp_size b \<and> fp_mtime a = fp_mtime b \<and> fp_crc a = fp_crc b"
    unfolding FileFingerprintCmp_iff using crc_bytes_inject [OF assms] by (metis signed_word_eqI)
qed

theorem fingerprint_cmp_strict_order_witness:
  "\<not> FileFingerprintCmp \<lparr>fp_size = 7, fp_mtime = 0, fp_crc = [0, 0, 0, 1], fp_isvalid = False\<rparr>
       \<lparr>fp_size = 7, fp_mtime = 0, fp_crc = [0, 0, 0, 1], fp_isvalid = True\<rparr>"
  using fingerprint_cmp_strict_order [of
      "\<lparr>fp_size = 7, fp_mtime = 0, fp_crc = [0, 0, 0, 1], fp_isvalid = False\<rparr>"
      "\<lparr>fp_size = 7, fp_mtime = 0, fp_crc = [0, 0, 0, 1], fp_isvalid = True\<rparr>"]
  by simp

end
