(* ===== verification/Mega_Containers.thy ===== *)
theory Mega_Containers
  imports Mega_Prelude "HOL-Library.List_Lexorder"
begin

text \<open>
  The ordered containers of the C++ library as the SDK uses them.  A \<^verbatim>\<open>std::map\<close> is the list of its
  entries in iteration order, a \<^verbatim>\<open>std::set\<close> the list of its elements; the invariant is that keys
  ascend strictly.  The order on \<^verbatim>\<open>std::string\<close> keys is the lexicographic order on bytes
  (\<^verbatim>\<open>char_traits<char>::lt\<close> compares as unsigned char).  The theory gives the operations, the
  interface they satisfy (locale \<open>ordered_store\<close>) and what clients need of it: the contents of a
  container determine it, and re-inserting the entries of a container rebuilds it.
\<close>

section \<open>Operations\<close>

type_synonym ('k, 'v) smap = "('k \<times> 'v) list"

fun map_set :: "'k::linorder \<Rightarrow> 'v \<Rightarrow> ('k, 'v) smap \<Rightarrow> ('k, 'v) smap" where
  "map_set k v [] = [(k, v)]"
| "map_set k v ((k', v') # m) =
    (if k < k' then (k, v) # (k', v') # m
     else if k = k' then (k, v) # m
     else (k', v') # map_set k v m)"

definition map_find :: "('k, 'v) smap \<Rightarrow> 'k \<Rightarrow> 'v option" where
  "map_find m k = map_of m k"

definition map_erase :: "'k \<Rightarrow> ('k, 'v) smap \<Rightarrow> ('k, 'v) smap" where
  "map_erase k m = filter (\<lambda>(k', _). k' \<noteq> k) m"

text \<open>\<^verbatim>\<open>m[k]\<close> as an lvalue: a missing key is first given the default value.\<close>

definition map_update :: "'k::linorder \<Rightarrow> 'v \<Rightarrow> ('v \<Rightarrow> 'v) \<Rightarrow> ('k, 'v) smap \<Rightarrow> ('k, 'v) smap" where
  "map_update k d f m = map_set k (f (case map_find m k of None \<Rightarrow> d | Some v \<Rightarrow> v)) m"

definition map_wf :: "('k::linorder, 'v) smap \<Rightarrow> bool" where
  "map_wf m \<longleftrightarrow> sorted_wrt (<) (map fst m)"

fun set_add :: "'a::linorder \<Rightarrow> 'a list \<Rightarrow> 'a list" where
  "set_add x [] = [x]"
| "set_add x (y # ys) = (if x < y then x # y # ys else if x = y then y # ys else y # set_add x ys)"

definition set_erase :: "'a \<Rightarrow> 'a list \<Rightarrow> 'a list" where
  "set_erase x ys = filter (\<lambda>y. y \<noteq> x) ys"

definition set_wf :: "'a::linorder list \<Rightarrow> bool" where
  "set_wf ys \<longleftrightarrow> sorted_wrt (<) ys"

section \<open>The interface\<close>

text \<open>
  What a keyed container promises: lookups after each operation, preservation of its invariant, and
  that a container is determined by what its lookups return.
\<close>

locale ordered_store =
  fixes lookup :: "'m \<Rightarrow> 'k \<Rightarrow> 'v option" and put :: "'k \<Rightarrow> 'v \<Rightarrow> 'm \<Rightarrow> 'm" and remove :: "'k \<Rightarrow> 'm \<Rightarrow> 'm"
    and empty :: 'm and wf :: "'m \<Rightarrow> bool"
  assumes wf_empty: "wf empty" and wf_put: "wf m \<Longrightarrow> wf (put k v m)" and wf_remove: "wf m \<Longrightarrow> wf (remove k m)"
    and lookup_empty: "lookup empty k = None"
    and lookup_put: "wf m \<Longrightarrow> lookup (put k v m) k' = (if k' = k then Some v else lookup m k')"
    and lookup_remove: "wf m \<Longrightarrow> lookup (remove k m) k' = (if k' = k then None else lookup m k')"
    and lookup_ext: "wf m \<Longrightarrow> wf m' \<Longrightarrow> (\<And>k. lookup m k = lookup m' k) \<Longrightarrow> m = m'"
begin

lemma wf_puts: "wf m \<Longrightarrow> wf (fold (\<lambda>(k, v). put k v) kvs m)"
  by (induction kvs arbitrary: m) (auto simp: wf_put)

lemma lookup_puts:
  "wf m \<Longrightarrow> lookup (fold (\<lambda>(k, v). put k v) kvs m) k =
    (case map_of (rev kvs) k of None \<Rightarrow> lookup m k | Some v \<Rightarrow> Some v)"
proof (induction kvs arbitrary: m)
  case (Cons kv kvs)
  then show ?case
    by (cases kv) (auto simp: wf_put lookup_put map_add_def split: option.split)
qed simp

lemma put_put_same: "wf m \<Longrightarrow> put k v (put k w m) = put k v m"
  by (intro lookup_ext) (auto simp: wf_put lookup_put)

lemma put_put_swap: "wf m \<Longrightarrow> k \<noteq> k' \<Longrightarrow> put k v (put k' w m) = put k' w (put k v m)"
  by (intro lookup_ext) (auto simp: wf_put lookup_put)

lemma remove_put: "wf m \<Longrightarrow> lookup m k = None \<Longrightarrow> remove k (put k v m) = m"
  by (intro lookup_ext) (auto simp: wf_put wf_remove lookup_put lookup_remove)

lemma put_present: "wf m \<Longrightarrow> lookup m k = Some v \<Longrightarrow> put k v m = m"
  by (intro lookup_ext) (auto simp: wf_put lookup_put)

end

section \<open>The containers meet it\<close>

lemma set_map_set_fst: "fst ` set (map_set k v m) = insert k (fst ` set m)"
  by (induction k v m rule: map_set.induct) auto

lemma set_map_set_subset: "set (map_set k v m) \<subseteq> insert (k, v) (set m)"
  by (induction k v m rule: map_set.induct) auto

lemma map_wf_map_set: "map_wf m \<Longrightarrow> map_wf (map_set k v m)"
  unfolding map_wf_def
proof (induction k v m rule: map_set.induct)
  case (2 k v k' v' m)
  then show ?case using set_map_set_fst [of k v m] by auto
qed simp

lemma map_wf_filter: "map_wf m \<Longrightarrow> map_wf (filter P m)"
  unfolding map_wf_def by (induction m) auto

lemma map_wf_Cons: "map_wf ((k, v) # m) \<longleftrightarrow> (\<forall>x \<in> set m. k < fst x) \<and> map_wf m"
  by (auto simp: map_wf_def)

lemma map_wf_Nil [simp]: "map_wf []"
  by (simp add: map_wf_def)

lemma map_wf_distinct: "map_wf m \<Longrightarrow> distinct (map fst m)"
  unfolding map_wf_def using strict_sorted_iff by blast

lemma map_find_None_lt: "\<forall>x \<in> set m. k < fst x \<Longrightarrow> map_find m (k::'k::linorder) = None"
  by (induction m) (auto simp: map_find_def)

lemma map_find_map_set: "map_wf m \<Longrightarrow> map_find (map_set k v m) k' = (if k' = k then Some v else map_find m k')"
  by (induction k v m rule: map_set.induct) (auto simp: map_find_def map_wf_Cons)

lemma map_find_map_erase: "map_find (map_erase k m) k' = (if k' = k then None else map_find m k')"
  by (induction m) (auto simp: map_find_def map_erase_def)

lemma map_find_ext: "map_wf m \<Longrightarrow> map_wf m' \<Longrightarrow> (\<And>k. map_find m k = map_find m' k) \<Longrightarrow> m = m'"
proof (rule map_sorted_distinct_set_unique [where f = fst])
  assume wf: "map_wf m" "map_wf m'" and eq: "\<And>k. map_find m k = map_find m' k"
  from wf show "sorted (map fst m)" "distinct (map fst m)" "sorted (map fst m')" "distinct (map fst m')"
    by (auto simp: map_wf_def strict_sorted_iff)
  have "map_of m = map_of m'" using eq by (auto simp: map_find_def)
  then show eqs: "set m = set m'" using wf
    by (metis map_of_inject_set map_wf_distinct)
  from wf show "inj_on fst (set m \<union> set m')" using map_wf_distinct
    by (metis distinct_map eqs sup.idem)
qed

interpretation smap: ordered_store map_find map_set map_erase "[]" map_wf
proof
  fix m :: "('k::linorder, 'v) smap" and k
  assume "map_wf m"
  then show "map_wf (map_erase k m)" by (simp add: map_erase_def map_wf_filter)
qed (auto simp: map_wf_map_set map_find_map_set map_find_map_erase map_find_ext, simp add: map_find_def)

lemma map_find_in_set: "map_wf m \<Longrightarrow> map_find m k = Some v \<longleftrightarrow> (k, v) \<in> set m"
  by (simp add: map_find_def map_of_eq_Some_iff map_wf_distinct)

text \<open>Inserting the entries in any order without repetition, into an empty map, rebuilds it.\<close>

lemma map_rebuild: "map_wf m \<Longrightarrow> fold (\<lambda>(k, v). map_set k v) m [] = m"
proof (rule map_find_ext)
  fix k assume "map_wf m"
  then have "map_of (rev m) k = map_of m k"
    by (metis distinct_rev map_of_inject_set map_wf_distinct rev_map set_rev)
  then show "map_find (fold (\<lambda>(k, v). map_set k v) m []) k = map_find m k"
    using smap.lookup_puts [of "[]" m k] by (simp add: map_find_def split: option.split)
qed (simp_all add: smap.wf_puts)

lemma map_wf_map_update: "map_wf m \<Longrightarrow> map_wf (map_update k d f m)"
  by (simp add: map_update_def map_wf_map_set)

lemma map_find_map_update:
  "map_wf m \<Longrightarrow> map_find (map_update k d f m) k' =
    (if k' = k then Some (f (case map_find m k of None \<Rightarrow> d | Some v \<Rightarrow> v)) else map_find m k')"
  by (simp add: map_update_def map_find_map_set)

lemma map_set_at_end: "\<forall>x \<in> set m. fst x < k \<Longrightarrow> map_set k v m = m @ [(k, v)]"
  by (induction m) fastforce+

lemma map_wf_append_entry: "map_wf (m @ [(k, v)]) \<longleftrightarrow> map_wf m \<and> (\<forall>x \<in> set m. fst x < k)"
  by (auto simp: map_wf_def sorted_wrt_append)

subsection \<open>Sets\<close>

lemma set_set_add: "set (set_add x ys) = insert x (set ys)"
  by (induction x ys rule: set_add.induct) auto

lemma set_wf_set_add: "set_wf ys \<Longrightarrow> set_wf (set_add x ys)"
  unfolding set_wf_def
proof (induction x ys rule: set_add.induct)
  case (2 x y ys)
  then show ?case by (auto simp: set_set_add)
qed simp

lemma set_set_erase: "set (set_erase x ys) = set ys - {x}"
  by (auto simp: set_erase_def)

lemma set_wf_set_erase: "set_wf ys \<Longrightarrow> set_wf (set_erase x ys)"
  by (simp add: set_wf_def set_erase_def sorted_wrt_filter)

lemma set_wf_ext: "set_wf xs \<Longrightarrow> set_wf ys \<Longrightarrow> set xs = set ys \<Longrightarrow> xs = ys"
  unfolding set_wf_def by (rule strict_sorted_equal)

lemma set_wf_Nil [simp]: "set_wf []"
  by (simp add: set_wf_def)

lemma set_wf_filter: "set_wf xs \<Longrightarrow> set_wf (filter P xs)"
  by (simp add: set_wf_def sorted_wrt_filter)

lemma set_set_adds: "set (fold set_add xs ys) = set xs \<union> set ys"
  by (induction xs arbitrary: ys) (auto simp: set_set_add)

lemma set_wf_set_adds: "set_wf ys \<Longrightarrow> set_wf (fold set_add xs ys)"
  by (induction xs arbitrary: ys) (auto simp: set_wf_set_add)

lemma set_rebuild: "set_wf xs \<Longrightarrow> fold set_add xs [] = xs"
  by (intro set_wf_ext set_wf_set_adds) (simp_all add: set_set_adds)

text \<open>Sets are stores of units, so they meet the same interface.\<close>

interpretation sset: ordered_store
  "\<lambda>ys x. if x \<in> set ys then Some () else None" "\<lambda>x u. set_add x" set_erase "[]" set_wf
proof
  fix m m' :: "'a::linorder list"
  assume wf: "set_wf m" "set_wf m'"
    and eq: "\<And>k. (if k \<in> set m then Some () else None) = (if k \<in> set m' then Some () else None)"
  have "k \<in> set m \<longleftrightarrow> k \<in> set m'" for k using eq [of k] by (simp split: if_splits)
  then show "m = m'" using wf by (intro set_wf_ext) auto
qed (auto simp: set_wf_set_add set_set_add set_set_erase set_wf_set_erase)

end
