(* ===== verification/Mega_KeyManager.thy ===== *)
theory Mega_KeyManager
  imports Mega_Serialize Mega_Containers
begin

text \<open>
  \<^verbatim>\<open>KeyManager\<close> of \<^verbatim>\<open>src/megaclient.cpp\<close>: the \<^verbatim>\<open>^!keys\<close> user attribute.  The theory models the
  manager's data, its accessors, the tag-length-value container (\<^verbatim>\<open>serialize\<close>, \<^verbatim>\<open>unserialize\<close>) and
  the four nested formats in it: share keys, pending outshares, pending inshares and warnings
  (the last two in the LTLV format).  The lemmas show that each nested format is read back from
  what is written, and that the whole container is, with the generation increased by one; for
  the records an older client does not know the bytes are kept.
\<close>

section \<open>Data\<close>

abbreviation (input) TAG_VERSION :: byte where "TAG_VERSION \<equiv> 1"
abbreviation (input) TAG_CREATION_TIME :: byte where "TAG_CREATION_TIME \<equiv> 2"
abbreviation (input) TAG_IDENTITY :: byte where "TAG_IDENTITY \<equiv> 3"
abbreviation (input) TAG_GENERATION :: byte where "TAG_GENERATION \<equiv> 4"
abbreviation (input) TAG_ATTR :: byte where "TAG_ATTR \<equiv> 5"
abbreviation (input) TAG_PRIV_ED25519 :: byte where "TAG_PRIV_ED25519 \<equiv> 16"
abbreviation (input) TAG_PRIV_CU25519 :: byte where "TAG_PRIV_CU25519 \<equiv> 17"
abbreviation (input) TAG_PRIV_RSA :: byte where "TAG_PRIV_RSA \<equiv> 18"
abbreviation (input) TAG_AUTHRING_ED25519 :: byte where "TAG_AUTHRING_ED25519 \<equiv> 32"
abbreviation (input) TAG_AUTHRING_CU25519 :: byte where "TAG_AUTHRING_CU25519 \<equiv> 33"
abbreviation (input) TAG_SHAREKEYS :: byte where "TAG_SHAREKEYS \<equiv> 48"
abbreviation (input) TAG_PENDING_OUTSHARES :: byte where "TAG_PENDING_OUTSHARES \<equiv> 64"
abbreviation (input) TAG_PENDING_INSHARES :: byte where "TAG_PENDING_INSHARES \<equiv> 65"
abbreviation (input) TAG_BACKUPS :: byte where "TAG_BACKUPS \<equiv> 80"
abbreviation (input) TAG_WARNINGS :: byte where "TAG_WARNINGS \<equiv> 96"

text \<open>Bit positions in the flags of a share key (\<^verbatim>\<open>std::bitset<8>\<close>, a byte here).\<close>

abbreviation (input) TRUSTED :: nat where "TRUSTED \<equiv> 0"
abbreviation (input) INUSE :: nat where "INUSE \<equiv> 1"

record key_manager =
  mManualVerification :: bool
  mPostRegistration :: bool
  mDowngradeAttack :: bool
  mVersion :: byte
  mCreationTime :: u32
  mIdentity :: handle
  mGeneration :: u32
  mAttr :: bytes
  mPrivEd25519 :: bytes
  mPrivCu25519 :: bytes
  mPrivRSA :: bytes
  mAuthEd25519 :: bytes
  mAuthCu25519 :: bytes
  mBackups :: bytes
  mOther :: bytes
  mShareKeys :: "(handle, bytes \<times> byte) smap"
  mPendingOutShares :: "(handle, bytes list) smap"
  mPendingInShares :: "(bytes, handle \<times> bytes) smap"
  mWarnings :: "(bytes, bytes) smap"

definition new_key_manager :: key_manager where
  "new_key_manager =
    \<lparr>mManualVerification = False, mPostRegistration = False, mDowngradeAttack = False,
     mVersion = 0, mCreationTime = 0, mIdentity = UNDEF, mGeneration = 0, mAttr = [],
     mPrivEd25519 = [], mPrivCu25519 = [], mPrivRSA = [], mAuthEd25519 = [], mAuthCu25519 = [],
     mBackups = [], mOther = [], mShareKeys = [], mPendingOutShares = [],
     mPendingInShares = [], mWarnings = []\<rparr>"

text \<open>A user as the manager sees it.\<close>

record user =
  userhandle :: handle
  email :: bytes
  uid :: bytes

section \<open>Accessors\<close>

definition addPendingOutShare :: "handle \<Rightarrow> bytes \<Rightarrow> key_manager \<Rightarrow> key_manager" where
  "addPendingOutShare sharehandle u km =
    km\<lparr>mPendingOutShares := map_update sharehandle [] (set_add u) (mPendingOutShares km)\<rparr>"

definition addPendingInShare :: "bytes \<Rightarrow> handle \<Rightarrow> bytes \<Rightarrow> key_manager \<Rightarrow> key_manager" where
  "addPendingInShare sharehandle userHandle encrytedKey km =
    km\<lparr>mPendingInShares := map_set sharehandle (userHandle, encrytedKey) (mPendingInShares km)\<rparr>"

text \<open>
  \<^verbatim>\<open>finduser\<close> is the client's user table.  \<^verbatim>\<open>m[k].erase(x)\<close> first creates a missing set, and the
  result tells whether something was erased.
\<close>

definition erase_outshare :: "handle \<Rightarrow> bytes \<Rightarrow> key_manager \<Rightarrow> bool \<times> key_manager" where
  "erase_outshare sharehandle u km =
    ((case map_find (mPendingOutShares km) sharehandle of None \<Rightarrow> False | Some us \<Rightarrow> u \<in> set us),
     km\<lparr>mPendingOutShares := map_update sharehandle [] (set_erase u) (mPendingOutShares km)\<rparr>)"

definition removePendingOutShare ::
    "(bytes \<Rightarrow> user option) \<Rightarrow> handle \<Rightarrow> bytes \<Rightarrow> key_manager \<Rightarrow> bool \<times> key_manager" where
  "removePendingOutShare finduser sharehandle u km =
    (case finduser u of
       Some us \<Rightarrow>
         (let (removed, km') = erase_outshare sharehandle (email us) km;
              (removed', km'') = erase_outshare sharehandle (uid us) km'
          in (removed \<or> removed', km''))
     | None \<Rightarrow> erase_outshare sharehandle u km)"

definition removePendingInShare :: "bytes \<Rightarrow> key_manager \<Rightarrow> bool \<times> key_manager" where
  "removePendingInShare shareHandle km =
    (map_find (mPendingInShares km) shareHandle \<noteq> None,
     km\<lparr>mPendingInShares := map_erase shareHandle (mPendingInShares km)\<rparr>)"

definition addShareKey :: "handle \<Rightarrow> bytes \<Rightarrow> bool \<Rightarrow> key_manager \<Rightarrow> key_manager" where
  "addShareKey sharehandle shareKey sharedSecurely km =
    km\<lparr>mShareKeys := map_set sharehandle
      (shareKey, if sharedSecurely then set_bit TRUSTED 0 else 0) (mShareKeys km)\<rparr>"

definition getShareKey :: "handle \<Rightarrow> key_manager \<Rightarrow> bytes" where
  "getShareKey sharehandle km = (case map_find (mShareKeys km) sharehandle of Some (k, _) \<Rightarrow> k | None \<Rightarrow> [])"

definition isShareKeyTrusted :: "handle \<Rightarrow> key_manager \<Rightarrow> bool" where
  "isShareKeyTrusted sharehandle km =
    (case map_find (mShareKeys km) sharehandle of Some (_, f) \<Rightarrow> bit f TRUSTED | None \<Rightarrow> False)"

definition isShareKeyInUse :: "handle \<Rightarrow> key_manager \<Rightarrow> bool" where
  "isShareKeyInUse sharehandle km =
    (case map_find (mShareKeys km) sharehandle of Some (_, f) \<Rightarrow> bit f INUSE | None \<Rightarrow> False)"

definition setSharekeyInUse :: "handle \<Rightarrow> bool \<Rightarrow> key_manager \<Rightarrow> key_manager" where
  "setSharekeyInUse sharehandle sent km =
    (case map_find (mShareKeys km) sharehandle of
       Some (k, f) \<Rightarrow>
         km\<lparr>mShareKeys := map_set sharehandle (k, if sent then set_bit INUSE f else unset_bit INUSE f) (mShareKeys km)\<rparr>
     | None \<Rightarrow> km)"

definition isUnverifiedOutShare :: "(bytes \<Rightarrow> user option) \<Rightarrow> handle \<Rightarrow> bytes \<Rightarrow> key_manager \<Rightarrow> bool" where
  "isUnverifiedOutShare finduser nodeHandle u km =
    (case map_find (mPendingOutShares km) nodeHandle of
       None \<Rightarrow> False
     | Some us \<Rightarrow> list_ex (\<lambda>uidIt. uidIt = u \<or>
         ch CHR ''@'' \<notin> set u \<and> (case finduser u of Some w \<Rightarrow> uidIt = email w | None \<Rightarrow> False)) us)"

definition toNodeHandle :: "handle \<Rightarrow> bytes" where
  "toNodeHandle nodeHandle = btoa (le_bytes 6 nodeHandle)"

definition toHandle :: "handle \<Rightarrow> bytes" where
  "toHandle h = btoa (le_bytes 8 h)"

definition isUnverifiedInShare :: "handle \<Rightarrow> handle \<Rightarrow> key_manager \<Rightarrow> bool" where
  "isUnverifiedInShare nodeHandle userHandle km =
    (case map_find (mPendingInShares km) (toNodeHandle nodeHandle) of
       None \<Rightarrow> False
     | Some (uh, _) \<Rightarrow> uh = userHandle)"

definition reset :: "key_manager \<Rightarrow> key_manager" where
  "reset km = km\<lparr>mVersion := 0, mCreationTime := 0, mIdentity := UNDEF, mGeneration := 0, mAttr := [],
     mPrivEd25519 := [], mPrivCu25519 := [], mPrivRSA := [], mAuthEd25519 := [], mAuthCu25519 := [],
     mBackups := [], mWarnings := [], mOther := [], mPendingInShares := [], mPendingOutShares := [],
     mShareKeys := [], mDowngradeAttack := False, mManualVerification := False, mPostRegistration := False\<rparr>"

text \<open>
  \<^verbatim>\<open>init\<close>: the clock, the client's own handle and the RSA cipher (\<open>rsa_short\<close>: set the key, write it in
  the short form; \<open>None\<close> when the cipher rejects it) are parameters.
\<close>

definition km_init :: "u32 \<Rightarrow> handle \<Rightarrow> (bytes \<Rightarrow> bytes option) \<Rightarrow> bytes \<Rightarrow> bytes \<Rightarrow> bytes \<Rightarrow> key_manager \<Rightarrow> key_manager" where
  "km_init now me rsa_short prEd25519 prCu25519 prRSA km =
    (if mVersion km \<noteq> 0 \<or> mGeneration km \<noteq> 0 then km
     else km\<lparr>mVersion := 1, mCreationTime := now, mIdentity := me, mGeneration := 1,
       mPrivEd25519 := prEd25519, mPrivCu25519 := prCu25519,
       mPrivRSA := (if prRSA \<noteq> [] then case rsa_short (atob_str prRSA) of Some k \<Rightarrow> k | None \<Rightarrow> [] else []),
       mPostRegistration := False\<rparr>)"

section \<open>The LTLV format\<close>

definition htons :: "u16 \<Rightarrow> u16" where
  "htons x = le_word (rev (le_bytes 2 x))"

definition htonl :: "u32 \<Rightarrow> u32" where
  "htonl x = le_word (rev (le_bytes 4 x))"

definition put_ltlv_tag :: "bytes \<Rightarrow> bytes \<Rightarrow> bytes" where
  "put_ltlv_tag d tag = serializebinary (serializebyte d (of_nat (length tag))) tag"

definition put_value_len :: "bytes \<Rightarrow> nat \<Rightarrow> bytes" where
  "put_value_len d n =
    (if n < 0xFFFF then serializeu16 d (htons (of_nat n))
     else serializeu32 (serializeu16 d 0xFFFF) (htonl (of_nat n)))"

definition put_ltlv_value :: "bytes \<Rightarrow> bytes \<Rightarrow> bytes" where
  "put_ltlv_value d v = serializebinary (put_value_len d (length v)) v"

definition serializeToLTLV :: "(bytes, bytes) smap \<Rightarrow> bytes" where
  "serializeToLTLV values = foldl (\<lambda>d (tag, v). put_ltlv_value (put_ltlv_tag d tag) v) [] values"

definition get_ltlv_tag :: "bytes read" where
  "get_ltlv_tag = rthen unserializebyte (\<lambda>len. unserializebinary (unat len))"

definition get_value_len :: "nat read" where
  "get_value_len = rthen unserializeu16 (\<lambda>len16.
    if htons len16 = 0xFFFF then rthen unserializeu32 (\<lambda>len. rret (unat (htonl len)))
    else rret (unat (htons len16)))"

definition get_ltlv_value :: "bytes read" where
  "get_ltlv_value = rthen get_value_len unserializebinary"

definition deserializeFromLTLV :: "bytes \<Rightarrow> (bytes, bytes) smap \<Rightarrow> (bytes, bytes) smap option" where
  "deserializeFromLTLV blob data =
    read_all (rthen get_ltlv_tag (\<lambda>tag. rthen get_ltlv_value (\<lambda>v. rret (tag, v))))
      (\<lambda>(tag, v). map_set tag v) blob data"

section \<open>Share keys\<close>

definition put_share_key :: "bytes \<Rightarrow> handle \<times> bytes \<times> byte \<Rightarrow> bytes" where
  "put_share_key d x = (case x of (h, shareKey, flagsBuf) \<Rightarrow>
    serializebyte (serializebinary (serializenodehandle d h) shareKey) flagsBuf)"

definition serializeShareKeys :: "key_manager \<Rightarrow> bytes" where
  "serializeShareKeys km = foldl put_share_key [] (mShareKeys km)"

definition get_share_key :: "(handle \<times> bytes \<times> byte) read" where
  "get_share_key = rthen unserializenodehandle (\<lambda>h. rthen
    (rthen (unserializebinary 16) (\<lambda>k. rthen unserializebyte (\<lambda>f. rret (k, f))))
    (\<lambda>kf. rret (h, kf)))"

definition deserializeShareKeys :: "key_manager \<Rightarrow> bytes \<Rightarrow> key_manager option" where
  "deserializeShareKeys km blob =
    map_option (\<lambda>m. km\<lparr>mShareKeys := m\<rparr>) (read_all get_share_key (\<lambda>(h, kf). map_set h kf) blob [])"

section \<open>Pending outshares\<close>

text \<open>
  The length byte of a uid: its size for an e-mail address, 0 for a user handle, \<open>None\<close> for what
  is skipped with an error.  \<open>uh0\<close> is the content of the uninitialised local that the decoder of
  the handle text fills.
\<close>

definition outshare_len :: "bytes \<Rightarrow> byte option" where
  "outshare_len u =
    (if ch CHR ''@'' \<in> set u
     then if length u \<ge> 256 then None else Some (of_nat (length u))
     else if length u \<noteq> 11 then None else Some 0)"

definition uid_handle :: "handle \<Rightarrow> bytes \<Rightarrow> handle" where
  "uid_handle uh0 u = (let b = atob u 8 in le_word (b @ drop (length b) (le_bytes 8 uh0)))"

definition put_outshare :: "handle \<Rightarrow> bytes \<Rightarrow> handle \<times> bytes \<Rightarrow> bytes" where
  "put_outshare uh0 d x = (case x of (h, u) \<Rightarrow>
    (case outshare_len u of
       None \<Rightarrow> d
     | Some len \<Rightarrow>
         (let d' = serializenodehandle (serializebyte d len) h in
          if 0 < len then serializebinary d' u else serializehandle d' (uid_handle uh0 u))))"

definition serializePendingOutshares :: "handle \<Rightarrow> key_manager \<Rightarrow> bytes" where
  "serializePendingOutshares uh0 km =
    foldl (\<lambda>d (h, us). foldl (\<lambda>d u. put_outshare uh0 d (h, u)) d us) [] (mPendingOutShares km)"

definition get_outshare :: "(handle \<times> bytes) read" where
  "get_outshare = rthen (rthen unserializebyte (\<lambda>len. rthen unserializenodehandle (\<lambda>h. rret (len, h)))) (\<lambda>(len, h).
    if len = 0 then rthen unserializehandle (\<lambda>uh. rret (h, toHandle uh))
    else rthen (unserializebinary (unat len)) (\<lambda>u. rret (h, u)))"

definition deserializePendingOutshares :: "key_manager \<Rightarrow> bytes \<Rightarrow> key_manager option" where
  "deserializePendingOutshares km blob =
    map_option (\<lambda>m. km\<lparr>mPendingOutShares := m\<rparr>)
      (read_all get_outshare (\<lambda>(h, u). map_update h [] (set_add u)) blob [])"

section \<open>Pending inshares, backups, warnings\<close>

definition serializePendingInshares :: "key_manager \<Rightarrow> bytes" where
  "serializePendingInshares km = serializeToLTLV
    (fold (\<lambda>(tag, uh, k). map_set tag (serializebinary (serializehandle [] uh) k)) (mPendingInShares km) [])"

definition read_inshare :: "bytes \<Rightarrow> (handle \<times> bytes) option" where
  "read_inshare v =
    (if length v < 8 then None
     else fst (rthen unserializehandle (\<lambda>uh. rthen (unserializebinary (length v - 8)) (\<lambda>k. rret (uh, k))) (new_reader v)))"

fun read_inshares :: "(bytes, bytes) smap \<Rightarrow> (bytes, handle \<times> bytes) smap \<Rightarrow> (bytes, handle \<times> bytes) smap option" where
  "read_inshares [] m = Some m"
| "read_inshares ((tag, v) # kvs) m =
    (case read_inshare v of None \<Rightarrow> None | Some x \<Rightarrow> read_inshares kvs (map_set tag x m))"

definition deserializePendingInshares :: "key_manager \<Rightarrow> bytes \<Rightarrow> key_manager option" where
  "deserializePendingInshares km blob =
    (case deserializeFromLTLV blob [] of
       None \<Rightarrow> None
     | Some kvs \<Rightarrow> map_option (\<lambda>m. km\<lparr>mPendingInShares := m\<rparr>) (read_inshares kvs []))"

definition serializeBackups :: "key_manager \<Rightarrow> bytes" where
  "serializeBackups km = mBackups km"

definition deserializeBackups :: "key_manager \<Rightarrow> bytes \<Rightarrow> key_manager option" where
  "deserializeBackups km blob = Some (km\<lparr>mBackups := blob\<rparr>)"

definition serializeWarnings :: "key_manager \<Rightarrow> bytes" where
  "serializeWarnings km = serializeToLTLV (mWarnings km)"

definition deserializeWarnings :: "key_manager \<Rightarrow> bytes \<Rightarrow> key_manager option" where
  "deserializeWarnings km blob = map_option (\<lambda>m. km\<lparr>mWarnings := m\<rparr>) (deserializeFromLTLV blob [])"

section \<open>The container\<close>

definition tagHeader :: "byte \<Rightarrow> u64 \<Rightarrow> bytes" where
  "tagHeader tag len =
    [tag, ucast (drop_bit 16 (len AND 0xFF0000)), ucast (drop_bit 8 (len AND 0xFF00)), ucast (len AND 0xFF)]"

definition km_serialize :: "handle \<Rightarrow> key_manager \<Rightarrow> bytes" where
  "km_serialize uh0 km = (let size = (\<lambda>s :: bytes. of_nat (length s)) in
     tagHeader TAG_VERSION 1 @ le_bytes 1 (mVersion km) @
     tagHeader TAG_CREATION_TIME 4 @ le_bytes 4 (htonl (mCreationTime km)) @
     tagHeader TAG_IDENTITY 8 @ le_bytes 8 (mIdentity km) @
     tagHeader TAG_GENERATION 4 @ le_bytes 4 (htonl (mGeneration km + 1)) @
     tagHeader TAG_ATTR (size (mAttr km)) @ mAttr km @
     tagHeader TAG_PRIV_ED25519 32 @ mPrivEd25519 km @
     tagHeader TAG_PRIV_CU25519 32 @ mPrivCu25519 km @
     tagHeader TAG_PRIV_RSA (size (mPrivRSA km)) @ mPrivRSA km @
     tagHeader TAG_AUTHRING_ED25519 (size (mAuthEd25519 km)) @ mAuthEd25519 km @
     tagHeader TAG_AUTHRING_CU25519 (size (mAuthCu25519 km)) @ mAuthCu25519 km @
     tagHeader TAG_SHAREKEYS (size (serializeShareKeys km)) @ serializeShareKeys km @
     tagHeader TAG_PENDING_OUTSHARES (size (serializePendingOutshares uh0 km)) @ serializePendingOutshares uh0 km @
     tagHeader TAG_PENDING_INSHARES (size (serializePendingInshares km)) @ serializePendingInshares km @
     tagHeader TAG_BACKUPS (size (serializeBackups km)) @ serializeBackups km @
     tagHeader TAG_WARNINGS (size (serializeWarnings km)) @ serializeWarnings km @
     mOther km)"

text \<open>The \<^verbatim>\<open>switch\<close> on the tag: \<open>body\<close> is the record's value, \<open>rec\<close> the record with its header.\<close>

definition km_record :: "key_manager \<Rightarrow> byte \<Rightarrow> bytes \<Rightarrow> bytes \<Rightarrow> key_manager option" where
  "km_record km tag body rec =
    (if tag = TAG_VERSION then
       if length body \<noteq> 1 then None else Some (km\<lparr>mVersion := le_word body\<rparr>)
     else if tag = TAG_CREATION_TIME then
       if length body \<noteq> 4 then None else Some (km\<lparr>mCreationTime := htonl (le_word body)\<rparr>)
     else if tag = TAG_IDENTITY then
       if length body \<noteq> 8 then None else Some (km\<lparr>mIdentity := le_word body\<rparr>)
     else if tag = TAG_GENERATION then
       if length body \<noteq> 4 then None else Some (km\<lparr>mGeneration := htonl (le_word body)\<rparr>)
     else if tag = TAG_ATTR then Some (km\<lparr>mAttr := body\<rparr>)
     else if tag = TAG_PRIV_ED25519 then
       if length body \<noteq> 32 then None else Some (km\<lparr>mPrivEd25519 := body\<rparr>)
     else if tag = TAG_PRIV_CU25519 then
       if length body \<noteq> 32 then None else Some (km\<lparr>mPrivCu25519 := body\<rparr>)
     else if tag = TAG_PRIV_RSA then Some (km\<lparr>mPrivRSA := body\<rparr>)
     else if tag = TAG_AUTHRING_ED25519 then Some (km\<lparr>mAuthEd25519 := body\<rparr>)
     else if tag = TAG_AUTHRING_CU25519 then Some (km\<lparr>mAuthCu25519 := body\<rparr>)
     else if tag = TAG_SHAREKEYS then deserializeShareKeys km body
     else if tag = TAG_PENDING_OUTSHARES then deserializePendingOutshares km body
     else if tag = TAG_PENDING_INSHARES then deserializePendingInshares km body
     else if tag = TAG_BACKUPS then deserializeBackups km body
     else if tag = TAG_WARNINGS then deserializeWarnings km body
     else Some (km\<lparr>mOther := mOther km @ rec\<rparr>))"

definition record_len :: "bytes \<Rightarrow> nat" where
  "record_len blob = unat (blob ! 1) * 65536 + unat (blob ! 2) * 256 + unat (blob ! 3)"

function km_unserialize :: "key_manager \<Rightarrow> bytes \<Rightarrow> key_manager option" where
  "km_unserialize km blob =
    (if length blob < 4 then Some km
     else let len = record_len blob in
       if length blob < 4 + len then None
       else case km_record km (blob ! 0) (take len (drop 4 blob)) (take (4 + len) blob) of
           None \<Rightarrow> None
         | Some km' \<Rightarrow> km_unserialize km' (drop (4 + len) blob))"
  by pat_completeness auto
termination by (relation "measure (\<lambda>(km, blob). length blob)") auto

declare km_unserialize.simps [simp del]

section \<open>Each nested format is a sequence of fields\<close>

lemma htons_htons [simp]: "htons (htons x) = x"
  using le_bytes_le_word [of "rev (le_bytes 2 x)", where ?'a = 16]
  by (simp add: htons_def le_word_le_bytes_full)

lemma htonl_htonl [simp]: "htonl (htonl x) = x"
  using le_bytes_le_word [of "rev (le_bytes 4 x)", where ?'a = 32]
  by (simp add: htonl_def le_word_le_bytes_full)

lemma htons_max: "htons x = 0xFFFF \<longleftrightarrow> x = 0xFFFF"
proof -
  have "htons 0xFFFF = 0xFFFF" by code_simp
  then show ?thesis by (metis htons_htons)
qed

lemma of_nat_u16_max: "n < 0xFFFF \<Longrightarrow> (of_nat n :: u16) \<noteq> 0xFFFF"
proof
  assume n: "n < 0xFFFF" and "(of_nat n :: u16) = 0xFFFF"
  then have "unat (of_nat n :: u16) = 0xFFFF" by simp
  then show False using n by (simp add: unat_of_nat_u16)
qed

lemma unat_of_nat_byte: "n < 256 \<Longrightarrow> unat (of_nat n :: byte) = n"
  by (simp add: unat_of_nat)

lemma body_codec_weaken:
  "body_codec put get ok cnt \<Longrightarrow> (\<And>x. ok' x \<Longrightarrow> ok x) \<Longrightarrow> body_codec put get ok' cnt"
  unfolding body_codec_def by blast

interpretation ltlv_tag: dep_codec serializebyte unserializebyte "\<lambda>_. True" "\<lambda>_. 1"
  "\<lambda>t. of_nat (length t)" serializebinary "\<lambda>len. unserializebinary (unat len)" "\<lambda>t. length t < 256" "\<lambda>_. 1"
proof (intro dep_codec.intro dep_codec_axioms.intro bytef.field_codec_axioms)
  show "body_codec serializebinary (unserializebinary (unat h)) (\<lambda>y. length y < 256 \<and> of_nat (length y) = h) (\<lambda>_. 1)"
    for h :: byte
    by (rule body_codec_weaken [OF binaryf.body_codec_axioms]) (auto simp: unat_of_nat_byte)
qed

interpretation value_len: dep_codec serializeu16 unserializeu16 "\<lambda>_. True" "\<lambda>_. 1"
  "\<lambda>n. if n < 0xFFFF then htons (of_nat n) else 0xFFFF"
  "\<lambda>d n. if n < 0xFFFF then d else serializeu32 d (htonl (of_nat n))"
  "\<lambda>len16. if htons len16 = 0xFFFF then rthen unserializeu32 (\<lambda>len. rret (unat (htonl len)))
    else rret (unat (htons len16))"
  "\<lambda>n. n < 4294967296" "\<lambda>n. if n < 0xFFFF then 0 else 1"
proof (intro dep_codec.intro dep_codec_axioms.intro u16f.field_codec_axioms)
  fix h :: u16
  show "body_codec (\<lambda>d n. if n < 0xFFFF then d else serializeu32 d (htonl (of_nat n)))
    (if htons h = 0xFFFF then rthen unserializeu32 (\<lambda>len. rret (unat (htonl len))) else rret (unat (htons h)))
    (\<lambda>y. y < 4294967296 \<and> (if y < 0xFFFF then htons (of_nat y) else 0xFFFF) = h)
    (\<lambda>n. if n < 0xFFFF then 0 else 1)"
  proof
    fix d and x :: nat
    show "(if x < 0xFFFF then d else serializeu32 d (htonl (of_nat x))) =
      d @ (if x < 0xFFFF then [] else serializeu32 [] (htonl (of_nat x)))"
      by (simp add: serializeu32_def)
  next
    fix x :: nat and t n
    assume x: "x < 4294967296 \<and> (if x < 0xFFFF then htons (of_nat x) else 0xFFFF) = h"
    then show "(if htons h = 0xFFFF then rthen unserializeu32 (\<lambda>len. rret (unat (htonl len))) else rret (unat (htons h)))
        \<lparr>rest = (if x < 0xFFFF then [] else serializeu32 [] (htonl (of_nat x))) @ t, fieldnum = n\<rparr> =
      (Some x, \<lparr>rest = t, fieldnum = n + (if x < 0xFFFF then 0 else 1)\<rparr>)"
      by (auto simp: htons_max of_nat_u16_max unat_of_nat_u16 unat_of_nat_u32 u32f.get_put split: if_splits)
  next
    fix r
    show "suffix (rest (snd ((if htons h = 0xFFFF then rthen unserializeu32 (\<lambda>len. rret (unat (htonl len)))
        else rret (unat (htons h))) r))) (rest r)"
      using u32f.get_suffix [of r]
      by (auto simp: rthen_def rret_def split: prod.split option.split)
  next
    fix x p n
    assume x: "x < 4294967296 \<and> (if x < 0xFFFF then htons (of_nat x) else 0xFFFF) = h"
      and p: "strict_prefix p (if x < 0xFFFF then [] else serializeu32 [] (htonl (of_nat x)))"
    then have big: "\<not> x < 0xFFFF" and h: "htons h = 0xFFFF" by (auto simp: htons_max split: if_splits)
    then have "fst (unserializeu32 \<lparr>rest = p, fieldnum = n\<rparr>) = None"
      using p by (intro u32f.get_truncated [where x = "htonl (of_nat x)"]) simp_all
    then show "fst ((if htons h = 0xFFFF then rthen unserializeu32 (\<lambda>len. rret (unat (htonl len)))
        else rret (unat (htons h))) \<lparr>rest = p, fieldnum = n\<rparr>) = None"
      using h by (auto simp: rthen_def split: prod.split option.split)
  qed
qed

lemma put_value_len_eq:
  "put_value_len = (\<lambda>d n. if n < 0xFFFF then serializeu16 d (if n < 0xFFFF then htons (of_nat n) else 0xFFFF)
     else serializeu32 (serializeu16 d (if n < 0xFFFF then htons (of_nat n) else 0xFFFF)) (htonl (of_nat n)))"
  by (simp add: put_value_len_def fun_eq_iff)

interpretation ltlv_value: dep_codec put_value_len get_value_len "\<lambda>n. n < 4294967296"
  "\<lambda>n. 1 + (if n < 0xFFFF then 0 else 1)" length serializebinary unserializebinary "\<lambda>_. True" "\<lambda>_. 1"
proof (intro dep_codec.intro dep_codec_axioms.intro)
  show "field_codec put_value_len get_value_len (\<lambda>n. n < 4294967296) (\<lambda>n. 1 + (if n < 0xFFFF then 0 else 1))"
    using value_len.field_codec_axioms by (simp add: put_value_len_eq get_value_len_def)
  show "body_codec serializebinary (unserializebinary h) (\<lambda>y. True \<and> length y = h) (\<lambda>_. 1)" for h
    using binaryf.body_codec_axioms by simp
qed

interpretation ltlv: pair_codec put_ltlv_tag get_ltlv_tag "\<lambda>t. length t < 256" "\<lambda>_. 1 + 1"
  put_ltlv_value get_ltlv_value "\<lambda>v. length v < 4294967296" "\<lambda>v. 1 + (if length v < 0xFFFF then 0 else 1) + 1"
proof (intro pair_codec.intro)
  show "field_codec put_ltlv_tag get_ltlv_tag (\<lambda>t. length t < 256) (\<lambda>_. 1 + 1)"
    using ltlv_tag.field_codec_axioms
    by (simp add: put_ltlv_tag_def [abs_def] get_ltlv_tag_def)
  show "field_codec put_ltlv_value get_ltlv_value (\<lambda>v. length v < 4294967296)
      (\<lambda>v. 1 + (if length v < 0xFFFF then 0 else 1) + 1)"
    using ltlv_value.field_codec_axioms
    by (simp add: put_ltlv_value_def [abs_def] get_ltlv_value_def)
qed

lemma ltlv_roundtrip:
  assumes "map_wf m" "\<forall>(t, v) \<in> set m. length t < 256 \<and> length v < 4294967296"
  shows "deserializeFromLTLV (serializeToLTLV m) [] = Some m"
proof -
  have "\<forall>x \<in> set m. case x of (t, v) \<Rightarrow> length t < 256 \<and> length v < 4294967296" using assms(2) .
  from ltlv.read_all_puts [OF this, of "\<lambda>(tag, v). map_set tag v" "[]"] show ?thesis
    by (simp add: deserializeFromLTLV_def serializeToLTLV_def map_rebuild assms(1))
qed

interpretation key_flags: pair_codec serializebinary "unserializebinary 16" "\<lambda>k. length k = 16" "\<lambda>_. 1"
  serializebyte unserializebyte "\<lambda>_. True" "\<lambda>_. 1"
  by (intro pair_codec.intro key16f.field_codec_axioms bytef.field_codec_axioms)

interpretation share_key: pair_codec serializenodehandle unserializenodehandle is_nodehandle "\<lambda>_. 1"
  "\<lambda>d (k, f). serializebyte (serializebinary d k) f"
  "rthen (unserializebinary 16) (\<lambda>k. rthen unserializebyte (\<lambda>f. rret (k, f)))"
  "\<lambda>(k, f). length k = 16 \<and> True" "\<lambda>(k, f). 1 + 1"
  by (intro pair_codec.intro nodehandlef.field_codec_axioms key_flags.field_codec_axioms)

lemma share_keys_roundtrip:
  assumes "map_wf (mShareKeys km)" "\<forall>(h, k, f) \<in> set (mShareKeys km). is_nodehandle h \<and> length k = 16"
  shows "deserializeShareKeys km' (serializeShareKeys km) = Some (km'\<lparr>mShareKeys := mShareKeys km\<rparr>)"
proof -
  have put: "put_share_key = (\<lambda>d (h, y). (case y of (k, f) \<Rightarrow> serializebyte (serializebinary (serializenodehandle d h) k) f))"
    by (auto simp: put_share_key_def fun_eq_iff)
  have "\<forall>x \<in> set (mShareKeys km). case x of (h, y) \<Rightarrow> is_nodehandle h \<and> (case y of (k, f) \<Rightarrow> length k = 16 \<and> True)"
    using assms(2) by auto
  from share_key.read_all_puts [OF this, of "\<lambda>(h, kf). map_set h kf" "[]"] show ?thesis
    by (simp add: deserializeShareKeys_def serializeShareKeys_def get_share_key_def put map_rebuild assms(1))
qed

subsection \<open>Pending outshares\<close>

lemma uid_handle_toHandle: "uid_handle uh0 (toHandle uh) = uh"
proof -
  have "atob (btoa (le_bytes 8 uh)) 8 = le_bytes 8 uh"
    by (simp add: atob_btoa_end)
  then show ?thesis by (simp add: uid_handle_def toHandle_def le_word_le_bytes_full)
qed

lemma toHandle_no_at: "ch CHR ''@'' \<notin> set (toHandle uh)"
proof
  assume "ch CHR ''@'' \<in> set (toHandle uh)"
  then have "issafe (ch CHR ''@'')" unfolding toHandle_def by (rule btoa_issafe)
  then show False by (simp add: issafe_def ishexdigit_def)
qed

lemma length_toHandle: "length (toHandle uh) = 11"
  by (simp add: toHandle_def length_btoa)

text \<open>A uid that survives: an e-mail address of at most 255 bytes or the text of a user handle.\<close>

definition outshare_uid :: "bytes \<Rightarrow> bool" where
  "outshare_uid u \<longleftrightarrow>
    (if ch CHR ''@'' \<in> set u then length u < 256 else toHandle (uid_handle 0 u) = u)"

lemma outshare_uid_cases:
  assumes "outshare_uid u"
  obtains "ch CHR ''@'' \<in> set u" "0 < length u" "length u < 256" "outshare_len u = Some (of_nat (length u))"
      "(of_nat (length u) :: byte) \<noteq> 0" "unat (of_nat (length u) :: byte) = length u"
  | uh where "u = toHandle uh" "outshare_len u = Some 0"
proof (cases "ch CHR ''@'' \<in> set u")
  case True
  then have l: "length u < 256" "0 < length u" using assms by (auto simp: outshare_uid_def)
  then have n: "unat (of_nat (length u) :: byte) = length u" by (simp add: unat_of_nat_byte)
  moreover from n l have "(of_nat (length u) :: byte) \<noteq> 0" by (metis gr_implies_not0 unsigned_0)
  ultimately show ?thesis using True l that(1) by (simp add: outshare_len_def)
next
  case False
  then have "u = toHandle (uid_handle 0 u)" using assms by (simp add: outshare_uid_def)
  then show ?thesis using that(2) False by (metis length_toHandle outshare_len_def)
qed

interpretation outshare_hdr: pair_codec serializebyte unserializebyte "\<lambda>_. True" "\<lambda>_. 1"
  serializenodehandle unserializenodehandle is_nodehandle "\<lambda>_. 1"
  by (intro pair_codec.intro bytef.field_codec_axioms nodehandlef.field_codec_axioms)

definition outshare_hdr :: "handle \<times> bytes \<Rightarrow> byte \<times> handle" where
  "outshare_hdr x = (case outshare_len (snd x) of Some len \<Rightarrow> len | None \<Rightarrow> 0, fst x)"

definition put_outshare_uid :: "handle \<Rightarrow> bytes \<Rightarrow> handle \<times> bytes \<Rightarrow> bytes" where
  "put_outshare_uid uh0 d x =
    (if 0 < fst (outshare_hdr x) then serializebinary d (snd x) else serializehandle d (uid_handle uh0 (snd x)))"

definition get_outshare_uid :: "byte \<times> handle \<Rightarrow> (handle \<times> bytes) read" where
  "get_outshare_uid y = (case y of (len, h) \<Rightarrow>
    if len = 0 then rthen unserializehandle (\<lambda>uh. rret (h, toHandle uh))
    else rthen (unserializebinary (unat len)) (\<lambda>u. rret (h, u)))"

lemma rthen_truncated: "fst (f r) = None \<Longrightarrow> fst (rthen f k r) = None"
  by (auto simp: rthen_def split: prod.split option.split)

lemma rthen_rret_suffix: "suffix (rest (snd (f r))) (rest r) \<Longrightarrow> suffix (rest (snd (rthen f (\<lambda>x. rret (g x)) r))) (rest r)"
  by (auto simp: rthen_def rret_def split: prod.split option.split)

lemma outshare_body:
  "body_codec (put_outshare_uid uh0) (get_outshare_uid y) (\<lambda>x. outshare_uid (snd x) \<and> outshare_hdr x = y) (\<lambda>_. 1)"
proof
  fix d x show "put_outshare_uid uh0 d x = d @ put_outshare_uid uh0 [] x"
    by (simp add: put_outshare_uid_def serializebinary_def serializehandle_def)
next
  fix x t n assume x: "outshare_uid (snd x) \<and> outshare_hdr x = y"
  then have "outshare_uid (snd x)" by simp
  then show "get_outshare_uid y \<lparr>rest = put_outshare_uid uh0 [] x @ t, fieldnum = n\<rparr> =
      (Some x, \<lparr>rest = t, fieldnum = n + 1\<rparr>)"
  proof (cases rule: outshare_uid_cases)
    case 1
    then show ?thesis using x
      by (cases x) (auto simp: get_outshare_uid_def put_outshare_uid_def outshare_hdr_def word_neq_0_conv
        intro!: rthen_simps(1) [THEN trans] binaryf.get_put)
  next
    case (2 uh)
    then show ?thesis using x
      by (cases x) (auto simp: get_outshare_uid_def put_outshare_uid_def outshare_hdr_def uid_handle_toHandle handlef.get_put)
  qed
next
  fix r show "suffix (rest (snd (get_outshare_uid y r))) (rest r)"
    by (cases y) (auto simp: get_outshare_uid_def intro!: rthen_rret_suffix handlef.get_suffix binaryf.get_suffix)
next
  fix x p n
  assume x: "outshare_uid (snd x) \<and> outshare_hdr x = y" and p: "strict_prefix p (put_outshare_uid uh0 [] x)"
  from x have "outshare_uid (snd x)" by simp
  then show "fst (get_outshare_uid y \<lparr>rest = p, fieldnum = n\<rparr>) = None"
  proof (cases rule: outshare_uid_cases)
    case 1
    then show ?thesis using x p
      by (cases x) (auto simp: get_outshare_uid_def put_outshare_uid_def outshare_hdr_def word_neq_0_conv
        intro!: rthen_truncated binaryf.get_truncated)
  next
    case (2 uh)
    then show ?thesis using x p
      by (cases x) (auto simp: get_outshare_uid_def put_outshare_uid_def outshare_hdr_def
        intro!: rthen_truncated handlef.get_truncated)
  qed
qed

interpretation outshare: dep_codec "\<lambda>d (len, h). serializenodehandle (serializebyte d len) h"
  "rthen unserializebyte (\<lambda>len. rthen unserializenodehandle (\<lambda>h. rret (len, h)))"
  "\<lambda>(len, h). True \<and> is_nodehandle h" "\<lambda>(len, h). 1 + 1"
  outshare_hdr "put_outshare_uid uh0" get_outshare_uid "\<lambda>x. outshare_uid (snd x)" "\<lambda>_. 1" for uh0
  by (intro dep_codec.intro dep_codec_axioms.intro outshare_hdr.field_codec_axioms outshare_body)

text \<open>What is written of a set of pending outshares: uids of neither form and empty sets are dropped.\<close>

definition outshares_written :: "(handle, bytes list) smap \<Rightarrow> (handle, bytes list) smap" where
  "outshares_written m =
    filter (\<lambda>(h, us). us \<noteq> []) (map (\<lambda>(h, us). (h, filter (\<lambda>u. outshare_len u \<noteq> None) us)) m)"

definition outshare_pairs :: "(handle, bytes list) smap \<Rightarrow> (handle \<times> bytes) list" where
  "outshare_pairs m = concat (map (\<lambda>(h, us). map (Pair h) us) m)"

lemma foldl_put_outshare_skip:
  "foldl (\<lambda>d u. put_outshare uh0 d (h, u)) d us =
   foldl (put_outshare uh0) d (map (Pair h) (filter (\<lambda>u. outshare_len u \<noteq> None) us))"
  by (induction us arbitrary: d) (auto simp: put_outshare_def)

lemma serializePendingOutshares_eq:
  "serializePendingOutshares uh0 km = foldl (put_outshare uh0) [] (outshare_pairs (outshares_written (mPendingOutShares km)))"
proof -
  have "foldl (\<lambda>d (h, us). foldl (\<lambda>d u. put_outshare uh0 d (h, u)) d us) d m =
      foldl (put_outshare uh0) d (outshare_pairs (outshares_written m))" for d and m :: "(handle, bytes list) smap"
  proof (induction m arbitrary: d)
    case (Cons x m)
    then show ?case
      by (cases x) (auto simp: outshare_pairs_def outshares_written_def foldl_put_outshare_skip filter_empty_conv)
  qed (simp add: outshare_pairs_def outshares_written_def)
  then show ?thesis by (simp add: serializePendingOutshares_def)
qed

lemma put_outshare_eq:
  "outshare_len (snd x) \<noteq> None \<Longrightarrow>
   put_outshare uh0 d x = put_outshare_uid uh0 ((\<lambda>(len, h). serializenodehandle (serializebyte d len) h) (outshare_hdr x)) x"
  by (cases x) (auto simp: put_outshare_def put_outshare_uid_def outshare_hdr_def Let_def)

lemma map_update_at_end:
  "\<forall>x \<in> set m. fst x < h \<Longrightarrow> map_update h d f m = m @ [(h, f d)]"
  "\<forall>x \<in> set m. fst x < h \<Longrightarrow> map_update h d f (m @ [(h, v)]) = m @ [(h, f v)]"
proof -
  assume lt: "\<forall>x \<in> set m. fst x < h"
  then have none: "map_find m h = None" by (auto simp: map_find_def map_of_eq_None_iff)
  then show "map_update h d f m = m @ [(h, f d)]"
    using lt by (simp add: map_update_def map_set_at_end)
  have "map_set h w (m @ [(h, v)]) = m @ [(h, w)]" for w using lt by (induction m) fastforce+
  moreover have "map_find (m @ [(h, v)]) h = Some v" using none by (simp add: map_find_def map_add_def)
  ultimately show "map_update h d f (m @ [(h, v)]) = m @ [(h, f v)]" by (simp add: map_update_def)
qed

lemma fold_outshare_node:
  assumes "\<forall>x \<in> set m. fst x < h"
  shows "fold (\<lambda>u. map_update h [] (set_add u)) us (m @ [(h, s)]) = m @ [(h, fold set_add us s)]"
  using assms by (induction us arbitrary: s) (simp_all add: map_update_at_end(2))

lemma fold_outshare_pairs:
  assumes "map_wf m" "\<forall>(h, us) \<in> set m. us \<noteq> [] \<and> set_wf us"
  shows "fold (\<lambda>(h, u). map_update h [] (set_add u)) (outshare_pairs m) [] = m"
  using assms
proof (induction m rule: rev_induct)
  case (snoc x m)
  obtain h u us where x: "x = (h, u # us)" using snoc.prems(2) by (cases x; cases "snd x") auto
  have lt: "\<forall>y \<in> set m. fst y < h" using snoc.prems(1) x by (simp add: map_wf_append_entry)
  have IH: "fold (\<lambda>(h, u). map_update h [] (set_add u)) (outshare_pairs m) [] = m"
    using snoc x by (auto simp: map_wf_append_entry)
  have "fold set_add us [u] = u # us"
    using set_rebuild [of "u # us"] snoc.prems(2) x by simp
  then show ?case using IH x lt
    by (simp add: outshare_pairs_def fold_map comp_def map_update_at_end(1) fold_outshare_node)
qed (simp add: outshare_pairs_def)

lemma map_wf_outshares_written: "map_wf m \<Longrightarrow> map_wf (outshares_written m)"
  unfolding outshares_written_def
  by (rule map_wf_filter) (simp add: map_wf_def comp_def case_prod_beta')

lemma outshares_roundtrip:
  assumes "map_wf (mPendingOutShares km)"
    and "\<forall>(h, us) \<in> set (mPendingOutShares km). is_nodehandle h \<and> set_wf us \<and>
      (\<forall>u \<in> set us. outshare_uid u \<or> outshare_len u = None)"
  shows "deserializePendingOutshares km' (serializePendingOutshares uh0 km) =
    Some (km'\<lparr>mPendingOutShares := outshares_written (mPendingOutShares km)\<rparr>)"
proof -
  let ?m = "outshares_written (mPendingOutShares km)"
  let ?put = "\<lambda>d y. put_outshare_uid uh0 (case outshare_hdr y of (len, h) \<Rightarrow> serializenodehandle (serializebyte d len) h) y"
  have w: "\<forall>(h, us) \<in> set ?m. us \<noteq> [] \<and> set_wf us \<and> is_nodehandle h \<and>
      (\<forall>u \<in> set us. outshare_uid u \<and> outshare_len u \<noteq> None)"
    using assms(2) by (fastforce simp: outshares_written_def intro: set_wf_filter)
  then have ok: "\<forall>x \<in> set (outshare_pairs ?m). (case outshare_hdr x of (len, h) \<Rightarrow> True \<and> is_nodehandle h) \<and> outshare_uid (snd x)"
    by (auto simp: outshare_pairs_def outshare_hdr_def)
  have "foldl (put_outshare uh0) d xs = foldl ?put d xs" if "\<forall>x \<in> set xs. outshare_len (snd x) \<noteq> None" for d xs
    using that by (induction xs arbitrary: d) (simp_all add: put_outshare_eq)
  moreover have "\<forall>x \<in> set (outshare_pairs ?m). outshare_len (snd x) \<noteq> None"
    using w by (auto simp: outshare_pairs_def)
  ultimately have ser: "serializePendingOutshares uh0 km = foldl ?put [] (outshare_pairs ?m)"
    by (simp add: serializePendingOutshares_eq)
  have "get_outshare = rthen (rthen unserializebyte (\<lambda>len. rthen unserializenodehandle (\<lambda>h. rret (len, h)))) get_outshare_uid"
    by (simp add: get_outshare_def get_outshare_uid_def [abs_def])
  moreover have "fold (\<lambda>(h, u). map_update h [] (set_add u)) (outshare_pairs ?m) [] = ?m"
    using w by (intro fold_outshare_pairs map_wf_outshares_written assms(1)) auto
  ultimately show ?thesis
    using outshare.read_all_puts [OF ok, where upd = "\<lambda>(h, u). map_update h [] (set_add u)" and s = "[]" and ?uh0.0 = uh0]
    by (simp add: deserializePendingOutshares_def ser)
qed

subsection \<open>Pending inshares and warnings\<close>

lemma map_rebuild_values: "map_wf m \<Longrightarrow> fold (\<lambda>(k, v). map_set k (f v)) m [] = map (\<lambda>(k, v). (k, f v)) m"
proof -
  assume "map_wf m"
  then have "map_wf (map (\<lambda>(k, v). (k, f v)) m)" by (simp add: map_wf_def comp_def case_prod_beta')
  from map_rebuild [OF this] show ?thesis by (simp add: fold_map comp_def case_prod_beta')
qed

lemma read_inshare_put: "read_inshare (serializebinary (serializehandle [] uh) k) = Some (uh, k)"
proof -
  have "unserializebinary (length k) \<lparr>rest = k, fieldnum = n\<rparr> = (Some k, \<lparr>rest = [], fieldnum = n + 1\<rparr>)" for n
    using binaryf.get_put [of k "length k" "[]" n] by (simp add: serializebinary_def)
  then show ?thesis using handlef.get_put [of uh k 0]
    by (simp add: read_inshare_def new_reader_def serializebinary_def serializehandle_def)
qed

lemma read_inshares_put:
  "read_inshares (map (\<lambda>(t, uh, k). (t, serializebinary (serializehandle [] uh) k)) m) acc =
   Some (fold (\<lambda>(t, x). map_set t x) m acc)"
  by (induction m arbitrary: acc) (auto simp: read_inshare_put)

lemma inshares_roundtrip:
  assumes wf: "map_wf (mPendingInShares km)"
    and ok: "\<forall>(t, uh, k) \<in> set (mPendingInShares km). length t < 256 \<and> length k < 4294967288"
  shows "deserializePendingInshares km' (serializePendingInshares km) =
    Some (km'\<lparr>mPendingInShares := mPendingInShares km\<rparr>)"
proof -
  let ?vs = "map (\<lambda>(t, uh, k). (t, serializebinary (serializehandle [] uh) k)) (mPendingInShares km)"
  have "fold (\<lambda>(tag, uh, k). map_set tag (serializebinary (serializehandle [] uh) k)) (mPendingInShares km) [] = ?vs"
    using map_rebuild_values [OF wf, of "\<lambda>(uh, k). serializebinary (serializehandle [] uh) k"]
    by (simp add: case_prod_beta')
  moreover have "map_wf ?vs" using wf by (simp add: map_wf_def comp_def case_prod_beta')
  moreover have "\<forall>(t, v) \<in> set ?vs. length t < 256 \<and> length v < 4294967296"
    using ok by (auto simp: serializebinary_def serializehandle_def)
  ultimately show ?thesis
    by (simp add: deserializePendingInshares_def serializePendingInshares_def ltlv_roundtrip
      read_inshares_put map_rebuild wf)
qed

lemma warnings_roundtrip:
  assumes "map_wf (mWarnings km)" "\<forall>(t, v) \<in> set (mWarnings km). length t < 256 \<and> length v < 4294967296"
  shows "deserializeWarnings km' (serializeWarnings km) = Some (km'\<lparr>mWarnings := mWarnings km\<rparr>)"
  using assms by (simp add: deserializeWarnings_def serializeWarnings_def ltlv_roundtrip)

section \<open>Reading the container\<close>

lemma length_tagHeader [simp]: "length (tagHeader tag len) = 4"
  by (simp add: tagHeader_def)

lemma record_len_tagHeader: "n < 16777216 \<Longrightarrow> record_len (tagHeader tag (of_nat n) @ t) = n"
proof -
  assume n: "n < 16777216"
  have b: "drop_bit 16 (w AND 0xFF0000) = take_bit 8 (drop_bit 16 w)" "drop_bit 8 (w AND 0xFF00) = take_bit 8 (drop_bit 8 w)"
    "w AND 0xFF = take_bit 8 w" for w :: u64
  proof -
    have m: "(0xFF0000 :: u64) = push_bit 16 (mask 8)" "(0xFF00 :: u64) = push_bit 8 (mask 8)" "(0xFF :: u64) = mask 8"
      by (simp_all add: mask_eq_exp_minus_1 push_bit_eq_mult)
    show "drop_bit 16 (w AND 0xFF0000) = take_bit 8 (drop_bit 16 w)" "drop_bit 8 (w AND 0xFF00) = take_bit 8 (drop_bit 8 w)"
      "w AND 0xFF = take_bit 8 w"
      unfolding m by (rule bit_word_eqI; auto simp: bit_simps)+
  qed
  have u: "unat (ucast (take_bit 8 w :: u64) :: byte) = unat w mod 256" for w :: u64
  proof -
    have "unat (ucast (take_bit 8 w :: u64) :: byte) = take_bit 8 (take_bit 8 (unat w))"
      by (simp add: unsigned_ucast_eq unsigned_take_bit_eq del: take_bit_take_bit)
    then show ?thesis by (simp add: take_bit_eq_mod)
  qed
  have d: "unat (drop_bit k (of_nat n :: u64)) = n div 2 ^ k" for k
  proof -
    have "unat (of_nat n :: u64) = n" using n by (simp add: unat_of_nat)
    then have "unat (drop_bit k (of_nat n :: u64)) = drop_bit k n"
      using n by (simp add: unsigned_drop_bit_eq take_bit_nat_eq_self)
    then show ?thesis by (simp add: drop_bit_eq_div)
  qed
  have "unat (of_nat n :: u64) = n" using d [of 0] by simp
  then have "record_len (tagHeader tag (of_nat n) @ t) = (n div 65536 mod 256) * 65536 + (n div 256 mod 256) * 256 + n mod 256"
    by (simp add: record_len_def tagHeader_def b u d)
  also have "\<dots> = n"
    using n mod_mult2_eq [of n 256 256] div_mult_mod_eq [of n 65536] by simp
  finally show ?thesis .
qed

text \<open>One well-formed record at the front of the input.\<close>

lemma km_unserialize_record:
  assumes "length body < 16777216" "n = length body"
  shows "km_unserialize km (tagHeader tag (of_nat n) @ body @ t) =
    (case km_record km tag body (tagHeader tag (of_nat n) @ body) of
       None \<Rightarrow> None | Some km' \<Rightarrow> km_unserialize km' t)"
proof -
  have "record_len (tagHeader tag (of_nat n) @ body @ t) = length body" using assms by (simp add: record_len_tagHeader)
  moreover have "(tagHeader tag (of_nat n) @ body @ t) ! 0 = tag" by (simp add: tagHeader_def)
  moreover have "drop (4 + length body) (tagHeader tag (of_nat n) @ body @ t) = t"
    by (metis append_assoc append_eq_conv_conj length_append length_tagHeader)
  moreover have "drop 4 (tagHeader tag (of_nat n) @ body @ t) = body @ t" by simp
  ultimately show ?thesis
    by (subst km_unserialize.simps) (simp add: Let_def del: drop_append split: option.split)
qed

lemma km_unserialize_short: "length blob < 4 \<Longrightarrow> km_unserialize km blob = Some km"
  by (subst km_unserialize.simps) simp

text \<open>Records of newer versions, kept as they came.\<close>

definition known_tag :: "byte \<Rightarrow> bool" where
  "known_tag tag \<longleftrightarrow> tag \<in> {TAG_VERSION, TAG_CREATION_TIME, TAG_IDENTITY, TAG_GENERATION, TAG_ATTR,
     TAG_PRIV_ED25519, TAG_PRIV_CU25519, TAG_PRIV_RSA, TAG_AUTHRING_ED25519, TAG_AUTHRING_CU25519,
     TAG_SHAREKEYS, TAG_PENDING_OUTSHARES, TAG_PENDING_INSHARES, TAG_BACKUPS, TAG_WARNINGS}"

function other_records :: "bytes \<Rightarrow> bool" where
  "other_records blob \<longleftrightarrow>
    (if length blob < 4 then blob = []
     else 4 + record_len blob \<le> length blob \<and> \<not> known_tag (blob ! 0) \<and>
       other_records (drop (4 + record_len blob) blob))"
  by pat_completeness auto
termination by (relation "measure length") auto

declare other_records.simps [simp del]

lemma other_records_Nil [simp]: "other_records []"
  by (subst other_records.simps) simp

lemma km_record_other: "\<not> known_tag tag \<Longrightarrow> km_record km tag body rec = Some (km\<lparr>mOther := mOther km @ rec\<rparr>)"
  by (simp add: km_record_def known_tag_def)

lemma km_unserialize_other:
  "other_records blob \<Longrightarrow> km_unserialize km blob = Some (km\<lparr>mOther := mOther km @ blob\<rparr>)"
proof (induction blob arbitrary: km rule: other_records.induct)
  case (1 blob)
  show ?case
  proof (cases "blob = []")
    case False
    then have b: "4 \<le> length blob" "4 + record_len blob \<le> length blob" "\<not> known_tag (blob ! 0)"
      "other_records (drop (4 + record_len blob) blob)"
      using "1.prems" other_records.simps [of blob] by (auto split: if_splits)
    then have IH: "km_unserialize k (drop (4 + record_len blob) blob) =
        Some (k\<lparr>mOther := mOther k @ drop (4 + record_len blob) blob\<rparr>)" for k
      using "1.IH" b by simp
    from b show ?thesis
      by (subst km_unserialize.simps) (simp add: Let_def km_record_other IH)
  qed (simp add: km_unserialize_short)
qed

text \<open>Well-formed contents: what the container can represent.\<close>

definition fits :: "bytes \<Rightarrow> bool" where
  "fits s \<longleftrightarrow> length s < 16777216"

definition km_wf :: "key_manager \<Rightarrow> bool" where
  "km_wf km \<longleftrightarrow>
     length (mPrivEd25519 km) = 32 \<and> length (mPrivCu25519 km) = 32 \<and>
     fits (mAttr km) \<and> fits (mPrivRSA km) \<and> fits (mAuthEd25519 km) \<and> fits (mAuthCu25519 km) \<and>
     fits (mBackups km) \<and> fits (serializeShareKeys km) \<and> fits (serializePendingOutshares 0 km) \<and>
     fits (serializePendingInshares km) \<and> fits (serializeWarnings km) \<and>
     map_wf (mShareKeys km) \<and> (\<forall>(h, k, f) \<in> set (mShareKeys km). is_nodehandle h \<and> length k = 16) \<and>
     map_wf (mPendingOutShares km) \<and> (\<forall>(h, us) \<in> set (mPendingOutShares km). is_nodehandle h \<and> set_wf us \<and>
       (\<forall>u \<in> set us. outshare_uid u \<or> outshare_len u = None)) \<and>
     map_wf (mPendingInShares km) \<and> (\<forall>(t, uh, k) \<in> set (mPendingInShares km). length t < 256 \<and> length k < 4294967288) \<and>
     map_wf (mWarnings km) \<and> (\<forall>(t, v) \<in> set (mWarnings km). length t < 256 \<and> length v < 4294967296) \<and>
     other_records (mOther km)"

lemma km_record_simps:
  "km_record km TAG_VERSION [v] r = Some (km\<lparr>mVersion := v\<rparr>)"
  "km_record km TAG_CREATION_TIME (le_bytes 4 (htonl t)) r = Some (km\<lparr>mCreationTime := t\<rparr>)"
  "km_record km TAG_IDENTITY (le_bytes 8 h) r = Some (km\<lparr>mIdentity := h\<rparr>)"
  "km_record km TAG_GENERATION (le_bytes 4 (htonl g)) r = Some (km\<lparr>mGeneration := g\<rparr>)"
  "km_record km TAG_ATTR b r = Some (km\<lparr>mAttr := b\<rparr>)"
  "length b = 32 \<Longrightarrow> km_record km TAG_PRIV_ED25519 b r = Some (km\<lparr>mPrivEd25519 := b\<rparr>)"
  "length b = 32 \<Longrightarrow> km_record km TAG_PRIV_CU25519 b r = Some (km\<lparr>mPrivCu25519 := b\<rparr>)"
  "km_record km TAG_PRIV_RSA b r = Some (km\<lparr>mPrivRSA := b\<rparr>)"
  "km_record km TAG_AUTHRING_ED25519 b r = Some (km\<lparr>mAuthEd25519 := b\<rparr>)"
  "km_record km TAG_AUTHRING_CU25519 b r = Some (km\<lparr>mAuthCu25519 := b\<rparr>)"
  "km_record km TAG_SHAREKEYS b r = deserializeShareKeys km b"
  "km_record km TAG_PENDING_OUTSHARES b r = deserializePendingOutshares km b"
  "km_record km TAG_PENDING_INSHARES b r = deserializePendingInshares km b"
  "km_record km TAG_BACKUPS b r = Some (km\<lparr>mBackups := b\<rparr>)"
  "km_record km TAG_WARNINGS b r = deserializeWarnings km b"
  by (simp_all add: km_record_def le_word_le_bytes_full deserializeBackups_def)

lemma length_serializePendingOutshares:
  "length (serializePendingOutshares uh0 km) = length (serializePendingOutshares uh1 km)"
proof -
  have step: "length d = length d' \<Longrightarrow> length (put_outshare uh0 d x) = length (put_outshare uh1 d' x)" for d d' x
    by (auto simp: put_outshare_def serializebinary_def serializehandle_def serializenodehandle_def
        serializebyte_def Let_def split: prod.split option.split)
  have "length d = length d' \<Longrightarrow> length (foldl (put_outshare uh0) d xs) = length (foldl (put_outshare uh1) d' xs)" for d d' xs
  proof (induction xs arbitrary: d d')
    case (Cons x xs)
    from Cons.IH [OF step [OF Cons.prems]] show ?case by simp
  qed simp
  then show ?thesis by (simp add: serializePendingOutshares_eq)
qed

text \<open>Everything written is read back.\<close>

fun records_bytes :: "(byte \<times> bytes) list \<Rightarrow> bytes" where
  "records_bytes [] = []"
| "records_bytes ((tag, body) # rs) = tagHeader tag (of_nat (length body)) @ body @ records_bytes rs"

fun km_records :: "key_manager \<Rightarrow> (byte \<times> bytes) list \<Rightarrow> key_manager option" where
  "km_records km [] = Some km"
| "km_records km ((tag, body) # rs) =
    (case km_record km tag body (tagHeader tag (of_nat (length body)) @ body) of
       None \<Rightarrow> None | Some km' \<Rightarrow> km_records km' rs)"

lemma km_unserialize_records:
  "\<forall>(tag, body) \<in> set rs. fits body \<Longrightarrow>
   km_unserialize km (records_bytes rs @ t) = (case km_records km rs of None \<Rightarrow> None | Some km' \<Rightarrow> km_unserialize km' t)"
proof (induction rs arbitrary: km)
  case (Cons r rs)
  then show ?case
    by (cases r) (simp add: km_unserialize_record fits_def split: option.split)
qed simp

definition km_fields :: "handle \<Rightarrow> key_manager \<Rightarrow> (byte \<times> bytes) list" where
  "km_fields uh0 km =
    [(TAG_VERSION, le_bytes 1 (mVersion km)), (TAG_CREATION_TIME, le_bytes 4 (htonl (mCreationTime km))),
     (TAG_IDENTITY, le_bytes 8 (mIdentity km)), (TAG_GENERATION, le_bytes 4 (htonl (mGeneration km + 1))),
     (TAG_ATTR, mAttr km), (TAG_PRIV_ED25519, mPrivEd25519 km), (TAG_PRIV_CU25519, mPrivCu25519 km),
     (TAG_PRIV_RSA, mPrivRSA km), (TAG_AUTHRING_ED25519, mAuthEd25519 km), (TAG_AUTHRING_CU25519, mAuthCu25519 km),
     (TAG_SHAREKEYS, serializeShareKeys km), (TAG_PENDING_OUTSHARES, serializePendingOutshares uh0 km),
     (TAG_PENDING_INSHARES, serializePendingInshares km), (TAG_BACKUPS, mBackups km),
     (TAG_WARNINGS, serializeWarnings km)]"

lemma km_serialize_records:
  "length (mPrivEd25519 km) = 32 \<Longrightarrow> length (mPrivCu25519 km) = 32 \<Longrightarrow>
   km_serialize uh0 km = records_bytes (km_fields uh0 km) @ mOther km"
  by (simp add: km_serialize_def km_fields_def Let_def serializeBackups_def)

lemma km_fields_fit: "km_wf km \<Longrightarrow> \<forall>(tag, body) \<in> set (km_fields uh0 km). fits body"
  using length_serializePendingOutshares [of uh0 km 0] by (simp add: km_fields_def km_wf_def fits_def)

lemma km_records_fields:
  assumes wf: "km_wf km"
  shows "km_records km0 (km_fields uh0 km) =
    Some (km\<lparr>mManualVerification := mManualVerification km0, mPostRegistration := mPostRegistration km0,
      mDowngradeAttack := mDowngradeAttack km0, mGeneration := mGeneration km + 1,
      mPendingOutShares := outshares_written (mPendingOutShares km), mOther := mOther km0\<rparr>)"
proof -
  have nested: "deserializeShareKeys k (serializeShareKeys km) = Some (k\<lparr>mShareKeys := mShareKeys km\<rparr>)"
    "deserializePendingOutshares k (serializePendingOutshares uh0 km) =
      Some (k\<lparr>mPendingOutShares := outshares_written (mPendingOutShares km)\<rparr>)"
    "deserializePendingInshares k (serializePendingInshares km) = Some (k\<lparr>mPendingInShares := mPendingInShares km\<rparr>)"
    "deserializeWarnings k (serializeWarnings km) = Some (k\<lparr>mWarnings := mWarnings km\<rparr>)" for k
    using wf unfolding km_wf_def
    by - (elim conjE, intro share_keys_roundtrip outshares_roundtrip inshares_roundtrip warnings_roundtrip, assumption+)+
  have "length (mPrivEd25519 km) = 32" "length (mPrivCu25519 km) = 32" using wf by (simp_all add: km_wf_def)
  then show ?thesis by (simp add: km_fields_def km_record_simps nested)
qed

section \<open>The invariant\<close>

definition km_inv :: "key_manager \<Rightarrow> bool" where
  "km_inv km \<longleftrightarrow> map_wf (mShareKeys km) \<and> map_wf (mPendingOutShares km) \<and> map_wf (mPendingInShares km) \<and>
     map_wf (mWarnings km) \<and> (\<forall>(h, us) \<in> set (mPendingOutShares km). set_wf us) \<and> other_records (mOther km)"

definition outshares_inv :: "(handle, bytes list) smap \<Rightarrow> bool" where
  "outshares_inv m \<longleftrightarrow> map_wf m \<and> (\<forall>(h, us) \<in> set m. set_wf us)"

lemma outshares_inv_update:
  assumes "outshares_inv m" "\<And>us. set_wf us \<Longrightarrow> set_wf (f us)"
  shows "outshares_inv (map_update h [] f m)"
proof -
  have "set_wf (f (case map_find m h of None \<Rightarrow> [] | Some us \<Rightarrow> us))"
    using assms by (auto simp: outshares_inv_def map_find_in_set split: option.split)
  then show ?thesis
    using assms set_map_set_subset [of h "f (case map_find m h of None \<Rightarrow> [] | Some us \<Rightarrow> us)" m]
    by (auto simp: outshares_inv_def map_wf_map_update map_update_def map_wf_map_set)
qed

lemma km_inv_alt: "km_inv km \<longleftrightarrow> map_wf (mShareKeys km) \<and> outshares_inv (mPendingOutShares km) \<and>
    map_wf (mPendingInShares km) \<and> map_wf (mWarnings km) \<and> other_records (mOther km)"
  by (auto simp: km_inv_def outshares_inv_def)

lemma outshares_inv_Nil [simp]: "outshares_inv []"
  by (simp add: outshares_inv_def)

lemma other_records_append: "other_records a \<Longrightarrow> other_records b \<Longrightarrow> other_records (a @ b)"
proof (induction a rule: other_records.induct)
  case (1 a)
  show ?case
  proof (cases "length a < 4")
    case True
    then have "a = []" using "1.prems"(1) other_records.simps [of a] by simp
    then show ?thesis using "1.prems" by simp
  next
    case False
    then have a: "4 + record_len a \<le> length a" "\<not> known_tag (a ! 0)" "other_records (drop (4 + record_len a) a)"
      using "1.prems"(1) other_records.simps [of a] by simp_all
    have r: "record_len (a @ b) = record_len a" "(a @ b) ! 0 = a ! 0"
      using False by (auto simp: record_len_def nth_append)
    have "other_records (drop (4 + record_len a) a @ b)" using "1.IH" "1.prems"(2) a False by simp
    then show ?thesis using a r False by (subst other_records.simps) simp
  qed
qed

lemma other_records_single:
  assumes "4 \<le> length blob" "4 + record_len blob \<le> length blob" "\<not> known_tag (blob ! 0)"
  shows "other_records (take (4 + record_len blob) blob)"
proof -
  have "record_len (take (4 + record_len blob) blob) = record_len blob"
    using assms by (simp add: record_len_def)
  then show ?thesis using assms by (subst other_records.simps) simp
qed

lemma read_inshares_wf: "read_inshares kvs m = Some m' \<Longrightarrow> map_wf m \<Longrightarrow> map_wf m'"
  by (induction kvs m rule: read_inshares.induct) (auto simp: map_wf_map_set split: option.splits)

lemma deserializeFromLTLV_wf: "deserializeFromLTLV blob m = Some m' \<Longrightarrow> map_wf m \<Longrightarrow> map_wf m'"
  unfolding deserializeFromLTLV_def
  by (erule read_all_invariant [where P = map_wf]) (auto simp: map_wf_map_set)

lemma km_inv_nested:
  "km_inv km \<Longrightarrow> deserializeShareKeys km b = Some km' \<Longrightarrow> km_inv km'"
  "km_inv km \<Longrightarrow> deserializePendingOutshares km b = Some km' \<Longrightarrow> km_inv km'"
  "km_inv km \<Longrightarrow> deserializePendingInshares km b = Some km' \<Longrightarrow> km_inv km'"
  "km_inv km \<Longrightarrow> deserializeWarnings km b = Some km' \<Longrightarrow> km_inv km'"
proof -
  have 1: "map_wf m" if "read_all get_share_key (\<lambda>(h, kf). map_set h kf) b [] = Some m" for m
    using that by (rule read_all_invariant) (auto simp: map_wf_map_set)
  have 2: "outshares_inv m" if "read_all get_outshare (\<lambda>(h, u). map_update h [] (set_add u)) b [] = Some m" for m
    using that by (rule read_all_invariant) (auto intro!: outshares_inv_update simp: set_wf_set_add)
  have 3: "map_wf m" if "deserializeFromLTLV b [] = Some kvs" "read_inshares kvs [] = Some m" for kvs m
    using that by (simp add: read_inshares_wf)
  have 4: "map_wf m" if "deserializeFromLTLV b [] = Some m" for m
    using that by (rule deserializeFromLTLV_wf) simp
  show "km_inv km \<Longrightarrow> deserializeShareKeys km b = Some km' \<Longrightarrow> km_inv km'"
    using 1 by (auto simp: deserializeShareKeys_def km_inv_alt)
  show "km_inv km \<Longrightarrow> deserializePendingOutshares km b = Some km' \<Longrightarrow> km_inv km'"
    using 2 by (auto simp: deserializePendingOutshares_def km_inv_alt)
  show "km_inv km \<Longrightarrow> deserializePendingInshares km b = Some km' \<Longrightarrow> km_inv km'"
    using 3 by (auto simp: deserializePendingInshares_def km_inv_alt split: option.splits)
  show "km_inv km \<Longrightarrow> deserializeWarnings km b = Some km' \<Longrightarrow> km_inv km'"
    using 4 by (auto simp: deserializeWarnings_def km_inv_alt)
qed

lemma km_inv_record:
  assumes "km_inv km" "km_record km tag body rec = Some km'" "\<not> known_tag tag \<Longrightarrow> other_records rec"
  shows "km_inv km'"
proof (cases "known_tag tag")
  case False
  then show ?thesis using assms by (auto simp: km_record_other km_inv_alt other_records_append)
next
  case True
  have [simp]: "km_inv (km\<lparr>mVersion := v\<rparr>)" "km_inv (km\<lparr>mCreationTime := t\<rparr>)" "km_inv (km\<lparr>mIdentity := i\<rparr>)"
    "km_inv (km\<lparr>mGeneration := g\<rparr>)" "km_inv (km\<lparr>mAttr := a\<rparr>)" "km_inv (km\<lparr>mPrivEd25519 := a\<rparr>)"
    "km_inv (km\<lparr>mPrivCu25519 := a\<rparr>)" "km_inv (km\<lparr>mPrivRSA := a\<rparr>)" "km_inv (km\<lparr>mAuthEd25519 := a\<rparr>)"
    "km_inv (km\<lparr>mAuthCu25519 := a\<rparr>)" "km_inv (km\<lparr>mBackups := a\<rparr>)" for v t i g a
    using assms(1) by (simp_all add: km_inv_def)
  from True assms(2) show ?thesis
    unfolding known_tag_def
    by (elim insertE emptyE; simp add: km_record_def deserializeBackups_def split: if_splits)
      (auto intro: km_inv_nested [OF assms(1)])
qed

lemma km_inv_unserialize: "km_unserialize km blob = Some km' \<Longrightarrow> km_inv km \<Longrightarrow> km_inv km'"
proof (induction km blob rule: km_unserialize.induct)
  case (1 km blob)
  show ?case
  proof (cases "length blob < 4")
    case True
    then show ?thesis using "1.prems" by (simp add: km_unserialize_short)
  next
    case False
    then obtain k where k: "4 + record_len blob \<le> length blob"
      "km_record km (blob ! 0) (take (record_len blob) (drop 4 blob)) (take (4 + record_len blob) blob) = Some k"
      "km_unserialize k (drop (4 + record_len blob) blob) = Some km'"
      using "1.prems"(1) by (subst (asm) km_unserialize.simps) (auto simp: Let_def split: if_splits option.splits)
    have "km_inv k"
      using False k by (intro km_inv_record [OF "1.prems"(2) k(2)] other_records_single) simp_all
    then show ?thesis using "1.IH" [OF False refl _ k(2) k(3)] k(1) by simp
  qed
qed

text \<open>The operations as steps; the user table may differ from one step to the next.\<close>

inductive km_reachable :: "key_manager \<Rightarrow> bool" where
  reach_new: "km_reachable new_key_manager"
| reach_addOut: "km_reachable km \<Longrightarrow> km_reachable (addPendingOutShare h u km)"
| reach_addIn: "km_reachable km \<Longrightarrow> km_reachable (addPendingInShare t uh k km)"
| reach_removeOut: "km_reachable km \<Longrightarrow> km_reachable (snd (removePendingOutShare finduser h u km))"
| reach_removeIn: "km_reachable km \<Longrightarrow> km_reachable (snd (removePendingInShare t km))"
| reach_addKey: "km_reachable km \<Longrightarrow> km_reachable (addShareKey h k secure km)"
| reach_inUse: "km_reachable km \<Longrightarrow> km_reachable (setSharekeyInUse h sent km)"
| reach_reset: "km_reachable km \<Longrightarrow> km_reachable (reset km)"
| reach_init: "km_reachable km \<Longrightarrow> km_reachable (km_init now me rsa_short ed cu prRSA km)"
| reach_read: "km_reachable km \<Longrightarrow> km_unserialize km blob = Some km' \<Longrightarrow> km_reachable km'"

lemma km_inv_erase_outshare: "km_inv km \<Longrightarrow> km_inv (snd (erase_outshare h u km))"
  by (auto simp: erase_outshare_def km_inv_alt set_wf_set_erase intro!: outshares_inv_update)

lemma km_inv_removePendingOutShare: "km_inv km \<Longrightarrow> km_inv (snd (removePendingOutShare finduser h u km))"
  using km_inv_erase_outshare
  by (auto simp: removePendingOutShare_def Let_def case_prod_beta' split: option.split)

section \<open>Properties\<close>

text \<open>C8: A key manager with representable contents, written with \<^verbatim>\<open>serialize\<close> and read by \<^verbatim>\<open>unserialize\<close> into a
  fresh manager, comes back with every field equal except three: the generation is one higher,
  pending outshares lose the entries the writer skips (ids that are neither an e-mail address nor
  a user handle, and nodes left without ids), and the session flags keep their own values.
  Records of unknown type travel unchanged.\<close>

theorem km_container_roundtrip:
  assumes "km_wf km" "mOther km0 = []"
  shows "km_unserialize km0 (km_serialize uh0 km) =
    Some (km\<lparr>mManualVerification := mManualVerification km0, mPostRegistration := mPostRegistration km0,
      mDowngradeAttack := mDowngradeAttack km0, mGeneration := mGeneration km + 1,
      mPendingOutShares := outshares_written (mPendingOutShares km)\<rparr>)"
  using assms
  by (simp add: km_serialize_records km_unserialize_records km_fields_fit km_records_fields km_wf_def
      km_unserialize_other)

definition sample_km :: key_manager where
  "sample_km = new_key_manager\<lparr>mVersion := 1, mGeneration := 7, mCreationTime := 305419896,
     mPrivEd25519 := replicate 32 5, mPrivCu25519 := replicate 32 9,
     mShareKeys := [(77, replicate 16 1, 3)],
     mPendingOutShares := [(77, [asc ''a@b''])],
     mPendingInShares := [(asc ''AQAAAAAA'', 12, replicate 16 8)],
     mWarnings := [(asc ''cv'', asc ''1'')], mOther := [200, 0, 0, 1, 42]\<rparr>"

theorem km_container_roundtrip_witness:
  "km_unserialize new_key_manager (km_serialize 0 sample_km) = Some (sample_km\<lparr>mGeneration := 8\<rparr>)"
proof -
  have "km_wf sample_km" by code_simp
  moreover have "mOther new_key_manager = []" by code_simp
  ultimately have "km_unserialize new_key_manager (km_serialize 0 sample_km) =
    Some (sample_km\<lparr>mManualVerification := mManualVerification new_key_manager, mPostRegistration := mPostRegistration new_key_manager,
      mDowngradeAttack := mDowngradeAttack new_key_manager, mGeneration := mGeneration sample_km + 1,
      mPendingOutShares := outshares_written (mPendingOutShares sample_km)\<rparr>)"
    by (rule km_container_roundtrip)
  moreover have "outshares_written (mPendingOutShares sample_km) = mPendingOutShares sample_km" by code_simp
  ultimately show ?thesis by (simp add: sample_km_def new_key_manager_def)
qed



text \<open>After a pending outshare is recorded for a user, the share is reported as unverified; after it is
  removed it is not, and the shares of other nodes keep their status.  The user table is only
  assumed to find a user under one of the two names stored for that user.\<close>

theorem pending_outshare_lifecycle:
  assumes "km_inv km" "\<And>w. finduser u = Some w \<Longrightarrow> u = email w \<or> u = uid w"
  shows "isUnverifiedOutShare finduser h u (addPendingOutShare h u km) \<and>
    \<not> isUnverifiedOutShare finduser h u (snd (removePendingOutShare finduser h u km)) \<and>
    (\<forall>h' v. h' \<noteq> h \<longrightarrow> isUnverifiedOutShare finduser h' v (snd (removePendingOutShare finduser h u km)) =
       isUnverifiedOutShare finduser h' v km)"
  using assms
  by (cases "finduser u"; cases "map_find (mPendingOutShares km) h")
    (auto simp: isUnverifiedOutShare_def addPendingOutShare_def removePendingOutShare_def erase_outshare_def
      map_find_map_update map_wf_map_update set_set_add set_set_erase list_ex_iff km_inv_def)

definition sample_finduser :: "bytes \<Rightarrow> user option" where
  "sample_finduser u =
    (if u = asc ''a@b'' \<or> u = asc ''BwAAAAAAAAA'' then Some \<lparr>userhandle = 7, email = asc ''a@b'', uid = asc ''BwAAAAAAAAA''\<rparr>
     else None)"

theorem pending_outshare_lifecycle_witness:
  "\<not> isUnverifiedOutShare sample_finduser 77 (asc ''BwAAAAAAAAA'')
     (snd (removePendingOutShare sample_finduser 77 (asc ''BwAAAAAAAAA'') sample_km))"
proof -
  have "km_inv sample_km" by code_simp
  moreover have "asc ''BwAAAAAAAAA'' = email w \<or> asc ''BwAAAAAAAAA'' = uid w"
    if "sample_finduser (asc ''BwAAAAAAAAA'') = Some w" for w
    using that by (auto simp: sample_finduser_def split: if_splits)
  ultimately show ?thesis using pending_outshare_lifecycle by blast
qed

text \<open>A pending-inshares or warnings record cut short is rejected unless the cut falls between two
  entries, and then exactly the entries before the cut are read.\<close>

theorem ltlv_truncation:
  assumes "map_wf m" "\<forall>(t, v) \<in> set m. length t < 256 \<and> length v < 4294967296"
    and "prefix p (serializeToLTLV m)" "deserializeFromLTLV p [] = Some m'"
  shows "\<exists>k \<le> length m. p = serializeToLTLV (take k m) \<and> m' = take k m"
proof -
  have ok: "\<forall>x \<in> set m. case x of (t, v) \<Rightarrow> length t < 256 \<and> length v < 4294967296" using assms(2) .
  obtain k where k: "k \<le> length m" "p = foldl (\<lambda>d (t, v). put_ltlv_value (put_ltlv_tag d t) v) [] (take k m)"
    "m' = fold (\<lambda>(t, v). map_set t v) (take k m) []"
    using ltlv.read_all_prefix [OF _ ok, of p "\<lambda>(tag, v). map_set tag v" "[]" m'] assms(3,4)
    by (auto simp: deserializeFromLTLV_def serializeToLTLV_def)
  have "map_wf (take k m)" using assms(1) by (simp add: map_wf_def sorted_wrt_take flip: take_map)
  then show ?thesis using k by (auto simp: serializeToLTLV_def map_rebuild)
qed

theorem ltlv_truncation_witness:
  "\<exists>k \<le> length [([97 :: byte], [5 :: byte]), ([98], [6])].
     [1, 97, 0, 1, 5] = serializeToLTLV (take k [([97], [5]), ([98], [6])]) \<and>
     [([97 :: byte], [5 :: byte])] = take k [([97], [5]), ([98], [6])]"
proof (rule ltlv_truncation)
  show "map_wf [([97 :: byte], [5 :: byte]), ([98], [6])]" by code_simp
  show "deserializeFromLTLV [1, 97, 0, 1, 5] [] = Some [([97], [5])]" by code_simp
  show "prefix [1, 97, 0, 1, 5] (serializeToLTLV [([97], [5]), ([98], [6])])" by code_simp
qed simp

end
