(* ===== verification/Mega_KeySync.thy ===== *)
theory Mega_KeySync
  imports Mega_KeyManager "HOL-Library.Multiset"
begin

text \<open>
  The part of \<^verbatim>\<open>KeyManager\<close> that talks to the client and the API: verification of contacts, promotion
  of pending shares, acceptance of a received \<^verbatim>\<open>^!keys\<close> container, and the queue of commits.  What
  belongs to other parts (the user and node tables, the authentication rings, the ciphers, the
  API's answers) is an argument.  The theorems: a share key is only ever encrypted for a contact
  whose verification is not pending and only dropped from the pending list when it has been sent;
  a container with a lower generation is refused and changes nothing; every commit is completed
  exactly once, in order, and none is left waiting without a request in flight.
\<close>

section \<open>The client as the manager sees it\<close>

record client =
  finduser :: "bytes \<Rightarrow> user option"
  areCredentialsVerified :: "handle \<Rightarrow> bool"
  authring_ed :: "(handle \<Rightarrow> int) option"
  authring_cu :: "(handle \<Rightarrow> int) option"
  computeSymmetricKey :: "handle \<Rightarrow> bytes"
  aes_encrypt :: "bytes \<Rightarrow> bytes \<Rightarrow> bytes"
  aes_decrypt :: "bytes \<Rightarrow> bytes \<Rightarrow> bytes"
  node_exists :: "handle \<Rightarrow> bool"
  isbelow :: "handle \<Rightarrow> handle \<Rightarrow> bool"
  nodesWithOutShares :: "(handle \<times> user option list option) list"
  usableInshare :: "handle \<Rightarrow> handle \<Rightarrow> bool"

abbreviation (input) AUTH_METHOD_SEEN :: int where "AUTH_METHOD_SEEN \<equiv> 0"
abbreviation (input) AUTH_METHOD_SIGNATURE :: int where "AUTH_METHOD_SIGNATURE \<equiv> 2"

text \<open>What leaves the manager: queued commands, new shares, the attribute to store, and callbacks.\<close>

datatype error = API_OK | API_EINTERNAL | API_EARGS | API_EINCOMPLETE | API_EEXPIRED | API_EOTHER nat

datatype effect =
    PendingKeys handle handle bytes
  | NewShareKey handle bytes
  | PutAttribute bytes
  | GetAttribute
  | Completion nat error

definition verificationRequired :: "client \<Rightarrow> key_manager \<Rightarrow> handle \<Rightarrow> bool" where
  "verificationRequired c km userHandle =
    (if mManualVerification km then \<not> areCredentialsVerified c userHandle
     else case authring_ed c of
         None \<Rightarrow> True
       | Some ed \<Rightarrow>
           if ed userHandle < AUTH_METHOD_SEEN then True
           else case authring_cu c of
               None \<Rightarrow> True
             | Some cu \<Rightarrow> cu userHandle \<noteq> AUTH_METHOD_SIGNATURE)"

definition encryptShareKeyTo :: "client \<Rightarrow> key_manager \<Rightarrow> handle \<Rightarrow> bytes \<Rightarrow> bytes" where
  "encryptShareKeyTo c km uh shareKey =
    (if verificationRequired c km uh then []
     else let sharedKey = computeSymmetricKey c uh in
       if sharedKey = [] then []
       else if length shareKey \<noteq> 16 then []
       else aes_encrypt c sharedKey shareKey)"

definition decryptShareKeyFrom :: "client \<Rightarrow> key_manager \<Rightarrow> handle \<Rightarrow> bytes \<Rightarrow> bytes" where
  "decryptShareKeyFrom c km uh key =
    (if verificationRequired c km uh then []
     else let sharedKey = computeSymmetricKey c uh in
       if sharedKey = [] then []
       else if length key \<noteq> 16 then []
       else aes_decrypt c sharedKey key)"

definition sendPendingKey :: "client \<Rightarrow> key_manager \<Rightarrow> handle \<Rightarrow> user \<Rightarrow> bool \<times> effect list" where
  "sendPendingKey c km nodehandle u =
    (case map_find (mShareKeys km) nodehandle of
       None \<Rightarrow> (False, [])
     | Some (k, _) \<Rightarrow>
         let encryptedKey = encryptShareKeyTo c km (userhandle u) k in
         if encryptedKey \<noteq> [] then (True, [PendingKeys (userhandle u) nodehandle encryptedKey]) else (False, []))"

definition propagateKeysForNestedShares :: "client \<Rightarrow> key_manager \<Rightarrow> handle \<Rightarrow> bytes list \<Rightarrow> effect list" where
  "propagateKeysForNestedShares c km promoted newShareeUids =
    (if \<not> node_exists c promoted then []
     else concat (map (\<lambda>(shared, outshares). case outshares of
         None \<Rightarrow> []
       | Some sharees \<Rightarrow>
           (if isbelow c promoted shared
            then concat (map (\<lambda>u. case u of
                None \<Rightarrow> []
              | Some existingSharee \<Rightarrow>
                  if verificationRequired c km (userhandle existingSharee) then []
                  else snd (sendPendingKey c km promoted existingSharee)) sharees)
            else []) @
           (if isbelow c shared promoted
            then concat (map (\<lambda>newShareeUID. case finduser c newShareeUID of
                None \<Rightarrow> []
              | Some newSharee \<Rightarrow> snd (sendPendingKey c km shared newSharee)) newShareeUids)
            else [])) (nodesWithOutShares c)))"

section \<open>Promotion of pending shares\<close>

text \<open>The sharees of one node: who gets the key now, and the commands queued for it.\<close>

fun promote_sharees :: "client \<Rightarrow> key_manager \<Rightarrow> handle \<Rightarrow> bytes list \<Rightarrow> bytes list \<times> effect list" where
  "promote_sharees c km nodehandle [] = ([], [])"
| "promote_sharees c km nodehandle (u # us) =
    (let (keysToDelete, es) = promote_sharees c km nodehandle us in
     case finduser c u of
       None \<Rightarrow> (keysToDelete, es)
     | Some w \<Rightarrow>
         if verificationRequired c km (userhandle w) then (keysToDelete, es)
         else let (sent, e) = sendPendingKey c km nodehandle w in
           if sent then (u # keysToDelete, e @ es) else (keysToDelete, es))"

definition promote_node :: "client \<Rightarrow> handle \<times> bytes list \<Rightarrow> key_manager \<times> bool \<times> effect list \<Rightarrow> key_manager \<times> bool \<times> effect list" where
  "promote_node c x s = (case x of (nodehandle, us) \<Rightarrow> case s of (km, updated, es) \<Rightarrow>
    (let (keysToDelete, sent) = promote_sharees c km nodehandle us;
         nested = (if keysToDelete \<noteq> [] then propagateKeysForNestedShares c km nodehandle keysToDelete else []);
         km' = fold (\<lambda>u km. snd (removePendingOutShare (finduser c) nodehandle u km)) keysToDelete km
     in (km', updated \<or> keysToDelete \<noteq> [], es @ sent @ nested)))"

definition inshare_handle :: "bytes \<Rightarrow> handle" where
  "inshare_handle t = le_word (atob t 6)"

definition promote_inshare ::
    "client \<Rightarrow> bytes \<times> handle \<times> bytes \<Rightarrow> key_manager \<times> bytes list \<times> effect list \<Rightarrow> key_manager \<times> bytes list \<times> effect list" where
  "promote_inshare c x s = (case x of (t, uh, key) \<Rightarrow> case s of (km, keysToDelete, es) \<Rightarrow>
    (let nodeHandle = inshare_handle t; skit = map_find (mShareKeys km) nodeHandle in
     if \<not> verificationRequired c km uh then
       let encryptedShareKey = (if length key > 16 then atob_str key else key);
           shareKey = decryptShareKeyFrom c km uh encryptedShareKey in
       if shareKey \<noteq> []
       then (addShareKey nodeHandle shareKey True km, keysToDelete @ [t], es @ [NewShareKey nodeHandle shareKey])
       else s
     else if usableInshare c nodeHandle uh \<and> skit \<noteq> None then (km, keysToDelete @ [t], es)
     else s))"

definition promotePendingShares :: "client \<Rightarrow> key_manager \<Rightarrow> bool \<times> key_manager \<times> effect list" where
  "promotePendingShares c km =
    (let (km1, updated, es1) = fold (promote_node c) (mPendingOutShares km) (km, False, []);
         (km2, keysToDelete, es2) = fold (promote_inshare c) (mPendingInShares km1) (km1, [], []);
         km3 = fold (\<lambda>t km. snd (removePendingInShare t km)) keysToDelete km2
     in (updated \<or> keysToDelete \<noteq> [], km3, es1 @ es2))"

section \<open>Commits\<close>

text \<open>
  A commit is a change to apply and an optional callback (a number here).  The manager itself only
  commits \<^verbatim>\<open>promotePendingShares\<close>; the changes of its clients are closures, here the argument
  \<open>closure\<close>.  Between calls at most one answer of the API is awaited.
\<close>

datatype change = Promote | Closure nat

datatype awaited = Nothing_awaited | Put_answer | Get_answer

record key_state =
  keys :: key_manager
  nextQueue :: "(change \<times> nat option) list"
  activeQueue :: "(change \<times> nat option) list"
  waiting :: awaited
  effects :: "effect list"

type_synonym closures = "nat \<Rightarrow> key_manager \<Rightarrow> key_manager"

definition new_key_state :: key_state where
  "new_key_state = \<lparr>keys = new_key_manager, nextQueue = [], activeQueue = [], waiting = Nothing_awaited, effects = []\<rparr>"

definition completion :: "error \<Rightarrow> nat option \<Rightarrow> effect list" where
  "completion e cb = (case cb of None \<Rightarrow> [] | Some n \<Rightarrow> [Completion n e])"

definition apply_change :: "client \<Rightarrow> closures \<Rightarrow> change \<Rightarrow> key_manager \<times> effect list \<Rightarrow> key_manager \<times> effect list" where
  "apply_change c closure chg s = (case s of (km, es) \<Rightarrow> (case chg of
     Promote \<Rightarrow> (let (_, km', es') = promotePendingShares c km in (km', es @ es'))
   | Closure n \<Rightarrow> (closure n km, es)))"

text \<open>\<^verbatim>\<open>toKeysContainer\<close>: \<open>iv\<close> is the random vector, \<open>gcm\<close> encrypts with the manager's key (\<open>None\<close>: failure).\<close>

definition toKeysContainer :: "(bytes \<Rightarrow> bytes \<Rightarrow> bytes option) \<Rightarrow> bytes \<Rightarrow> handle \<Rightarrow> key_manager \<Rightarrow> bytes" where
  "toKeysContainer gcm iv uh0 km =
    (if mVersion km = 0 then []
     else case gcm iv (km_serialize uh0 km) of
         None \<Rightarrow> []
       | Some keysCiphered \<Rightarrow> [20, 0] @ iv @ keysCiphered)"

text \<open>The container to store is the argument \<open>contain\<close> (\<^verbatim>\<open>toKeysContainer\<close> with its random vector chosen).\<close>

function (sequential) nextCommit :: "client \<Rightarrow> closures \<Rightarrow> (key_manager \<Rightarrow> bytes) \<Rightarrow> key_state \<Rightarrow> key_state"
  and tryCommit :: "client \<Rightarrow> closures \<Rightarrow> (key_manager \<Rightarrow> bytes) \<Rightarrow> error \<Rightarrow> key_state \<Rightarrow> key_state" where
  "nextCommit c closure contain st =
    (if nextQueue st \<noteq> []
     then tryCommit c closure contain API_EINCOMPLETE (st\<lparr>activeQueue := nextQueue st, nextQueue := []\<rparr>)
     else st)"
| "tryCommit c closure contain e st =
    (if e = API_OK \<or> mDowngradeAttack (keys st) \<or> e = API_EARGS
     then nextCommit c closure contain
       (st\<lparr>effects := effects st @ concat (map (\<lambda>(_, cb). completion e cb) (activeQueue st)), activeQueue := []\<rparr>)
     else let (km, es) = fold (\<lambda>(chg, _). apply_change c closure chg) (activeQueue st) (keys st, []) in
       st\<lparr>keys := km, effects := effects st @ es @ [PutAttribute (contain km)], waiting := Put_answer\<rparr>)"
  by pat_completeness auto
termination
  by (relation "measure (\<lambda>x. case x of Inl (c, closure, contain, st) \<Rightarrow> 2 * length (nextQueue st) + 1
      | Inr (c, closure, contain, e, st) \<Rightarrow> 2 * length (nextQueue st) + 2)")
    (auto simp flip: length_greater_0_conv)

declare nextCommit.simps [simp del] tryCommit.simps [simp del]

definition km_commit :: "client \<Rightarrow> closures \<Rightarrow> (key_manager \<Rightarrow> bytes) \<Rightarrow> change \<Rightarrow> nat option \<Rightarrow> key_state \<Rightarrow> key_state" where
  "km_commit c closure contain applyChanges cb st =
    (if mVersion (keys st) = 0 then st\<lparr>effects := effects st @ completion API_EINTERNAL cb\<rparr>
     else let st' = st\<lparr>nextQueue := nextQueue st @ [(applyChanges, cb)]\<rparr> in
       if activeQueue st' \<noteq> [] then st' else nextCommit c closure contain st')"

text \<open>
  The two callbacks of \<^verbatim>\<open>updateAttribute\<close>: the answer to the attribute's upload (with the own user's
  record still there or not), and, after a versioning clash, the answer to its download.
\<close>

definition put_answered :: "client \<Rightarrow> closures \<Rightarrow> (key_manager \<Rightarrow> bytes) \<Rightarrow> error \<Rightarrow> bool \<Rightarrow> key_state \<Rightarrow> key_state" where
  "put_answered c closure contain e ownUser st =
    (let st' = st\<lparr>waiting := Nothing_awaited\<rparr> in
     if e = API_OK then tryCommit c closure contain API_OK st'
     else if \<not> ownUser then tryCommit c closure contain API_OK st'
     else if e \<noteq> API_EEXPIRED then tryCommit c closure contain e st'
     else st\<lparr>waiting := Get_answer, effects := effects st @ [GetAttribute]\<rparr>)"

definition get_answered :: "client \<Rightarrow> closures \<Rightarrow> (key_manager \<Rightarrow> bytes) \<Rightarrow> error option \<Rightarrow> key_state \<Rightarrow> key_state" where
  "get_answered c closure contain err st =
    (let st' = st\<lparr>waiting := Nothing_awaited\<rparr> in
     case err of
       Some e \<Rightarrow> tryCommit c closure contain e st'
     | None \<Rightarrow> tryCommit c closure contain API_EEXPIRED st')"

section \<open>Receiving a container\<close>

text \<open>\<^verbatim>\<open>decodeRSAKey\<close> only concerns the client's cipher; its result is logged.\<close>

definition isValidKeysContainer :: "key_manager \<Rightarrow> key_manager \<Rightarrow> bool \<times> key_manager" where
  "isValidKeysContainer km self =
    (if mGeneration km < mGeneration self then (False, self\<lparr>mDowngradeAttack := True\<rparr>)
     else (True, self\<lparr>
       mPrivEd25519 := (if mPrivEd25519 self = [] then mPrivEd25519 km else mPrivEd25519 self),
       mPrivCu25519 := (if mPrivCu25519 self = [] then mPrivCu25519 km else mPrivCu25519 self),
       mPrivRSA := (if mPrivRSA self = [] \<and> \<not> length (mPrivRSA km) < 512 then mPrivRSA km else mPrivRSA self)\<rparr>))"

definition assign_values :: "key_manager \<Rightarrow> key_manager \<Rightarrow> key_manager" where
  "assign_values km self = self\<lparr>mVersion := mVersion km, mCreationTime := mCreationTime km, mIdentity := mIdentity km,
     mGeneration := mGeneration km, mAttr := mAttr km, mAuthEd25519 := mAuthEd25519 km, mAuthCu25519 := mAuthCu25519 km,
     mShareKeys := mShareKeys km, mPendingOutShares := mPendingOutShares km, mPendingInShares := mPendingInShares km,
     mBackups := mBackups km, mWarnings := mWarnings km, mOther := mOther km\<rparr>"

text \<open>
  \<open>c\<close> is the client after \<^verbatim>\<open>updateAuthring\<close> and \<^verbatim>\<open>loadShareKeys\<close> have put the new rings and keys in
  its tables.
\<close>

definition updateValues :: "client \<Rightarrow> closures \<Rightarrow> (key_manager \<Rightarrow> bytes) \<Rightarrow> key_manager \<Rightarrow> key_state \<Rightarrow> key_state" where
  "updateValues c closure contain km st =
    (let (promoted, self, es) = promotePendingShares c (assign_values km (keys st));
         st' = st\<lparr>keys := self, effects := effects st @ es\<rparr>
     in if promoted then km_commit c closure contain Promote None st' else st')"

text \<open>\<open>gcm_decrypt iv data\<close> is \<open>None\<close> when authentication fails.\<close>

definition fromKeysContainer ::
    "(bytes \<Rightarrow> bytes \<Rightarrow> bytes option) \<Rightarrow> client \<Rightarrow> closures \<Rightarrow> (key_manager \<Rightarrow> bytes) \<Rightarrow> bytes \<Rightarrow> key_state \<Rightarrow> bool \<times> key_state" where
  "fromKeysContainer gcm_decrypt c closure contain data st =
    (if length data > 2 \<and> data ! 0 = 20 \<and> length data > 2 + 12
     then case gcm_decrypt (take 12 (drop 2 data)) (drop 14 data) of
         None \<Rightarrow> (False, st)
       | Some keysPlain \<Rightarrow> (case km_unserialize new_key_manager keysPlain of
           None \<Rightarrow> (False, st)
         | Some km \<Rightarrow>
             (let (valid, self) = isValidKeysContainer km (keys st) in
              if valid then (True, updateValues c closure contain km (st\<lparr>keys := self\<rparr>))
              else (False, st\<lparr>keys := self\<rparr>)))
     else (False, st))"

section \<open>Promotion only serves verified contacts\<close>

text \<open>
  A command sent during promotion: its addressee needs no verification, and the key in it is a share
  key the manager holds for that node.
\<close>

definition key_command_ok :: "client \<Rightarrow> key_manager \<Rightarrow> effect \<Rightarrow> bool" where
  "key_command_ok c km e = (case e of
     PendingKeys uh nh k \<Rightarrow> \<not> verificationRequired c km uh \<and>
       (\<exists>sk f. map_find (mShareKeys km) nh = Some (sk, f) \<and> length sk = 16 \<and>
         k = aes_encrypt c (computeSymmetricKey c uh) sk)
   | NewShareKey nh k \<Rightarrow> True
   | _ \<Rightarrow> False)"

lemma sendPendingKey_ok: "e \<in> set (snd (sendPendingKey c km h u)) \<Longrightarrow> key_command_ok c km e"
  by (auto simp: sendPendingKey_def encryptShareKeyTo_def key_command_ok_def Let_def split: option.splits if_splits)

lemma sendPendingKey_sent:
  "fst (sendPendingKey c km h u) \<longleftrightarrow> (\<exists>k. PendingKeys (userhandle u) h k \<in> set (snd (sendPendingKey c km h u)))"
  by (auto simp: sendPendingKey_def Let_def split: option.split)

lemma propagate_ok: "e \<in> set (propagateKeysForNestedShares c km h us) \<Longrightarrow> key_command_ok c km e"
  by (auto simp: propagateKeysForNestedShares_def split: if_splits option.splits dest: sendPendingKey_ok)

lemma promote_sharees_ok: "e \<in> set (snd (promote_sharees c km h us)) \<Longrightarrow> key_command_ok c km e"
proof (induction us)
  case (Cons u us)
  then show ?case
    using sendPendingKey_ok [of e c km h]
    by (auto simp: Let_def case_prod_beta' split: option.splits if_splits)
qed simp

lemma promote_sharees_sent:
  "u \<in> set (fst (promote_sharees c km h us)) \<Longrightarrow> u \<in> set us \<and>
   (\<exists>w k. finduser c u = Some w \<and> PendingKeys (userhandle w) h k \<in> set (snd (promote_sharees c km h us)))"
proof (induction us)
  case (Cons v us)
  then show ?case
    using sendPendingKey_sent [of c km h]
    by (auto simp: Let_def case_prod_beta' split: option.splits if_splits)
qed simp

lemma promote_sharees_none: "fst (promote_sharees c km h us) = [] \<Longrightarrow> snd (promote_sharees c km h us) = []"
  by (induction us) (auto simp: Let_def case_prod_beta' split: option.splits if_splits)

text \<open>What removing pending outshares leaves alone.\<close>

definition same_outside_outshares :: "key_manager \<Rightarrow> key_manager \<Rightarrow> bool" where
  "same_outside_outshares km km' \<longleftrightarrow> km' = km\<lparr>mPendingOutShares := mPendingOutShares km'\<rparr>"

lemma same_outside_outshares_update:
  "same_outside_outshares km km' \<Longrightarrow> same_outside_outshares km (km'\<lparr>mPendingOutShares := m\<rparr>)"
  unfolding same_outside_outshares_def by (cases km; cases km') simp

lemma removePendingOutShare_outside:
  "same_outside_outshares km km' \<Longrightarrow> same_outside_outshares km (snd (removePendingOutShare fu h u km'))"
  by (auto simp: removePendingOutShare_def erase_outshare_def Let_def same_outside_outshares_update split: option.split)

lemma remove_all_outside:
  "same_outside_outshares km km' \<Longrightarrow>
   same_outside_outshares km (fold (\<lambda>u km. snd (removePendingOutShare fu h u km)) us km')"
  by (induction us arbitrary: km') (auto simp: removePendingOutShare_outside)

lemma outside_fields:
  assumes "same_outside_outshares km km'"
  shows "mShareKeys km' = mShareKeys km" "mManualVerification km' = mManualVerification km"
    "mPendingInShares km' = mPendingInShares km" "mGeneration km' = mGeneration km"
    "mDowngradeAttack km' = mDowngradeAttack km" "mVersion km' = mVersion km"
  using assms unfolding same_outside_outshares_def by (cases km; cases km'; simp)+

lemma key_command_ok_outside: "same_outside_outshares km km' \<Longrightarrow> key_command_ok c km' e = key_command_ok c km e"
  by (auto simp: key_command_ok_def verificationRequired_def outside_fields split: effect.split)

text \<open>The uids pending for a node, and how one removal changes them.\<close>

definition pending :: "key_manager \<Rightarrow> handle \<Rightarrow> bytes set" where
  "pending km h = (case map_find (mPendingOutShares km) h of None \<Rightarrow> {} | Some us \<Rightarrow> set us)"

definition names_of :: "client \<Rightarrow> bytes \<Rightarrow> bytes set" where
  "names_of c v = (case finduser c v of None \<Rightarrow> {v} | Some w \<Rightarrow> {email w, uid w})"

lemma pending_remove:
  "map_wf (mPendingOutShares km) \<Longrightarrow>
   pending (snd (removePendingOutShare (finduser c) h0 v km)) h = (if h = h0 then pending km h - names_of c v else pending km h)"
  by (auto simp: pending_def names_of_def removePendingOutShare_def erase_outshare_def Let_def map_find_map_update
      map_wf_map_update set_set_erase split: option.split)

lemma map_wf_remove:
  "map_wf (mPendingOutShares km) \<Longrightarrow> map_wf (mPendingOutShares (snd (removePendingOutShare fu h u km)))"
  by (auto simp: removePendingOutShare_def erase_outshare_def Let_def map_wf_map_update split: option.split)

lemma pending_removes:
  "map_wf (mPendingOutShares km) \<Longrightarrow>
   map_wf (mPendingOutShares (fold (\<lambda>u km. snd (removePendingOutShare (finduser c) h0 u km)) vs km)) \<and>
   pending (fold (\<lambda>u km. snd (removePendingOutShare (finduser c) h0 u km)) vs km) h =
     (if h = h0 then pending km h - (\<Union>v \<in> set vs. names_of c v) else pending km h)"
proof (induction vs arbitrary: km)
  case (Cons v vs)
  from Cons.IH [OF map_wf_remove [OF Cons.prems]] show ?case
    by (auto simp: pending_remove Cons.prems)
qed simp

text \<open>The loop over the nodes.\<close>

definition sent_for :: "client \<Rightarrow> key_manager \<Rightarrow> effect list \<Rightarrow> handle \<Rightarrow> bytes \<Rightarrow> bool" where
  "sent_for c km es h u \<longleftrightarrow>
    (\<exists>w k. (u = email w \<or> u = uid w) \<and> (\<exists>v. finduser c v = Some w) \<and> PendingKeys (userhandle w) h k \<in> set es)"

lemma promote_node_step:
  assumes "map_wf (mPendingOutShares km1)" "same_outside_outshares km km1" "promote_node c (h0, us) (km1, upd, es) = (km2, upd', es')"
  shows "map_wf (mPendingOutShares km2) \<and> same_outside_outshares km km2 \<and> set es \<subseteq> set es' \<and>
    (\<forall>e \<in> set es' - set es. key_command_ok c km e) \<and>
    (\<forall>h u. u \<in> pending km1 h \<longrightarrow> u \<notin> pending km2 h \<longrightarrow> sent_for c km es' h u) \<and>
    (upd \<longrightarrow> upd') \<and> (\<not> upd' \<longrightarrow> km2 = km1 \<and> es' = es)"
proof -
  obtain ks sent where p: "promote_sharees c km1 h0 us = (ks, sent)" by fastforce
  let ?nested = "if ks \<noteq> [] then propagateKeysForNestedShares c km1 h0 ks else []"
  have km2: "km2 = fold (\<lambda>u km. snd (removePendingOutShare (finduser c) h0 u km)) ks km1"
    and u: "upd' = (upd \<or> ks \<noteq> [])" and es': "es' = es @ sent @ ?nested"
    using assms(3) by (auto simp: promote_node_def p Let_def)
  have cmds: "\<forall>e \<in> set es' - set es. key_command_ok c km e"
    using promote_sharees_ok [of _ c km1 h0 us] propagate_ok [of _ c km1 h0 ks] key_command_ok_outside [OF assms(2)]
    by (auto simp: es' p split: if_splits)
  have del: "\<exists>w k. finduser c v = Some w \<and> PendingKeys (userhandle w) h0 k \<in> set es'" if "v \<in> set ks" for v
    using promote_sharees_sent [of v c km1 h0 us] that by (auto simp: es' p)
  have lost: "sent_for c km es' h x" if "x \<in> pending km1 h" "x \<notin> pending km2 h" for h x
  proof -
    have "h = h0" and "\<exists>v \<in> set ks. x \<in> names_of c v"
      using that pending_removes [OF assms(1), of c h0 ks h] by (auto simp: km2 split: if_splits)
    then obtain v w k where "v \<in> set ks" "x \<in> names_of c v" "finduser c v = Some w"
      "PendingKeys (userhandle w) h k \<in> set es'" using del by blast
    then show ?thesis by (auto simp: sent_for_def names_of_def)
  qed
  have "sent = []" if "ks = []" using promote_sharees_none [of c km1 h0 us] that p by simp
  then show ?thesis
    using pending_removes [OF assms(1), of c h0 ks] remove_all_outside [OF assms(2)] cmds lost u es' km2 by auto
qed

lemma promote_nodes:
  assumes "map_wf (mPendingOutShares km1)" "same_outside_outshares km km1" "fold (promote_node c) nodes (km1, upd, es) = (km2, upd', es')"
  shows "map_wf (mPendingOutShares km2) \<and> same_outside_outshares km km2 \<and> set es \<subseteq> set es' \<and>
    (\<forall>e \<in> set es' - set es. key_command_ok c km e) \<and>
    (\<forall>h u. u \<in> pending km1 h \<longrightarrow> u \<notin> pending km2 h \<longrightarrow> sent_for c km es' h u) \<and>
    (upd \<longrightarrow> upd') \<and> (\<not> upd' \<longrightarrow> km2 = km1 \<and> es' = es)"
  using assms
proof (induction nodes arbitrary: km1 upd es)
  case (Cons x nodes)
  obtain h0 us where x: "x = (h0, us)" by fastforce
  obtain k u e where s: "promote_node c (h0, us) (km1, upd, es) = (k, u, e)" by (metis prod_cases3)
  note step = promote_node_step [OF Cons.prems(1,2) s]
  have "fold (promote_node c) nodes (k, u, e) = (km2, upd', es')" using Cons.prems(3) x s by simp
  from Cons.IH [OF _ _ this] step
  have rest: "map_wf (mPendingOutShares km2)" "same_outside_outshares km km2" "set e \<subseteq> set es'"
    "\<forall>e' \<in> set es' - set e. key_command_ok c km e'"
    "\<forall>h v. v \<in> pending k h \<longrightarrow> v \<notin> pending km2 h \<longrightarrow> sent_for c km es' h v"
    "u \<longrightarrow> upd'" "\<not> upd' \<longrightarrow> km2 = k \<and> es' = e" by blast+
  have mono: "sent_for c km e h v \<Longrightarrow> sent_for c km es' h v" for h v
    using rest(3) by (auto simp: sent_for_def)
  have "\<forall>h v. v \<in> pending km1 h \<longrightarrow> v \<notin> pending km2 h \<longrightarrow> sent_for c km es' h v"
    using step rest(5) mono by blast
  moreover have "\<forall>e' \<in> set es' - set es. key_command_ok c km e'" using step rest(4) by blast
  moreover have "set es \<subseteq> set es'" using step rest(3) by blast
  moreover have "\<not> upd' \<longrightarrow> km2 = km1 \<and> es' = es" using step rest(6,7) by auto
  moreover have "upd \<longrightarrow> upd'" using step rest(6) by blast
  ultimately show ?case using rest(1,2) by blast
qed auto

text \<open>The loop over pending inshares only touches the share keys.\<close>

definition keeps_outshares :: "key_manager \<Rightarrow> key_manager \<Rightarrow> bool" where
  "keeps_outshares km km' \<longleftrightarrow> mPendingOutShares km' = mPendingOutShares km \<and> mManualVerification km' = mManualVerification km \<and>
     mGeneration km' = mGeneration km \<and> mDowngradeAttack km' = mDowngradeAttack km \<and> mVersion km' = mVersion km"

lemma promote_inshares:
  assumes "fold (promote_inshare c) xs (km1, ks, es) = (km2, ks', es')"
  shows "keeps_outshares km1 km2 \<and> mPendingInShares km2 = mPendingInShares km1 \<and> set es \<subseteq> set es' \<and>
    (\<forall>e \<in> set es' - set es. \<exists>h k. e = NewShareKey h k) \<and>
    (\<exists>new. ks' = ks @ new \<and> (new = [] \<longrightarrow> km2 = km1 \<and> es' = es))"
  using assms
proof (induction xs arbitrary: km1 ks es)
  case (Cons x xs)
  obtain k q e where s: "promote_inshare c x (km1, ks, es) = (k, q, e)" by (metis prod_cases3)
  then have step: "keeps_outshares km1 k" "mPendingInShares k = mPendingInShares km1"
    "(q, e, k) = (ks, es, km1) \<or> (\<exists>t. q = ks @ [t]) \<and> (e = es \<or> (\<exists>h y. e = es @ [NewShareKey h y]))"
    by (auto simp: promote_inshare_def Let_def keeps_outshares_def addShareKey_def split: prod.splits if_splits)
  have "fold (promote_inshare c) xs (k, q, e) = (km2, ks', es')" using Cons.prems s by simp
  from Cons.IH [OF this] obtain new where rest: "keeps_outshares k km2" "mPendingInShares km2 = mPendingInShares k"
    "set e \<subseteq> set es'" "\<forall>e' \<in> set es' - set e. \<exists>h k. e' = NewShareKey h k"
    and new: "ks' = q @ new" "new = [] \<longrightarrow> km2 = k \<and> es' = e" by blast
  have e: "set es \<subseteq> set e" "\<forall>e' \<in> set e - set es. \<exists>h k. e' = NewShareKey h k" using step(3) by auto
  have "keeps_outshares km1 km2" using step(1) rest(1) by (simp add: keeps_outshares_def)
  moreover have "mPendingInShares km2 = mPendingInShares km1" using step(2) rest(2) by simp
  moreover have "set es \<subseteq> set es'" using e(1) rest(3) by blast
  moreover have "\<forall>e' \<in> set es' - set es. \<exists>h k. e' = NewShareKey h k" using e(2) rest(4) by blast
  moreover have "\<exists>new. ks' = ks @ new \<and> (new = [] \<longrightarrow> km2 = km1 \<and> es' = es)"
    using step(3) new by (elim disjE) auto
  ultimately show ?case by blast
qed (simp add: keeps_outshares_def)

lemma removePendingInShares_keep:
  "keeps_outshares km (fold (\<lambda>t km. snd (removePendingInShare t km)) ts km')" if "keeps_outshares km km'"
  using that by (induction ts arbitrary: km') (auto simp: removePendingInShare_def keeps_outshares_def)

lemma promotePendingShares_parts:
  assumes "map_wf (mPendingOutShares km)" "promotePendingShares c km = (updated, km', es)"
  shows "(\<forall>e \<in> set es. key_command_ok c km e)"
    and "u \<in> pending km h \<Longrightarrow> u \<notin> pending km' h \<Longrightarrow> sent_for c km es h u"
    and "\<not> updated \<Longrightarrow> km' = km \<and> es = []"
    and "mGeneration km' = mGeneration km" "mDowngradeAttack km' = mDowngradeAttack km" "mVersion km' = mVersion km"
proof -
  obtain km1 upd es1 where f1: "fold (promote_node c) (mPendingOutShares km) (km, False, []) = (km1, upd, es1)"
    by (metis prod_cases3)
  obtain km2 ks es2 where f2: "fold (promote_inshare c) (mPendingInShares km1) (km1, [], []) = (km2, ks, es2)"
    by (metis prod_cases3)
  let ?rm = "fold (\<lambda>t km. snd (removePendingInShare t km)) ks"
  have r: "updated = (upd \<or> ks \<noteq> [])" "km' = ?rm km2" "es = es1 @ es2"
    using assms(2) by (auto simp: promotePendingShares_def f1 f2)
  have "same_outside_outshares km km" by (simp add: same_outside_outshares_def)
  note p1 = promote_nodes [OF assms(1) this f1] and p2 = promote_inshares [OF f2]
  have k: "keeps_outshares km1 km'" using removePendingInShares_keep p2 r(2) by blast
  show "\<forall>e \<in> set es. key_command_ok c km e" using p1 p2 r(3) by (fastforce simp: key_command_ok_def)
  show "sent_for c km es h u" if "u \<in> pending km h" "u \<notin> pending km' h"
  proof -
    have "pending km' h = pending km1 h" using k by (simp add: pending_def keeps_outshares_def)
    then have "sent_for c km es1 h u" using that p1 by blast
    then show ?thesis using r(3) by (auto simp: sent_for_def)
  qed
  show "km' = km \<and> es = []" if "\<not> updated" using that r p1 p2 by auto
  show "mGeneration km' = mGeneration km" "mDowngradeAttack km' = mDowngradeAttack km" "mVersion km' = mVersion km"
    using k p1 outside_fields [of km km1] by (simp_all add: keeps_outshares_def)
qed

section \<open>Every commit completes once\<close>

definition callbacks :: "(change \<times> nat option) list \<Rightarrow> nat list" where
  "callbacks q = concat (map (\<lambda>(_, cb). case cb of None \<Rightarrow> [] | Some n \<Rightarrow> [n]) q)"

definition completed :: "effect list \<Rightarrow> nat list" where
  "completed es = concat (map (\<lambda>e. case e of Completion n _ \<Rightarrow> [n] | _ \<Rightarrow> []) es)"

lemma completed_simps [simp]:
  "completed [] = []" "completed (es @ es') = completed es @ completed es'"
  "completed [PutAttribute b] = []" "completed [GetAttribute] = []"
  by (simp_all add: completed_def)

lemma completed_completion [simp]:
  "completed (concat (map (\<lambda>(_, cb). completion e cb) q)) = callbacks q"
  by (induction q) (auto simp: callbacks_def completion_def completed_def split: option.split)

lemma completed_one [simp]: "completed (completion e cb) = (case cb of None \<Rightarrow> [] | Some n \<Rightarrow> [n])"
  by (auto simp: completion_def completed_def split: option.split)

lemma callbacks_one [simp]: "callbacks [(chg, cb)] = (case cb of None \<Rightarrow> [] | Some n \<Rightarrow> [n])"
  by (simp add: callbacks_def)

lemma callbacks_append [simp]: "callbacks (q @ q') = callbacks q @ callbacks q'" "callbacks [] = []"
  by (simp_all add: callbacks_def)

lemma completed_key_commands: "\<forall>e \<in> set es. key_command_ok c km e \<Longrightarrow> completed es = []"
  by (auto simp: completed_def key_command_ok_def split: effect.splits)

lemma completed_promote_node:
  "promote_node c x (km, upd, es) = (km', upd', es') \<Longrightarrow> completed es' = completed es"
proof -
  have "completed (snd (promote_sharees c km h us)) = []" "completed (propagateKeysForNestedShares c km h us) = []" for h us
    using promote_sharees_ok propagate_ok by (blast intro: completed_key_commands)+
  then show "promote_node c x (km, upd, es) = (km', upd', es') \<Longrightarrow> completed es' = completed es"
    by (cases x) (auto simp: promote_node_def Let_def case_prod_beta' split: if_splits)
qed

lemma completed_promote_nodes:
  "completed (snd (snd (fold (promote_node c) nodes s))) = completed (snd (snd s))"
proof (induction nodes arbitrary: s)
  case (Cons x nodes)
  have "completed (snd (snd (promote_node c x s))) = completed (snd (snd s))"
    using completed_promote_node [of c x] by (metis prod.collapse)
  then show ?case using Cons by simp
qed simp

lemma completed_promote_inshares:
  "completed (snd (snd (fold (promote_inshare c) xs s))) = completed (snd (snd s))"
proof (induction xs arbitrary: s)
  case (Cons x xs)
  have "completed (snd (snd (promote_inshare c x s))) = completed (snd (snd s))"
    by (auto simp: promote_inshare_def Let_def completed_def split: prod.split)
  then show ?case using Cons by simp
qed simp

lemma completed_promotePendingShares: "promotePendingShares c km = (u, km', es) \<Longrightarrow> completed es = []"
  using completed_promote_nodes [of c "mPendingOutShares km" "(km, False, [])"]
    completed_promote_inshares [of c]
  by (auto simp: promotePendingShares_def Let_def case_prod_beta')

lemma completed_apply_changes:
  "completed (snd (fold (\<lambda>(chg, _). apply_change c closure chg) q s)) = completed (snd s)"
proof (induction q arbitrary: s)
  case (Cons x q)
  have "completed (snd (apply_change c closure chg s)) = completed (snd s)" for chg
    by (auto simp: apply_change_def completed_promotePendingShares split: prod.split change.split)
  then show ?case using Cons by (cases x) simp
qed simp

text \<open>
  The accounting invariant: the callbacks given so far are those completed, those of the commit in
  flight and those waiting; something is awaited exactly when a commit is in flight, and nothing
  waits behind an idle manager.
\<close>

definition accounted :: "nat list \<Rightarrow> key_state \<Rightarrow> bool" where
  "accounted given st \<longleftrightarrow> mset given = mset (completed (effects st) @ callbacks (activeQueue st) @ callbacks (nextQueue st))"

definition commit_inv :: "nat list \<Rightarrow> key_state \<Rightarrow> bool" where
  "commit_inv given st \<longleftrightarrow> accounted given st \<and> (activeQueue st = [] \<longleftrightarrow> waiting st = Nothing_awaited) \<and>
     (activeQueue st = [] \<longrightarrow> nextQueue st = [])"

lemma commit_steps:
  "accounted given st \<Longrightarrow> waiting st = Nothing_awaited \<Longrightarrow> activeQueue st = [] \<Longrightarrow>
     commit_inv given (nextCommit c closure contain st)"
  "accounted given st \<Longrightarrow> waiting st = Nothing_awaited \<Longrightarrow> activeQueue st \<noteq> [] \<Longrightarrow>
     commit_inv given (tryCommit c closure contain e st)"
proof (induction c closure contain st and c closure contain e st rule: nextCommit_tryCommit.induct)
  case (1 c closure contain st)
  then show ?case
    by (subst nextCommit.simps) (auto simp: commit_inv_def accounted_def)
next
  case (2 c closure contain e st)
  show ?case
  proof (cases "e = API_OK \<or> mDowngradeAttack (keys st) \<or> e = API_EARGS")
    case True
    then show ?thesis
      using 2 by (subst tryCommit.simps) (auto simp: accounted_def)
  next
    case False
    obtain km es where a: "fold (\<lambda>(chg, _). apply_change c closure chg) (activeQueue st) (keys st, []) = (km, es)"
      by fastforce
    then have "completed es = []"
      using completed_apply_changes [of c closure "activeQueue st" "(keys st, [])"] by simp
    then show ?thesis
      using False 2(2,3,4) a by (subst tryCommit.simps) (simp add: commit_inv_def accounted_def)
  qed
qed

lemma commit_inv_commit:
  assumes "commit_inv given st"
  shows "commit_inv (given @ (case cb of None \<Rightarrow> [] | Some n \<Rightarrow> [n])) (km_commit c closure contain chg cb st)"
proof (cases "mVersion (keys st) = 0")
  case True
  then show ?thesis using assms by (simp add: km_commit_def commit_inv_def accounted_def)
next
  case False
  let ?st = "st\<lparr>nextQueue := nextQueue st @ [(chg, cb)]\<rparr>"
  have "accounted (given @ (case cb of None \<Rightarrow> [] | Some n \<Rightarrow> [n])) ?st"
    using assms by (simp add: commit_inv_def accounted_def)
  then show ?thesis
    using assms False commit_steps(1) [of _ ?st] by (auto simp: km_commit_def commit_inv_def)
qed

lemma commit_inv_updateValues:
  assumes "commit_inv given st"
  shows "commit_inv given (updateValues c closure contain km st)"
proof -
  obtain u self es where p: "promotePendingShares c (assign_values km (keys st)) = (u, self, es)" by (metis prod_cases3)
  then have "commit_inv given (st\<lparr>keys := self, effects := effects st @ es\<rparr>)"
    using assms by (simp add: commit_inv_def accounted_def completed_promotePendingShares)
  then show ?thesis using commit_inv_commit [of given _ None] by (simp add: updateValues_def p Let_def)
qed

lemma commit_inv_keys: "commit_inv given st \<Longrightarrow> commit_inv given (st\<lparr>keys := km\<rparr>)"
  by (simp add: commit_inv_def accounted_def)

lemma commit_inv_received: "commit_inv given st \<Longrightarrow> commit_inv given (snd (fromKeysContainer dec c closure contain data st))"
  by (auto simp: fromKeysContainer_def Let_def commit_inv_updateValues commit_inv_keys split: option.split prod.split)

lemma commit_inv_put:
  "commit_inv given st \<Longrightarrow> waiting st = Put_answer \<Longrightarrow> commit_inv given (put_answered c closure contain e ownUser st)"
proof -
  assume inv: "commit_inv given st" and w: "waiting st = Put_answer"
  then have "commit_inv given (tryCommit c closure contain e' (st\<lparr>waiting := Nothing_awaited\<rparr>))" for e'
    by (intro commit_steps(2)) (auto simp: commit_inv_def accounted_def)
  then show ?thesis using inv w by (auto simp: put_answered_def Let_def commit_inv_def accounted_def)
qed

lemma commit_inv_get:
  "commit_inv given st \<Longrightarrow> waiting st = Get_answer \<Longrightarrow> commit_inv given (get_answered c closure contain err st)"
  unfolding get_answered_def Let_def
  by (auto split: option.split intro!: commit_steps(2)) (auto simp: commit_inv_def accounted_def)

text \<open>
  Runs of the manager: \<open>given\<close> lists the callbacks handed to \<^verbatim>\<open>commit\<close>.  The keys may change in any
  way between the steps, and the client, closures and API answers differ from step to step.
\<close>

inductive km_run :: "nat list \<Rightarrow> key_state \<Rightarrow> bool" where
  run_new: "km_run [] new_key_state"
| run_keys: "km_run given st \<Longrightarrow> km_run given (st\<lparr>keys := km\<rparr>)"
| run_commit: "km_run given st \<Longrightarrow>
    km_run (given @ (case cb of None \<Rightarrow> [] | Some n \<Rightarrow> [n])) (km_commit c closure contain chg cb st)"
| run_put: "km_run given st \<Longrightarrow> waiting st = Put_answer \<Longrightarrow> km_run given (put_answered c closure contain e ownUser st)"
| run_get: "km_run given st \<Longrightarrow> waiting st = Get_answer \<Longrightarrow> km_run given (get_answered c closure contain err st)"
| run_received: "km_run given st \<Longrightarrow> km_run given (snd (fromKeysContainer dec c closure contain data st))"

section \<open>The generation never goes back\<close>

lemma promote_nodes_outside:
  "same_outside_outshares km (fst s) \<Longrightarrow> same_outside_outshares km (fst (fold (promote_node c) nodes s))"
proof (induction nodes arbitrary: s)
  case (Cons x nodes)
  have "same_outside_outshares km (fst (promote_node c x s))"
    using Cons.prems remove_all_outside by (auto simp: promote_node_def Let_def split: prod.split)
  then show ?case using Cons.IH by simp
qed simp

lemma promotePendingShares_generation:
  "promotePendingShares c km = (u, km', es) \<Longrightarrow> mGeneration km' = mGeneration km"
proof -
  assume p: "promotePendingShares c km = (u, km', es)"
  obtain km1 upd es1 where f1: "fold (promote_node c) (mPendingOutShares km) (km, False, []) = (km1, upd, es1)"
    by (metis prod_cases3)
  obtain km2 ks es2 where f2: "fold (promote_inshare c) (mPendingInShares km1) (km1, [], []) = (km2, ks, es2)"
    by (metis prod_cases3)
  have "same_outside_outshares km km1"
    using promote_nodes_outside [of km "(km, False, [])" c "mPendingOutShares km"] f1
    by (simp add: same_outside_outshares_def)
  then have "mGeneration km1 = mGeneration km" by (rule outside_fields)
  moreover have "keeps_outshares km1 km'"
    using p f1 f2 promote_inshares [OF f2] removePendingInShares_keep by (auto simp: promotePendingShares_def)
  ultimately show ?thesis by (simp add: keeps_outshares_def)
qed

lemma generation_apply_changes:
  assumes "\<And>n km. mGeneration (closure n km) = mGeneration km"
  shows "mGeneration (fst (fold (\<lambda>(chg, _). apply_change c closure chg) q s)) = mGeneration (fst s)"
proof (induction q arbitrary: s)
  case (Cons x q)
  have "mGeneration (fst (apply_change c closure chg s)) = mGeneration (fst s)" for chg
    using assms promotePendingShares_generation by (auto simp: apply_change_def split: prod.split change.split)
  then show ?case using Cons by (cases x) simp
qed simp

lemma generation_commit_steps:
  assumes "\<And>n km. mGeneration (closure n km) = mGeneration km"
  shows "mGeneration (keys (nextCommit c closure contain st)) = mGeneration (keys st)"
    "mGeneration (keys (tryCommit c closure contain e st)) = mGeneration (keys st)"
  using assms
proof (induction c closure contain st and c closure contain e st rule: nextCommit_tryCommit.induct)
  case (1 c closure contain st)
  then show ?case by (subst nextCommit.simps) auto
next
  case (2 c closure contain e st)
  obtain km es where a: "fold (\<lambda>(chg, _). apply_change c closure chg) (activeQueue st) (keys st, []) = (km, es)"
    by fastforce
  have "mGeneration km = mGeneration (keys st)"
    using generation_apply_changes [of closure c "activeQueue st" "(keys st, [])"] "2.prems" a by simp
  then show ?case using 2 a by (subst tryCommit.simps) auto
qed

lemma generation_updateValues:
  assumes "\<And>n km. mGeneration (closure n km) = mGeneration km"
  shows "mGeneration (keys (updateValues c closure contain km st)) = mGeneration km"
proof -
  obtain u self es where p: "promotePendingShares c (assign_values km (keys st)) = (u, self, es)" by (metis prod_cases3)
  then have "mGeneration self = mGeneration km"
    using promotePendingShares_generation by (fastforce simp: assign_values_def)
  then show ?thesis
    using generation_commit_steps [OF assms] by (simp add: updateValues_def p Let_def km_commit_def)
qed

section \<open>Properties\<close>



text \<open>C4: Promoting pending shares sends share keys only to contacts that need no verification, and what is sent
  is the stored 16-byte key of that node encrypted for that contact; an id only leaves the pending
  outshares of a node together with such a command for its user; and when the call reports no
  change, nothing was sent and the manager is as before.\<close>

theorem promotion_safe:
  assumes "km_inv km" "promotePendingShares c km = (updated, km', es)"
  shows "(\<forall>e \<in> set es. key_command_ok c km e) \<and>
    (\<forall>h u. u \<in> pending km h \<longrightarrow> u \<notin> pending km' h \<longrightarrow> sent_for c km es h u) \<and>
    (\<not> updated \<longrightarrow> km' = km \<and> es = [])"
proof -
  have "map_wf (mPendingOutShares km)" using assms(1) by (simp add: km_inv_def)
  from promotePendingShares_parts [OF this assms(2)] show ?thesis by blast
qed

definition sample_client :: client where
  "sample_client = \<lparr>finduser = sample_finduser, areCredentialsVerified = (\<lambda>_. False),
     authring_ed = Some (\<lambda>_. 0), authring_cu = Some (\<lambda>_. 2), computeSymmetricKey = (\<lambda>_. [3]),
     aes_encrypt = (\<lambda>k x. map (\<lambda>b. b + 1) x), aes_decrypt = (\<lambda>k x. map (\<lambda>b. b - 1) x),
     node_exists = (\<lambda>_. True), isbelow = (\<lambda>_ _. False), nodesWithOutShares = [], usableInshare = (\<lambda>_ _. False)\<rparr>"

theorem promotion_safe_witness:
  "sent_for sample_client sample_km (snd (snd (promotePendingShares sample_client sample_km))) 77 (asc ''a@b'')"
proof -
  obtain u km' es where p: "promotePendingShares sample_client sample_km = (u, km', es)" by (metis prod_cases3)
  have inv: "km_inv sample_km" by code_simp
  have "asc ''a@b'' \<in> pending sample_km 77" by code_simp
  moreover have "asc ''a@b'' \<notin> pending (fst (snd (promotePendingShares sample_client sample_km))) 77" by code_simp
  ultimately show ?thesis using promotion_safe [OF inv p] p by simp
qed

text \<open>C10: A received container never lowers the generation: one whose generation is lower than the current one is
  refused, raises the downgrade flag and changes nothing else, and in every other case of refusal
  the state is untouched.  (The closures of pending commits are assumed not to touch the
  generation.)\<close>

theorem received_container_never_downgrades:
  assumes "\<And>n km. mGeneration (closure n km) = mGeneration km"
    and "fromKeysContainer dec c closure contain data st = (ok, st')"
  shows "mGeneration (keys st) \<le> mGeneration (keys st') \<and>
    (\<not> ok \<longrightarrow> st' = st \<or> st' = st\<lparr>keys := (keys st)\<lparr>mDowngradeAttack := True\<rparr>\<rparr>)"
  using assms(2) generation_updateValues [OF assms(1)]
  by (auto simp: fromKeysContainer_def isValidKeysContainer_def Let_def not_less split: if_splits option.splits)

theorem received_container_never_downgrades_witness:
  "snd (fromKeysContainer (\<lambda>iv x. Some x) sample_client (\<lambda>_ km. km) (\<lambda>_. []) ([20, 0] @ replicate 12 9 @ [4, 0, 0, 4, 0, 0, 0, 3])
      (new_key_state\<lparr>keys := sample_km\<rparr>)) =
    new_key_state\<lparr>keys := sample_km\<lparr>mDowngradeAttack := True\<rparr>\<rparr>"
proof -
  let ?st = "new_key_state\<lparr>keys := sample_km\<rparr>"
  let ?data = "[20, 0] @ replicate 12 9 @ [4, 0, 0, 4, 0, 0, 0, 3] :: bytes"
  obtain ok st' where r: "fromKeysContainer (\<lambda>iv x. Some x) sample_client (\<lambda>_ km. km) (\<lambda>_. []) ?data ?st = (ok, st')"
    by fastforce
  have "\<not> fst (fromKeysContainer (\<lambda>iv x. Some x) sample_client (\<lambda>_ km. km) (\<lambda>_. []) ?data ?st)" by code_simp
  moreover have "mDowngradeAttack (keys (snd (fromKeysContainer (\<lambda>iv x. Some x) sample_client (\<lambda>_ km. km) (\<lambda>_. []) ?data ?st)))"
    by code_simp
  moreover have "\<not> mDowngradeAttack (keys ?st)" by code_simp
  ultimately show ?thesis
    using received_container_never_downgrades [of "\<lambda>_ km. km" "\<lambda>iv x. Some x" sample_client "\<lambda>_. []" ?data ?st ok st'] r
    by auto
qed



end
