(* ===== verification/Mega_LazyDeque.thy ===== *)
theory Mega_LazyDeque
  imports Mega_Prelude
begin

text \<open>
  \<^verbatim>\<open>deque_with_lazy_bulk_erase\<close> of \<^verbatim>\<open>include/mega/types.h\<close>, with the entries the transfer list stores in
  it (\<^verbatim>\<open>LazyEraseTransferPtr\<close> of \<^verbatim>\<open>include/mega/transfer.h\<close>).  Erasing only marks an entry; the next
  operation that is not an erase removes all marked entries at once.  The interface is a plain
  sequence (locale \<open>erasable_sequence\<close>); the interpretation shows that the lazy deque is one, so
  clients may reason about lists.  Transfers are known by number.
\<close>

section \<open>Entries\<close>

record lazy_ptr =
  transfer :: "nat option"
  preErasurePriority :: u64
  erased :: bool

definition lazy_new :: "nat \<Rightarrow> lazy_ptr" where
  "lazy_new t = \<lparr>transfer = Some t, preErasurePriority = 0, erased = False\<rparr>"

text \<open>\<open>pri\<close> reads the priority of a transfer; erasing an entry twice would dereference null.\<close>

definition lazy_erase :: "(nat \<Rightarrow> u64) \<Rightarrow> lazy_ptr \<Rightarrow> lazy_ptr" where
  "lazy_erase pri e =
    (case transfer e of
       None \<Rightarrow> e
     | Some t \<Rightarrow> \<lparr>transfer = None, preErasurePriority = pri t, erased = True\<rparr>)"

definition entry_priority :: "(nat \<Rightarrow> u64) \<Rightarrow> lazy_ptr \<Rightarrow> u64" where
  "entry_priority pri e = (case transfer e of Some t \<Rightarrow> pri t | None \<Rightarrow> preErasurePriority e)"

section \<open>The deque\<close>

record lazy_deque =
  mDeque :: "lazy_ptr list"
  nErased :: nat

definition dq_empty :: lazy_deque where
  "dq_empty = \<lparr>mDeque = [], nErased = 0\<rparr>"

definition dq_erase :: "(nat \<Rightarrow> u64) \<Rightarrow> nat \<Rightarrow> lazy_deque \<Rightarrow> lazy_deque" where
  "dq_erase pri i d =
    d\<lparr>mDeque := (mDeque d)[i := lazy_erase pri (mDeque d ! i)], nErased := nErased d + 1\<rparr>"

text \<open>The two loops that pop marked entries off the ends, then \<^verbatim>\<open>std::remove_if\<close> for the rest.\<close>

fun pop_erased_front :: "nat \<Rightarrow> lazy_ptr list \<Rightarrow> nat \<times> lazy_ptr list" where
  "pop_erased_front n [] = (n, [])"
| "pop_erased_front n (e # es) = (if 0 < n \<and> erased e then pop_erased_front (n - 1) es else (n, e # es))"

definition pop_erased_back :: "nat \<Rightarrow> lazy_ptr list \<Rightarrow> nat \<times> lazy_ptr list" where
  "pop_erased_back n es = (let (n', rs) = pop_erased_front n (rev es) in (n', rev rs))"

definition applyErase :: "lazy_deque \<Rightarrow> lazy_deque" where
  "applyErase d =
    (if 0 < nErased d then
       let (n1, es1) = pop_erased_front (nErased d) (mDeque d);
           (n2, es2) = pop_erased_back n1 es1
       in if 0 < n2 then d\<lparr>mDeque := filter (\<lambda>e. \<not> erased e) es2, nErased := 0\<rparr>
          else d\<lparr>mDeque := es2, nErased := n2\<rparr>
     else d)"

definition dq_size :: "lazy_deque \<Rightarrow> nat" where
  "dq_size d = length (mDeque (applyErase d))"

definition dq_clear :: "lazy_deque \<Rightarrow> lazy_deque" where
  "dq_clear d = d\<lparr>mDeque := []\<rparr>"

definition dq_push_front :: "nat \<Rightarrow> lazy_deque \<Rightarrow> lazy_deque" where
  "dq_push_front t d = (let d' = applyErase d in d'\<lparr>mDeque := lazy_new t # mDeque d'\<rparr>)"

definition dq_push_back :: "nat \<Rightarrow> lazy_deque \<Rightarrow> lazy_deque" where
  "dq_push_back t d = (let d' = applyErase d in d'\<lparr>mDeque := mDeque d' @ [lazy_new t]\<rparr>)"

text \<open>Positions are counted in the compacted deque, as the iterators the callers pass are.\<close>

definition dq_insert :: "nat \<Rightarrow> nat \<Rightarrow> lazy_deque \<Rightarrow> lazy_deque" where
  "dq_insert i t d = (let d' = applyErase d in d'\<lparr>mDeque := insert_at i (lazy_new t) (mDeque d')\<rparr>)"

definition dq_at :: "lazy_deque \<Rightarrow> nat \<Rightarrow> nat option" where
  "dq_at d n = (let d' = applyErase d in if n < length (mDeque d') then transfer (mDeque d' ! n) else None)"

section \<open>The sequence it stands for\<close>

fun ptrs :: "lazy_ptr list \<Rightarrow> nat list" where
  "ptrs [] = []"
| "ptrs (e # es) = (case transfer e of Some t \<Rightarrow> t # ptrs es | None \<Rightarrow> ptrs es)"

definition live :: "lazy_deque \<Rightarrow> nat list" where
  "live d = ptrs (mDeque d)"

definition dq_inv :: "lazy_deque \<Rightarrow> bool" where
  "dq_inv d \<longleftrightarrow> (\<forall>e \<in> set (mDeque d). erased e \<longleftrightarrow> transfer e = None) \<and>
     length (filter erased (mDeque d)) \<le> nErased d"

definition compact :: "lazy_deque \<Rightarrow> bool" where
  "compact d \<longleftrightarrow> (\<forall>e \<in> set (mDeque d). \<not> erased e)"

lemma pop_erased_front_props:
  assumes "pop_erased_front n es = (n', es')" "length (filter erased es) \<le> n"
  shows "filter (\<lambda>e. \<not> erased e) es' = filter (\<lambda>e. \<not> erased e) es" "length (filter erased es') \<le> n'"
    "set es' \<subseteq> set es"
proof -
  show "filter (\<lambda>e. \<not> erased e) es' = filter (\<lambda>e. \<not> erased e) es" "length (filter erased es') \<le> n'"
    using assms by (induction n es arbitrary: n' es' rule: pop_erased_front.induct) (auto split: if_splits)
  show "set es' \<subseteq> set es"
    using assms(1) by (induction n es arbitrary: n' es' rule: pop_erased_front.induct) (auto split: if_splits)
qed

lemma pop_erased_back_props:
  assumes "pop_erased_back n es = (n', es')" "length (filter erased es) \<le> n"
  shows "filter (\<lambda>e. \<not> erased e) es' = filter (\<lambda>e. \<not> erased e) es" "length (filter erased es') \<le> n'"
    "set es' \<subseteq> set es"
proof -
  obtain rs where r: "pop_erased_front n (rev es) = (n', rs)" "es' = rev rs"
    using assms(1) by (auto simp: pop_erased_back_def split: prod.splits)
  have "length (filter erased (rev es)) \<le> n" using assms(2) by (simp flip: rev_filter)
  from pop_erased_front_props [OF r(1) this]
  show "filter (\<lambda>e. \<not> erased e) es' = filter (\<lambda>e. \<not> erased e) es" "length (filter erased es') \<le> n'" "set es' \<subseteq> set es"
    by (simp_all add: r(2) flip: rev_filter)
qed

text \<open>Compaction removes exactly the marked entries, whichever of its paths it takes.\<close>

lemma applyErase_eq:
  assumes "dq_inv d"
  shows "mDeque (applyErase d) = filter (\<lambda>e. \<not> erased e) (mDeque d)"
proof (cases "0 < nErased d")
  case True
  obtain n1 es1 where 1: "pop_erased_front (nErased d) (mDeque d) = (n1, es1)" by fastforce
  obtain n2 es2 where 2: "pop_erased_back n1 es1 = (n2, es2)" by fastforce
  have c: "length (filter erased (mDeque d)) \<le> nErased d" using assms by (simp add: dq_inv_def)
  note p1 = pop_erased_front_props [OF 1 c] and p2 = pop_erased_back_props [OF 2]
  have f: "filter (\<lambda>e. \<not> erased e) es2 = filter (\<lambda>e. \<not> erased e) (mDeque d)" using p1 p2 by simp
  have "filter (\<lambda>e. \<not> erased e) es2 = es2" if "n2 = 0"
    using p2(2) p1(2) that by (auto simp: filter_id_conv filter_empty_conv)
  then show ?thesis using True 1 2 f by (simp add: applyErase_def)
next
  case False
  then have "filter erased (mDeque d) = []" using assms by (simp add: dq_inv_def)
  then show ?thesis using False by (simp add: applyErase_def filter_empty_conv filter_id_conv)
qed

lemma ptrs_append [simp]: "ptrs (xs @ ys) = ptrs xs @ ptrs ys"
  by (induction xs) (auto split: option.split)

lemma ptrs_filter:
  "\<forall>e \<in> set es. erased e \<longleftrightarrow> transfer e = None \<Longrightarrow> ptrs (filter (\<lambda>e. \<not> erased e) es) = ptrs es"
  by (induction es) (auto split: option.split)

lemma set_ptrs: "t \<in> set (ptrs es) \<longleftrightarrow> (\<exists>e \<in> set es. transfer e = Some t)"
  by (induction es) (auto split: option.splits)

lemma live_applyErase [simp]: "dq_inv d \<Longrightarrow> live (applyErase d) = live d"
  by (simp add: live_def applyErase_eq ptrs_filter dq_inv_def)

lemma nErased_applyErase: "nErased (applyErase d) \<le> nErased d"
  by (auto simp: applyErase_def Let_def pop_erased_back_def split: prod.split)

lemma compact_applyErase [simp]: "dq_inv d \<Longrightarrow> compact (applyErase d)"
  by (simp add: compact_def applyErase_eq)

lemma dq_inv_applyErase [simp]: "dq_inv d \<Longrightarrow> dq_inv (applyErase d)"
  by (auto simp: dq_inv_def applyErase_eq)

text \<open>In a compacted deque the entries are the live ones in order.\<close>

lemma ptrs_all: "\<forall>e \<in> set es. transfer e \<noteq> None \<Longrightarrow> map transfer es = map Some (ptrs es)"
  by (induction es) auto

lemma compact_live: "compact d \<Longrightarrow> dq_inv d \<Longrightarrow> map transfer (mDeque d) = map Some (live d)"
  unfolding live_def by (rule ptrs_all) (auto simp: compact_def dq_inv_def)

lemma compact_length: "compact d \<Longrightarrow> dq_inv d \<Longrightarrow> length (mDeque d) = length (live d)"
  by (metis compact_live length_map)

lemma compact_nth: "compact d \<Longrightarrow> dq_inv d \<Longrightarrow> i < length (mDeque d) \<Longrightarrow> transfer (mDeque d ! i) = Some (live d ! i)"
  by (metis compact_length compact_live nth_map)

lemma ptrs_insert_at:
  "\<forall>e \<in> set es. transfer e \<noteq> None \<Longrightarrow> ptrs (insert_at i (lazy_new t) es) = insert_at i t (ptrs es)"
proof (induction es arbitrary: i)
  case (Cons e es)
  then show ?case by (cases i) (auto simp: insert_at_def lazy_new_def)
qed (simp add: insert_at_def lazy_new_def)

section \<open>The interface of a sequence\<close>

locale erasable_sequence =
  fixes seq :: "'d \<Rightarrow> 'a list" and inv :: "'d \<Rightarrow> bool" and empty :: 'd
    and push_front push_back :: "'a \<Rightarrow> 'd \<Rightarrow> 'd" and insert :: "nat \<Rightarrow> 'a \<Rightarrow> 'd \<Rightarrow> 'd"
    and clear :: "'d \<Rightarrow> 'd" and size :: "'d \<Rightarrow> nat" and at :: "'d \<Rightarrow> nat \<Rightarrow> 'a option"
  assumes seq_empty: "seq empty = []" and inv_empty: "inv empty"
    and seq_push_front: "inv d \<Longrightarrow> seq (push_front x d) = x # seq d" and inv_push_front: "inv d \<Longrightarrow> inv (push_front x d)"
    and seq_push_back: "inv d \<Longrightarrow> seq (push_back x d) = seq d @ [x]" and inv_push_back: "inv d \<Longrightarrow> inv (push_back x d)"
    and seq_insert: "inv d \<Longrightarrow> seq (insert i x d) = insert_at i x (seq d)" and inv_insert: "inv d \<Longrightarrow> inv (insert i x d)"
    and seq_clear: "seq (clear d) = []" and inv_clear: "inv d \<Longrightarrow> inv (clear d)"
    and size_seq: "inv d \<Longrightarrow> size d = length (seq d)"
    and at_seq: "inv d \<Longrightarrow> at d i = (if i < length (seq d) then Some (seq d ! i) else None)"
begin

lemma inv_push_backs: "inv d \<Longrightarrow> inv (fold push_back xs d)"
  by (induction xs arbitrary: d) (auto simp: inv_push_back)

lemma seq_push_backs: "inv d \<Longrightarrow> seq (fold push_back xs d) = seq d @ xs"
  by (induction xs arbitrary: d) (auto simp: inv_push_back seq_push_back)

lemma seq_of_list: "inv (fold push_back xs empty) \<and> seq (fold push_back xs empty) = xs"
  by (simp add: inv_empty inv_push_backs seq_push_backs seq_empty)

lemma at_push_front: "inv d \<Longrightarrow> at (push_front x d) 0 = Some x \<and> at (push_front x d) (Suc i) = at d i"
  by (simp add: at_seq inv_push_front seq_push_front)

end

lemma filter_erased_compact: "compact d \<Longrightarrow> filter erased (mDeque d) = []"
  by (simp add: compact_def filter_empty_conv)

lemma erased_lazy_new [simp]: "erased (lazy_new t) = False" "transfer (lazy_new t) = Some t"
  by (simp_all add: lazy_new_def)

lemma dq_inv_compactI: "\<forall>e \<in> set (mDeque d). \<not> erased e \<and> transfer e \<noteq> None \<Longrightarrow> dq_inv d"
  by (auto simp: dq_inv_def filter_empty_conv)

lemma applyErase_entries: "dq_inv d \<Longrightarrow> e \<in> set (mDeque (applyErase d)) \<Longrightarrow> \<not> erased e \<and> transfer e \<noteq> None"
  by (auto simp: applyErase_eq dq_inv_def)

interpretation ldq: erasable_sequence live dq_inv dq_empty dq_push_front dq_push_back dq_insert dq_clear dq_size dq_at
proof
  fix d :: lazy_deque and t i
  assume inv: "dq_inv d"
  note e = applyErase_entries [OF inv]
  show "live (dq_push_front t d) = t # live d" "live (dq_push_back t d) = live d @ [t]"
    using inv live_applyErase [OF inv] by (simp_all add: dq_push_front_def dq_push_back_def live_def Let_def)
  show "dq_inv (dq_push_front t d)" "dq_inv (dq_push_back t d)" "dq_inv (dq_insert i t d)"
    using e by (auto intro!: dq_inv_compactI simp: dq_push_front_def dq_push_back_def dq_insert_def Let_def)
  show "live (dq_insert i t d) = insert_at i t (live d)"
    using e live_applyErase [OF inv] by (auto simp: dq_insert_def live_def Let_def ptrs_insert_at)
  show "dq_inv (dq_clear d)" using inv by (simp add: dq_inv_def dq_clear_def)
  show "dq_size d = length (live d)"
    using inv compact_length [of "applyErase d"] by (simp add: dq_size_def)
  show "dq_at d i = (if i < length (live d) then Some (live d ! i) else None)"
    using inv compact_length [of "applyErase d"] compact_nth [of "applyErase d" i] by (simp add: dq_at_def Let_def)
qed (simp_all add: live_def dq_empty_def dq_inv_def dq_clear_def)

section \<open>Finding and erasing\<close>

text \<open>\<^verbatim>\<open>getIterator\<close> with \<^verbatim>\<open>canHandleErasedElements\<close>: a search by priority over all entries, marked ones included.\<close>

definition dq_find :: "(nat \<Rightarrow> u64) \<Rightarrow> nat \<Rightarrow> lazy_deque \<Rightarrow> nat option" where
  "dq_find pri t d =
    (let i = lower_bound (entry_priority pri) (mDeque d) (pri t) in
     if i < length (mDeque d) \<and> transfer (mDeque d ! i) = Some t then Some i else None)"

definition dq_ordered :: "(nat \<Rightarrow> u64) \<Rightarrow> lazy_deque \<Rightarrow> bool" where
  "dq_ordered pri d \<longleftrightarrow> sorted_wrt (<) (map (entry_priority pri) (mDeque d))"

lemma dq_find_live: "dq_ordered pri d \<Longrightarrow> t \<in> set (live d) \<Longrightarrow> \<exists>i. dq_find pri t d = Some i"
proof -
  assume ord: "dq_ordered pri d" and "t \<in> set (live d)"
  then obtain i where i: "i < length (mDeque d)" "transfer (mDeque d ! i) = Some t"
    by (metis live_def set_ptrs in_set_conv_nth)
  then have "entry_priority pri (mDeque d ! i) = pri t" by (simp add: entry_priority_def)
  then have "lower_bound (entry_priority pri) (mDeque d) (pri t) = i"
    using lower_bound_nth [of "entry_priority pri" "mDeque d" i] ord i(1) by (simp add: dq_ordered_def)
  then show ?thesis using i by (simp add: dq_find_def)
qed

lemma dq_find_Some: "dq_find pri t d = Some i \<Longrightarrow> i < length (mDeque d) \<and> transfer (mDeque d ! i) = Some t"
  by (auto simp: dq_find_def Let_def split: if_splits)

lemma entry_priority_erase [simp]: "entry_priority pri (lazy_erase pri e) = entry_priority pri e"
  by (auto simp: lazy_erase_def entry_priority_def split: option.split)

lemma dq_ordered_erase: "dq_ordered pri d \<Longrightarrow> i < length (mDeque d) \<Longrightarrow> dq_ordered pri (dq_erase pri i d)"
proof -
  assume "dq_ordered pri d" "i < length (mDeque d)"
  moreover from this have "(map (entry_priority pri) (mDeque d))[i := entry_priority pri (mDeque d ! i)] =
      map (entry_priority pri) (mDeque d)"
    by (metis list_update_id nth_map)
  ultimately show ?thesis by (simp add: dq_ordered_def dq_erase_def map_update)
qed

lemma ptrs_erase:
  "i < length es \<Longrightarrow> transfer (es ! i) = Some t \<Longrightarrow> distinct (ptrs es) \<Longrightarrow>
   ptrs (es[i := lazy_erase pri (es ! i)]) = remove1 t (ptrs es)"
proof (induction es arbitrary: i)
  case (Cons e es)
  then show ?case
  proof (cases i)
    case 0
    then show ?thesis using Cons.prems by (simp add: lazy_erase_def)
  next
    case (Suc j)
    then have "t \<in> set (ptrs es)" using Cons.prems by (auto simp: set_ptrs)
    then show ?thesis using Suc Cons by (auto split: option.splits)
  qed
qed simp

lemma dq_inv_erase:
  assumes "dq_inv d" "i < length (mDeque d)" "transfer (mDeque d ! i) = Some t"
  shows "dq_inv (dq_erase pri i d)"
proof -
  let ?es = "mDeque d" and ?e = "lazy_erase pri (mDeque d ! i)"
  have "length (filter erased (?es[i := ?e])) \<le> Suc (length (filter erased ?es))"
  proof -
    have "?es[i := ?e] = take i ?es @ ?e # drop (Suc i) ?es" using assms(2) by (rule upd_conv_take_nth_drop)
    moreover have "?es = take i ?es @ ?es ! i # drop (Suc i) ?es" using assms(2) by (rule id_take_nth_drop)
    then have "length (filter erased ?es) =
        length (filter erased (take i ?es)) + length (filter erased (?es ! i # drop (Suc i) ?es))"
      by (metis filter_append length_append)
    ultimately show ?thesis by simp
  qed
  moreover have "\<forall>e \<in> set (?es[i := ?e]). erased e \<longleftrightarrow> transfer e = None"
    using assms by (auto simp: dq_inv_def lazy_erase_def dest!: set_update_subset_insert [THEN subsetD])
  ultimately show ?thesis using assms(1) by (simp add: dq_inv_def dq_erase_def)
qed

definition dq_remove :: "(nat \<Rightarrow> u64) \<Rightarrow> nat \<Rightarrow> lazy_deque \<Rightarrow> lazy_deque" where
  "dq_remove pri t d = (case dq_find pri t d of Some i \<Rightarrow> dq_erase pri i d | None \<Rightarrow> d)"

lemma dq_remove_step:
  assumes "dq_inv d" "dq_ordered pri d" "distinct (live d)"
  shows "dq_inv (dq_remove pri t d)" "dq_ordered pri (dq_remove pri t d)" "live (dq_remove pri t d) = remove1 t (live d)"
proof -
  have "dq_inv (dq_remove pri t d) \<and> dq_ordered pri (dq_remove pri t d) \<and> live (dq_remove pri t d) = remove1 t (live d)"
  proof (cases "dq_find pri t d")
    case None
    then have "t \<notin> set (live d)" using dq_find_live assms(2) by fastforce
    then show ?thesis using None assms by (simp add: dq_remove_def remove1_idem)
  next
    case (Some i)
    then show ?thesis
      using assms dq_find_Some [OF Some] dq_inv_erase [of d i t pri] dq_ordered_erase [of pri d i]
        ptrs_erase [of i "mDeque d" t pri]
      by (simp add: dq_remove_def) (simp add: live_def dq_erase_def)
  qed
  then show "dq_inv (dq_remove pri t d)" "dq_ordered pri (dq_remove pri t d)" "live (dq_remove pri t d) = remove1 t (live d)"
    by simp_all
qed

lemma dq_removes:
  assumes "dq_inv d" "dq_ordered pri d" "distinct (live d)"
  shows "dq_inv (fold (dq_remove pri) ts d) \<and> dq_ordered pri (fold (dq_remove pri) ts d) \<and>
    live (fold (dq_remove pri) ts d) = filter (\<lambda>t. t \<notin> set ts) (live d)"
  using assms
proof (induction ts arbitrary: d)
  case (Cons t ts)
  note step = dq_remove_step [OF Cons.prems, of t]
  have "distinct (live (dq_remove pri t d))" using step(3) Cons.prems(3) by simp
  from Cons.IH [OF step(1,2) this] show ?case
    by (auto simp: step(3) distinct_remove1_removeAll Cons.prems(3) removeAll_filter_not_eq intro!: filter_cong)
qed simp

section \<open>Properties\<close>

text \<open>C13: Erasing any number of transfers from the lazy deque, each found by a binary search that also sees the
  entries marked before, and then compacting, leaves exactly the entries that were not erased, in
  their order; the size, the elements by position and every later insertion are those of that
  sequence.\<close>

theorem lazy_erase_refines_list:
  assumes "dq_inv d" "dq_ordered pri d" "distinct (live d)"
  shows "let d' = fold (dq_remove pri) ts d; rest = filter (\<lambda>t. t \<notin> set ts) (live d) in
    map transfer (mDeque (applyErase d')) = map Some rest \<and> dq_size d' = length rest \<and>
    (\<forall>i. dq_at d' i = (if i < length rest then Some (rest ! i) else None)) \<and>
    live (dq_insert i t d') = insert_at i t rest \<and> live (dq_push_front t d') = t # rest \<and>
    live (dq_push_back t d') = rest @ [t]"
proof -
  let ?d = "fold (dq_remove pri) ts d"
  have d: "dq_inv ?d" "live ?d = filter (\<lambda>t. t \<notin> set ts) (live d)" using dq_removes [OF assms] by auto
  then show ?thesis
    using compact_live [of "applyErase ?d"]
    by (simp add: Let_def ldq.size_seq ldq.at_seq ldq.seq_insert ldq.seq_push_front ldq.seq_push_back)
qed

theorem lazy_erase_refines_list_witness:
  "let d = fold dq_push_back [7, 3, 9, 4] dq_empty; d' = fold (dq_remove (\<lambda>t. if t = 7 then 1 else if t = 3 then 2 else if t = 9 then 5 else 8)) [3, 4] d
   in map transfer (mDeque (applyErase d')) = map Some [7, 9]"
proof -
  let ?d = "fold dq_push_back [7, 3, 9, 4] dq_empty"
  let ?pri = "\<lambda>t :: nat. if t = 7 then 1 else if t = 3 then 2 else if t = 9 then 5 else 8 :: u64"
  have live: "live ?d = [7, 3, 9, 4]" and inv: "dq_inv ?d" using ldq.seq_of_list by blast+
  moreover have "dq_ordered ?pri ?d" by code_simp
  moreover have "distinct (live ?d)" by (simp only: live) simp
  ultimately show ?thesis
    using lazy_erase_refines_list [of ?d ?pri "[3, 4]" 0 0] by (simp only: Let_def) simp
qed

end
