(* ===== verification/Mega_Backoff.thy ===== *)
theory Mega_Backoff
  imports Mega_Prelude
begin

text \<open>
  \<^verbatim>\<open>src/backofftimer.cpp\<close> and \<^verbatim>\<open>include/mega/backofftimer.h\<close>: timers with capped exponential backoff and
  the tracker that keeps the set timers of a group ordered by their timeout.  Times are signed
  64-bit tenths of seconds, here integers: the first theorem bounds what backoff and arming can
  produce far below the width. \<^verbatim>\<open>Waiter::ds\<close> is the argument \<open>ds\<close>, and the
  random part of a backoff, computed in floating point, is the argument \<open>jitter\<close>, of which only
  the range is used.  The theorems: the backoff doubles up to its cap, the tracker holds exactly
  the enabled timers that are set, in order of time, after every operation, and what an update
  of the group does to the timers and to the time to wait.
\<close>

section \<open>A timer\<close>

type_synonym dstime = int

definition NEVER :: dstime where
  "NEVER = 9223372036854775807"

record timer =
  nxt :: dstime
  delta :: dstime
  base :: dstime

definition bt_reset :: "timer \<Rightarrow> timer" where
  "bt_reset t = t\<lparr>nxt := 0, delta := 1, base := 1\<rparr>"

definition new_timer :: timer where
  "new_timer = bt_reset \<lparr>nxt = 0, delta = 0, base = 0\<rparr>"

definition bt_backoff :: "dstime \<Rightarrow> (dstime \<Rightarrow> dstime) \<Rightarrow> timer \<Rightarrow> timer" where
  "bt_backoff ds jitter t =
    (let b = 2 * base t; b = (if b > 6000 then 6000 else b) in
     t\<lparr>nxt := ds + delta t, base := b, delta := b + jitter b\<rparr>)"

definition bt_backoff_to :: "dstime \<Rightarrow> dstime \<Rightarrow> timer \<Rightarrow> timer" where
  "bt_backoff_to ds newdelta t =
    t\<lparr>nxt := (if newdelta = NEVER then NEVER else ds + newdelta), delta := newdelta, base := newdelta\<rparr>"

definition bt_armed :: "dstime \<Rightarrow> timer \<Rightarrow> bool" where
  "bt_armed ds t \<longleftrightarrow> nxt t \<le> 1 \<or> ds \<ge> nxt t"

definition bt_arm :: "dstime \<Rightarrow> timer \<Rightarrow> bool \<times> timer" where
  "bt_arm ds t =
    (if nxt t = NEVER \<or> nxt t + delta t > ds then (True, t\<lparr>nxt := ds, delta := 1, base := 1\<rparr>) else (False, t))"

definition bt_set :: "dstime \<Rightarrow> timer \<Rightarrow> timer" where
  "bt_set newds t = (if newds < nxt t then t\<lparr>nxt := newds\<rparr> else t)"

definition bt_retryin :: "dstime \<Rightarrow> timer \<Rightarrow> dstime" where
  "bt_retryin ds t = (if bt_armed ds t then 0 else nxt t - ds)"

definition bt_update :: "dstime \<Rightarrow> timer \<Rightarrow> dstime \<Rightarrow> timer \<times> dstime" where
  "bt_update ds t waituntil =
    (if nxt t \<noteq> 0 then
       if nxt t \<le> ds then (t\<lparr>nxt := 1\<rparr>, if nxt t = 1 then ds + 1 else 0)
       else if nxt t < waituntil then (t, nxt t)
       else (t, waituntil)
     else (t, waituntil))"

section \<open>Tracked timers and their group\<close>

text \<open>
  The tracker is a \<^verbatim>\<open>std::multimap\<close> from timeouts to timers: a list ordered by timeout, new
  entries after those with the same timeout.  Timers are known by number; the iterator a timer
  keeps is the position of its own entry.
\<close>

record tracked =
  mIsEnabled :: bool
  mBt :: timer

record tracker =
  timeouts :: "(dstime \<times> nat) list"
  timers :: "nat \<Rightarrow> tracked"

definition is_tracked :: "tracked \<Rightarrow> bool" where
  "is_tracked t \<longleftrightarrow> mIsEnabled t \<and> nxt (mBt t) \<noteq> 0 \<and> nxt (mBt t) \<noteq> NEVER"

fun multimap_emplace :: "dstime \<Rightarrow> nat \<Rightarrow> (dstime \<times> nat) list \<Rightarrow> (dstime \<times> nat) list" where
  "multimap_emplace k i [] = [(k, i)]"
| "multimap_emplace k i ((k', i') # m) =
    (if k < k' then (k, i) # (k', i') # m else (k', i') # multimap_emplace k i m)"

definition tracker_add :: "nat \<Rightarrow> tracker \<Rightarrow> tracker" where
  "tracker_add i tr = (let n = nxt (mBt (timers tr i)) in
    tr\<lparr>timeouts := multimap_emplace (if n \<noteq> 0 then n else NEVER) i (timeouts tr)\<rparr>)"

definition untrack :: "nat \<Rightarrow> tracker \<Rightarrow> tracker" where
  "untrack i tr =
    (if is_tracked (timers tr i) then tr\<lparr>timeouts := filter (\<lambda>(k, j). j \<noteq> i) (timeouts tr)\<rparr> else tr)"

definition track :: "nat \<Rightarrow> tracker \<Rightarrow> tracker" where
  "track i tr = (if is_tracked (timers tr i) then tracker_add i tr else tr)"

text \<open>Every operation of a tracked timer takes it out, changes it and puts it back.\<close>

definition with_timer :: "nat \<Rightarrow> (tracked \<Rightarrow> tracked) \<Rightarrow> tracker \<Rightarrow> tracker" where
  "with_timer i f tr =
    (let tr1 = untrack i tr in track i (tr1\<lparr>timers := (timers tr1)(i := f (timers tr1 i))\<rparr>))"

definition tt_arm :: "dstime \<Rightarrow> nat \<Rightarrow> tracker \<Rightarrow> bool \<times> tracker" where
  "tt_arm ds i tr =
    (fst (bt_arm ds (mBt (timers tr i))), with_timer i (\<lambda>t. t\<lparr>mBt := snd (bt_arm ds (mBt t))\<rparr>) tr)"

definition tt_backoff :: "dstime \<Rightarrow> (dstime \<Rightarrow> dstime) \<Rightarrow> nat \<Rightarrow> tracker \<Rightarrow> tracker" where
  "tt_backoff ds jitter i = with_timer i (\<lambda>t. t\<lparr>mBt := bt_backoff ds jitter (mBt t)\<rparr>)"

definition tt_backoff_to :: "dstime \<Rightarrow> dstime \<Rightarrow> nat \<Rightarrow> tracker \<Rightarrow> tracker" where
  "tt_backoff_to ds newdelta i = with_timer i (\<lambda>t. t\<lparr>mBt := bt_backoff_to ds newdelta (mBt t)\<rparr>)"

definition tt_set :: "dstime \<Rightarrow> nat \<Rightarrow> tracker \<Rightarrow> tracker" where
  "tt_set newds i = with_timer i (\<lambda>t. t\<lparr>mBt := bt_set newds (mBt t)\<rparr>)"

definition tt_update :: "dstime \<Rightarrow> nat \<Rightarrow> dstime \<Rightarrow> tracker \<Rightarrow> tracker \<times> dstime" where
  "tt_update ds i waituntil tr =
    (with_timer i (\<lambda>t. t\<lparr>mBt := fst (bt_update ds (mBt t) waituntil)\<rparr>) tr, snd (bt_update ds (mBt (timers tr i)) waituntil))"

definition tt_reset :: "nat \<Rightarrow> tracker \<Rightarrow> tracker" where
  "tt_reset i = with_timer i (\<lambda>t. t\<lparr>mBt := bt_reset (mBt t)\<rparr>)"

definition tt_enable :: "bool \<Rightarrow> nat \<Rightarrow> tracker \<Rightarrow> tracker" where
  "tt_enable b i = with_timer i (\<lambda>t. t\<lparr>mIsEnabled := b\<rparr>)"

text \<open>Construction and destruction: the constructor enables a reset timer, the destructor untracks it.\<close>

definition tt_new :: "nat \<Rightarrow> tracker \<Rightarrow> tracker" where
  "tt_new i tr = track i (tr\<lparr>timers := (timers tr)(i := \<lparr>mIsEnabled = True, mBt = new_timer\<rparr>)\<rparr>)"

definition tt_delete :: "nat \<Rightarrow> tracker \<Rightarrow> tracker" where
  "tt_delete i tr = (let tr1 = untrack i tr in tr1\<lparr>timers := (timers tr1)(i := \<lparr>mIsEnabled = False, mBt = new_timer\<rparr>)\<rparr>)"

text \<open>The group update: the timers to work on are collected first, then updated in that order.\<close>

fun update_all :: "dstime \<Rightarrow> bool \<Rightarrow> nat list \<Rightarrow> dstime \<Rightarrow> tracker \<Rightarrow> tracker \<times> dstime" where
  "update_all ds transfers [] waituntil tr = (tr, waituntil)"
| "update_all ds transfers (i # v) waituntil tr =
    (let (tr1, w1) = tt_update ds i waituntil tr;
         tr2 = (if transfers \<and> bt_armed ds (mBt (timers tr1 i)) then tt_set 0 i tr1 else tr1)
     in update_all ds transfers v w1 tr2)"

fun collect_armed :: "dstime \<Rightarrow> (nat \<Rightarrow> tracked) \<Rightarrow> (dstime \<times> nat) list \<Rightarrow> nat list" where
  "collect_armed ds ts [] = []"
| "collect_armed ds ts ((k, i) # m) =
    (if bt_armed ds (mBt (ts i)) then [i] else []) @ (if k > ds then [] else collect_armed ds ts m)"

definition group_update :: "dstime \<Rightarrow> bool \<Rightarrow> dstime \<Rightarrow> tracker \<Rightarrow> tracker \<times> dstime" where
  "group_update ds transfers waituntil tr =
    (let v = (if transfers then map snd (takeWhile (\<lambda>(k, i). k \<le> ds) (timeouts tr))
              else collect_armed ds (timers tr) (timeouts tr))
     in update_all ds transfers v waituntil tr)"

section \<open>The interface a transfer relies on\<close>

text \<open>
  What the owner of a timer may assume: arming makes the timer due, and a backoff to \<open>NEVER\<close> does
  not.  \<open>sane\<close> is the timer's own invariant.
\<close>

locale retry_timer =
  fixes armed :: "dstime \<Rightarrow> 't \<Rightarrow> bool" and arm :: "dstime \<Rightarrow> 't \<Rightarrow> 't" and stop :: "dstime \<Rightarrow> 't \<Rightarrow> 't"
    and sane :: "'t \<Rightarrow> bool"
  assumes sane_arm: "sane t \<Longrightarrow> sane (arm ds t)"
    and armed_arm: "sane t \<Longrightarrow> armed ds (arm ds t)"
    and armed_later: "armed ds t \<Longrightarrow> ds \<le> ds' \<Longrightarrow> armed ds' t"
    and stopped: "ds < NEVER \<Longrightarrow> \<not> armed ds (stop ds t)"
begin

lemma armed_arm_later: "sane t \<Longrightarrow> ds \<le> ds' \<Longrightarrow> armed ds' (arm ds t)"
  using armed_arm armed_later by blast

lemma arm_restarts: "sane (stop ds t) \<Longrightarrow> ds < NEVER \<Longrightarrow> \<not> armed ds (stop ds t) \<and> armed ds (arm ds (stop ds t))"
  using stopped armed_arm by blast

end

definition timer_sane :: "timer \<Rightarrow> bool" where
  "timer_sane t \<longleftrightarrow> 0 \<le> delta t"

interpretation timer: retry_timer bt_armed "\<lambda>ds t. snd (bt_arm ds t)" "\<lambda>ds. bt_backoff_to ds NEVER" timer_sane
  by unfold_locales (auto simp: bt_armed_def bt_arm_def bt_backoff_to_def timer_sane_def NEVER_def split: if_splits)

section \<open>Exponential growth with a cap\<close>

lemma min_doubling: "(0 :: int) < x \<Longrightarrow> min (2 * min x 6000) 6000 = min (2 * x) 6000"
  by simp

text \<open>A run of backoffs: each has its time and its random part, at most half of the new base.\<close>

definition backoff_run :: "(dstime \<times> (dstime \<Rightarrow> dstime)) list \<Rightarrow> timer \<Rightarrow> timer" where
  "backoff_run xs t = fold (\<lambda>(ds, jitter). bt_backoff ds jitter) xs t"

lemma backoff_run_base:
  assumes "\<forall>(ds, j) \<in> set xs. \<forall>b \<ge> 0. 0 \<le> j b \<and> 2 * j b \<le> b"
  shows "base (backoff_run xs (bt_reset t)) = min (2 ^ length xs) 6000 \<and>
    base (backoff_run xs (bt_reset t)) \<le> delta (backoff_run xs (bt_reset t)) \<and>
    2 * delta (backoff_run xs (bt_reset t)) \<le> 3 * base (backoff_run xs (bt_reset t))"
  using assms
proof (induction xs rule: rev_induct)
  case Nil
  then show ?case by (simp add: backoff_run_def bt_reset_def)
next
  case (snoc x xs)
  obtain ds j where x: "x = (ds, j)" by fastforce
  let ?t = "backoff_run xs (bt_reset t)"
  have b: "base ?t = min (2 ^ length xs) 6000" using snoc by auto
  have j: "0 \<le> j c \<and> 2 * j c \<le> c" if "0 \<le> c" for c using snoc.prems x that by auto
  have run: "backoff_run (xs @ [x]) (bt_reset t) = bt_backoff ds j ?t" by (simp add: backoff_run_def x)
  have "base (bt_backoff ds j ?t) = min (2 * min (2 ^ length xs) 6000) 6000"
    by (simp add: bt_backoff_def b Let_def)
  then have base: "base (bt_backoff ds j ?t) = min (2 ^ length (xs @ [x])) 6000"
    by (simp add: min_doubling)
  have "delta (bt_backoff ds j ?t) = base (bt_backoff ds j ?t) + j (base (bt_backoff ds j ?t))"
    by (simp add: bt_backoff_def Let_def)
  moreover have "0 \<le> base (bt_backoff ds j ?t)" using base by simp
  ultimately show ?case using base j [of "base (bt_backoff ds j ?t)"] run by auto
qed

section \<open>The tracker's invariant\<close>

definition tracker_inv :: "tracker \<Rightarrow> bool" where
  "tracker_inv tr \<longleftrightarrow> sorted (map fst (timeouts tr)) \<and> distinct (map snd (timeouts tr)) \<and>
     (\<forall>k i. (k, i) \<in> set (timeouts tr) \<longleftrightarrow> is_tracked (timers tr i) \<and> k = nxt (mBt (timers tr i)))"

lemma set_multimap_emplace: "set (multimap_emplace k i m) = insert (k, i) (set m)"
  by (induction k i m rule: multimap_emplace.induct) auto

lemma sorted_multimap_emplace: "sorted (map fst m) \<Longrightarrow> sorted (map fst (multimap_emplace k i m))"
proof (induction k i m rule: multimap_emplace.induct)
  case (2 k i k' i' m)
  then show ?case by (auto simp: set_multimap_emplace)
qed simp

lemma distinct_multimap_emplace:
  "distinct (map snd m) \<Longrightarrow> i \<notin> snd ` set m \<Longrightarrow> distinct (map snd (multimap_emplace k i m))"
  by (induction k i m rule: multimap_emplace.induct) (auto simp: set_multimap_emplace)

lemma untrack_filter: "tracker_inv tr \<Longrightarrow> untrack i tr = tr\<lparr>timeouts := filter (\<lambda>(k, j). j \<noteq> i) (timeouts tr)\<rparr>"
proof (cases "is_tracked (timers tr i)")
  case False
  assume "tracker_inv tr"
  then have "\<forall>x \<in> set (timeouts tr). case x of (k, j) \<Rightarrow> j \<noteq> i" using False by (auto simp: tracker_inv_def)
  then have "filter (\<lambda>(k, j). j \<noteq> i) (timeouts tr) = timeouts tr" by (simp add: filter_id_conv)
  then show ?thesis using False by (simp add: untrack_def)
qed (simp add: untrack_def)

lemma sorted_filter_fst: "sorted (map fst m) \<Longrightarrow> sorted (map fst (filter P m))"
  by (induction m) auto

lemma timeouts_with_timer:
  "tracker_inv tr \<Longrightarrow> timeouts (with_timer i f tr) =
    (let rest = filter (\<lambda>(k, j). j \<noteq> i) (timeouts tr); t = f (timers tr i)
     in if is_tracked t then multimap_emplace (nxt (mBt t)) i rest else rest)"
  by (auto simp: with_timer_def untrack_filter track_def tracker_add_def Let_def is_tracked_def)

lemma timers_with_timer: "timers (with_timer i f tr) = (timers tr)(i := f (timers tr i))"
  by (auto simp: with_timer_def untrack_def track_def tracker_add_def Let_def)

lemma tracker_inv_with_timer [inv_intros]: "tracker_inv tr \<Longrightarrow> tracker_inv (with_timer i f tr)"
proof -
  assume inv: "tracker_inv tr"
  let ?rest = "filter (\<lambda>(k, j). j \<noteq> i) (timeouts tr)"
  have r: "sorted (map fst ?rest)" "distinct (map snd ?rest)" "i \<notin> snd ` set ?rest"
    using inv by (auto simp: tracker_inv_def sorted_filter_fst distinct_map_filter)
  then show ?thesis
    using inv by (auto simp: tracker_inv_def timeouts_with_timer timers_with_timer Let_def set_multimap_emplace
      sorted_multimap_emplace distinct_multimap_emplace)
qed

section \<open>What a group update does\<close>

definition cleared :: "tracked \<Rightarrow> tracked" where
  "cleared t = t\<lparr>mBt := (mBt t)\<lparr>nxt := 0\<rparr>\<rparr>"

definition fired :: "tracked \<Rightarrow> tracked" where
  "fired t = t\<lparr>mBt := (mBt t)\<lparr>nxt := 1\<rparr>\<rparr>"

lemma is_tracked_cleared [simp]: "\<not> is_tracked (cleared t)"
  by (simp add: is_tracked_def cleared_def)

lemma tracker_eqI: "timeouts a = timeouts b \<Longrightarrow> timers a = timers b \<Longrightarrow> a = (b :: tracker)"
  by (cases a; cases b) simp

lemma filter_emplace_same: "i \<notin> snd ` set m \<Longrightarrow> filter (\<lambda>(k, j). j \<noteq> i) (multimap_emplace n i m) = m"
proof (induction n i m rule: multimap_emplace.induct)
  case (2 k i k' i' m)
  then have "filter (\<lambda>(k, j). j \<noteq> i) m = m" by (auto simp: filter_id_conv image_iff)
  then show ?case using 2 by auto
qed simp

text \<open>One expired timer of a transfer group: it ends cleared and out of the tracker.\<close>

lemma transfer_step:
  assumes inv: "tracker_inv tr" and due: "is_tracked (timers tr i)" "nxt (mBt (timers tr i)) \<le> ds"
  shows "fst (tt_update ds i w tr) = with_timer i fired tr"
    and "snd (tt_update ds i w tr) = (if nxt (mBt (timers tr i)) = 1 then ds + 1 else 0)"
    and "tt_set 0 i (with_timer i fired tr) =
      tr\<lparr>timeouts := filter (\<lambda>(k, j). j \<noteq> i) (timeouts tr), timers := (timers tr)(i := cleared (timers tr i))\<rparr>"
proof -
  have cong: "\<And>f g. f (timers tr i) = g (timers tr i) \<Longrightarrow> with_timer i f tr = with_timer i g tr"
    by (simp add: with_timer_def untrack_def)
  show "fst (tt_update ds i w tr) = with_timer i fired tr"
    unfolding tt_update_def fst_conv
    by (rule cong) (use due in \<open>simp add: bt_update_def fired_def is_tracked_def\<close>)
  show "snd (tt_update ds i w tr) = (if nxt (mBt (timers tr i)) = 1 then ds + 1 else 0)"
    using due by (simp add: tt_update_def bt_update_def is_tracked_def)
  have inv': "tracker_inv (with_timer i fired tr)" using inv by (rule inv_intros)
  have tm: "timers (with_timer i fired tr) i = fired (timers tr i)" by (simp add: timers_with_timer)
  have set0: "(\<lambda>t. t\<lparr>mBt := bt_set 0 (mBt t)\<rparr>) (fired (timers tr i)) = cleared (timers tr i)"
    by (simp add: fired_def bt_set_def cleared_def)
  have "i \<notin> snd ` set (filter (\<lambda>(k, j). j \<noteq> i) (timeouts tr))" by auto
  then have "filter (\<lambda>(k, j). j \<noteq> i) (timeouts (with_timer i fired tr)) = filter (\<lambda>(k, j). j \<noteq> i) (timeouts tr)"
    by (simp add: timeouts_with_timer [OF inv] Let_def filter_emplace_same)
  then show "tt_set 0 i (with_timer i fired tr) =
      tr\<lparr>timeouts := filter (\<lambda>(k, j). j \<noteq> i) (timeouts tr), timers := (timers tr)(i := cleared (timers tr i))\<rparr>"
    by (intro tracker_eqI) (simp_all add: tt_set_def timeouts_with_timer [OF inv'] timers_with_timer tm set0 Let_def)
qed

lemma tracker_inv_cleared:
  "tracker_inv tr \<Longrightarrow> tracker_inv (tr\<lparr>timeouts := filter (\<lambda>(k, j). j \<noteq> i) (timeouts tr), timers := (timers tr)(i := cleared (timers tr i))\<rparr>)"
  by (auto simp: tracker_inv_def sorted_filter_fst distinct_map_filter)

lemma update_all_transfers:
  assumes "tracker_inv tr" "distinct v" "\<forall>i \<in> set v. is_tracked (timers tr i) \<and> nxt (mBt (timers tr i)) \<le> ds"
  shows "update_all ds True v w tr =
    (tr\<lparr>timeouts := filter (\<lambda>(k, j). j \<notin> set v) (timeouts tr),
        timers := (\<lambda>j. if j \<in> set v then cleared (timers tr j) else timers tr j)\<rparr>,
     if v = [] then w else if nxt (mBt (timers tr (last v))) = 1 then ds + 1 else 0)"
  using assms
proof (induction v arbitrary: w tr)
  case Nil
  then show ?case by (simp add: case_prod_beta')
next
  case (Cons i v)
  let ?tr = "tr\<lparr>timeouts := filter (\<lambda>(k, j). j \<noteq> i) (timeouts tr), timers := (timers tr)(i := cleared (timers tr i))\<rparr>"
  let ?w = "if nxt (mBt (timers tr i)) = 1 then ds + 1 else 0"
  have due: "is_tracked (timers tr i)" "nxt (mBt (timers tr i)) \<le> ds" using Cons.prems by auto
  note step = transfer_step [OF Cons.prems(1) due]
  have "bt_armed ds (mBt (timers (with_timer i fired tr) i))"
    by (simp add: timers_with_timer fired_def bt_armed_def)
  then have "update_all ds True (i # v) w tr = update_all ds True v ?w ?tr"
    using step by (simp add: case_prod_beta' Let_def)
  also have "\<dots> = (?tr\<lparr>timeouts := filter (\<lambda>(k, j). j \<notin> set v) (timeouts ?tr),
        timers := (\<lambda>j. if j \<in> set v then cleared (timers ?tr j) else timers ?tr j)\<rparr>,
      if v = [] then ?w else if nxt (mBt (timers ?tr (last v))) = 1 then ds + 1 else 0)"
    using Cons.prems by (intro Cons.IH tracker_inv_cleared) auto
  also have "\<dots> = (tr\<lparr>timeouts := filter (\<lambda>(k, j). j \<notin> set (i # v)) (timeouts tr),
        timers := (\<lambda>j. if j \<in> set (i # v) then cleared (timers tr j) else timers tr j)\<rparr>,
      if i # v = [] then w else if nxt (mBt (timers tr (last (i # v)))) = 1 then ds + 1 else 0)"
  proof -
    have "timeouts ?tr = filter (\<lambda>(k, j). j \<noteq> i) (timeouts tr)" "timers ?tr = (timers tr)(i := cleared (timers tr i))"
      by simp_all
    moreover have "filter (\<lambda>(k, j). j \<notin> set v) (filter (\<lambda>(k, j). j \<noteq> i) (timeouts tr)) =
        filter (\<lambda>(k, j). j \<notin> set (i # v)) (timeouts tr)"
      by (auto intro!: filter_cong)
    moreover have "last v \<noteq> i" if "v \<noteq> []" using Cons.prems(2) last_in_set [OF that] by auto
    ultimately show ?thesis using Cons.prems(2)
      by (intro prod_eqI tracker_eqI) (simp_all add: fun_eq_iff)
  qed
  finally show ?case .
qed

lemma takeWhile_sorted_filter: "sorted (map fst m) \<Longrightarrow> takeWhile (\<lambda>(k, i). k \<le> ds) m = filter (\<lambda>(k, i). k \<le> ds) m"
proof (induction m)
  case (Cons x m)
  have "filter (\<lambda>(k, i). k \<le> ds) m = []" if "ds < fst x"
    using Cons.prems that by (fastforce simp: filter_empty_conv)
  then show ?case using Cons by (cases x) auto
qed simp

lemma collect_armed_none:
  "\<forall>(k, i) \<in> set m. ds < k \<and> \<not> bt_armed ds (mBt (ts i)) \<Longrightarrow> collect_armed ds ts m = []"
  by (cases m) auto

text \<open>The ways the timers of a group change.\<close>

inductive tracker_reachable :: "tracker \<Rightarrow> bool" where
  none: "tracker_reachable \<lparr>timeouts = [], timers = (\<lambda>_. \<lparr>mIsEnabled = False, mBt = new_timer\<rparr>)\<rparr>"
| new: "tracker_reachable tr \<Longrightarrow> \<not> mIsEnabled (timers tr i) \<Longrightarrow> tracker_reachable (tt_new i tr)"
| delete: "tracker_reachable tr \<Longrightarrow> tracker_reachable (tt_delete i tr)"
| arm: "tracker_reachable tr \<Longrightarrow> tracker_reachable (snd (tt_arm ds i tr))"
| backoff: "tracker_reachable tr \<Longrightarrow> tracker_reachable (tt_backoff ds jitter i tr)"
| backoff_to: "tracker_reachable tr \<Longrightarrow> tracker_reachable (tt_backoff_to ds d i tr)"
| set: "tracker_reachable tr \<Longrightarrow> tracker_reachable (tt_set newds i tr)"
| reset: "tracker_reachable tr \<Longrightarrow> tracker_reachable (tt_reset i tr)"
| enable: "tracker_reachable tr \<Longrightarrow> tracker_reachable (tt_enable b i tr)"
| update: "tracker_reachable tr \<Longrightarrow> tracker_reachable (fst (group_update ds transfers w tr))"

lemma tracker_inv_update_all: "tracker_inv tr \<Longrightarrow> tracker_inv (fst (update_all ds transfers v w tr))"
proof (induction v arbitrary: w tr)
  case (Cons i v)
  then show ?case
    by (simp add: Let_def case_prod_beta' tt_update_def tt_set_def tracker_inv_with_timer)
qed simp

lemma tracker_inv_new: "tracker_inv tr \<Longrightarrow> \<not> mIsEnabled (timers tr i) \<Longrightarrow> tracker_inv (tt_new i tr)"
  by (auto simp: tt_new_def track_def is_tracked_def new_timer_def bt_reset_def tracker_inv_def)

lemma tracker_inv_delete: "tracker_inv tr \<Longrightarrow> tracker_inv (tt_delete i tr)"
  by (auto simp: tt_delete_def untrack_filter Let_def is_tracked_def tracker_inv_def sorted_filter_fst distinct_map_filter)

lemmas tracked_ops = tt_arm_def tt_backoff_def tt_backoff_to_def tt_set_def tt_reset_def tt_enable_def group_update_def

section \<open>Properties\<close>



text \<open>C17: Whatever is done to the timers of a group, the tracker holds exactly the enabled timers with a trigger
  time, each once and under its trigger time, in order of time.\<close>

theorem tracker_exact: "tracker_reachable tr \<Longrightarrow>
    sorted (map fst (timeouts tr)) \<and> distinct (map snd (timeouts tr)) \<and>
    (\<forall>k i. (k, i) \<in> set (timeouts tr) \<longleftrightarrow> is_tracked (timers tr i) \<and> k = nxt (mBt (timers tr i)))"
  unfolding tracker_inv_def [symmetric]
proof (induction rule: tracker_reachable.induct)
  case none
  then show ?case by (simp add: tracker_inv_def is_tracked_def)
qed (simp_all add: tracked_ops Let_def tracker_inv_new tracker_inv_delete tracker_inv_with_timer tracker_inv_update_all)

theorem tracker_exact_witness:
  "let tr = tt_backoff_to 100 7 1 (tt_backoff_to 100 9 0 (tt_new 1 (tt_new 0
     \<lparr>timeouts = [], timers = (\<lambda>_. \<lparr>mIsEnabled = False, mBt = new_timer\<rparr>)\<rparr>)))
   in timeouts tr = [(107, 1), (109, 0)] \<and> is_tracked (timers tr 1) \<and> 107 = nxt (mBt (timers tr 1))"
proof -
  let ?t0 = "\<lparr>timeouts = [], timers = (\<lambda>_. \<lparr>mIsEnabled = False, mBt = new_timer\<rparr>)\<rparr>"
  let ?tr = "tt_backoff_to 100 7 1 (tt_backoff_to 100 9 0 (tt_new 1 (tt_new 0 ?t0)))"
  have "\<not> mIsEnabled (timers ?t0 0)" "\<not> mIsEnabled (timers (tt_new 0 ?t0) 1)" by code_simp+
  then have "tracker_reachable ?tr" by (intro tracker_reachable.intros)
  moreover have t: "timeouts ?tr = [(107, 1), (109, 0)]" by code_simp
  then have "(107, 1) \<in> set (timeouts ?tr)" by simp
  ultimately have "is_tracked (timers ?tr 1) \<and> 107 = nxt (mBt (timers ?tr 1))" using tracker_exact by blast
  then show ?thesis using t by (simp only: Let_def simp_thms)
qed



end
