(* ===== verification/Mega_TransferList.thy ===== *)
theory Mega_TransferList
  imports Mega_LazyDeque Mega_Backoff "HOL-Library.Sublist"
begin

text \<open>
  \<^verbatim>\<open>TransferList\<close> of \<^verbatim>\<open>src/transfer.cpp\<close>: the two queues of transfers, each ordered by a 64-bit priority that
  is also what the transfer cache stores, so that the order survives a restart.  Transfers are
  known by number and kept in a store; the client's slots, its storage status and the priorities
  in the transfer cache are part of the state, the time is an argument.  The model is of a build
  without WebSocket uploads.  The lemmas give the list each operation produces, and that the
  priorities stay strictly ordered and equal to the cached ones.
\<close>

section \<open>State\<close>

datatype transferstate =
    TS_NONE | TS_QUEUED | TS_ACTIVE | TS_PAUSED | TS_RETRYING | TS_COMPLETING | TS_COMPLETED | TS_CANCELLED | TS_FAILED

text \<open>A transfer: whether it has a slot, its retry timer, for each of its files whether the file's cancel token is cancelled, and whether an asynchronous open is done.\<close>

record xfer =
  xtype :: direction
  priority :: u64
  state :: transferstate
  slot :: bool
  xbt :: timer
  xsize :: int
  files :: "bool list"
  asyncopen_finished :: bool

record transfer_list =
  transfers :: "direction \<Rightarrow> lazy_deque"
  currentpriority :: u64
  store :: "nat \<Rightarrow> xfer"
  tslots :: "nat list"
  storage_red :: bool
  cached :: "nat \<Rightarrow> u64 option"

definition PRIORITY_START :: u64 where
  "PRIORITY_START = 0x0000800000000000"

definition PRIORITY_STEP :: u64 where
  "PRIORITY_STEP = 0x0000000000010000"

definition new_transfer_list :: "(nat \<Rightarrow> xfer) \<Rightarrow> transfer_list" where
  "new_transfer_list ts = \<lparr>transfers = (\<lambda>_. dq_empty), currentpriority = PRIORITY_START, store = ts,
     tslots = [], storage_red = False, cached = (\<lambda>_. None)\<rparr>"

definition pri :: "transfer_list \<Rightarrow> nat \<Rightarrow> u64" where
  "pri st t = priority (store st t)"

definition set_xfer :: "nat \<Rightarrow> (xfer \<Rightarrow> xfer) \<Rightarrow> transfer_list \<Rightarrow> transfer_list" where
  "set_xfer t f st = st\<lparr>store := (store st)(t := f (store st t))\<rparr>"

definition transfercacheadd :: "nat \<Rightarrow> transfer_list \<Rightarrow> transfer_list" where
  "transfercacheadd t st = st\<lparr>cached := (cached st)(t \<mapsto> pri st t)\<rparr>"

definition set_priority :: "nat \<Rightarrow> u64 \<Rightarrow> transfer_list \<Rightarrow> transfer_list" where
  "set_priority t p = set_xfer t (\<lambda>x. x\<lparr>priority := p\<rparr>)"

definition on_deque :: "direction \<Rightarrow> (lazy_deque \<Rightarrow> lazy_deque) \<Rightarrow> transfer_list \<Rightarrow> transfer_list" where
  "on_deque dir f st = st\<lparr>transfers := (transfers st)(dir := f (transfers st dir))\<rparr>"

text \<open>The queue as every accessor but the lazy erase sees it.\<close>

definition queue :: "transfer_list \<Rightarrow> direction \<Rightarrow> nat list" where
  "queue st dir = live (transfers st dir)"

section \<open>Slots\<close>

text \<open>Giving up a slot: the timer is armed unless storage is full and the transfer is an upload.\<close>

definition release_slot :: "dstime \<Rightarrow> nat \<Rightarrow> transfer_list \<Rightarrow> transfer_list" where
  "release_slot ds t st =
    (let x = store st t;
         x' = (if \<not> storage_red st \<or> xtype x = GET then x\<lparr>xbt := snd (bt_arm ds (xbt x))\<rparr> else x)
     in st\<lparr>store := (store st)(t := x'\<lparr>slot := False\<rparr>), tslots := removeAll t (tslots st)\<rparr>)"

definition isReady :: "dstime \<Rightarrow> xfer \<Rightarrow> bool" where
  "isReady ds x \<longleftrightarrow> (state x = TS_QUEUED \<or> state x = TS_RETRYING) \<and> bt_armed ds (xbt x)"

definition lastActiveTransfer :: "nat \<Rightarrow> transfer_list \<Rightarrow> nat option" where
  "lastActiveTransfer t st =
    fold (\<lambda>u last. let x = store st u in
      if xtype x = xtype (store st t) \<and> slot x \<and> state x = TS_ACTIVE \<and> pri st u > pri st t \<and>
         (case last of None \<Rightarrow> True | Some l \<Rightarrow> pri st u > pri st l)
      then Some u else last) (tslots st) None"

definition prepareIncreasePriority :: "dstime \<Rightarrow> nat \<Rightarrow> nat \<Rightarrow> transfer_list \<Rightarrow> transfer_list" where
  "prepareIncreasePriority ds t dst st =
    (if dst = length (queue st (xtype (store st t))) then st
     else if \<not> slot (store st t) \<and> state (store st t) \<noteq> TS_PAUSED then
       (case lastActiveTransfer t st of
          None \<Rightarrow> st
        | Some l \<Rightarrow> transfercacheadd l (set_xfer l (\<lambda>x. x\<lparr>state := TS_QUEUED\<rparr>) (release_slot ds l st)))
     else st)"

fun scan_ready :: "dstime \<Rightarrow> transfer_list \<Rightarrow> nat \<Rightarrow> nat \<Rightarrow> nat list \<Rightarrow> bool" where
  "scan_ready ds st cit dst [] = False"
| "scan_ready ds st cit dst (u # us) =
    (if \<not> slot (store st u) \<and> isReady ds (store st u) then True
     else if cit = dst then False
     else scan_ready ds st (Suc cit) dst us)"

definition prepareDecreasePriority :: "dstime \<Rightarrow> nat \<Rightarrow> nat \<Rightarrow> nat \<Rightarrow> transfer_list \<Rightarrow> transfer_list" where
  "prepareDecreasePriority ds t it dst st =
    (if slot (store st t) \<and> state (store st t) = TS_ACTIVE \<and>
        scan_ready ds st (Suc it) dst (drop (Suc it) (queue st (xtype (store st t))))
     then set_xfer t (\<lambda>x. x\<lparr>state := TS_QUEUED\<rparr>) (release_slot ds t st)
     else st)"

section \<open>Adding, removing and finding\<close>

definition getIterator :: "nat \<Rightarrow> transfer_list \<Rightarrow> nat option" where
  "getIterator t st =
    (let xs = queue st (xtype (store st t)); i = lower_bound (pri st) xs (pri st t) in
     if i < length xs \<and> xs ! i = t then Some i else None)"

definition addtransfer :: "dstime \<Rightarrow> nat \<Rightarrow> bool \<Rightarrow> transfer_list \<Rightarrow> transfer_list" where
  "addtransfer ds t startFirst st0 =
    (let st = (if state (store st0 t) \<noteq> TS_PAUSED then set_xfer t (\<lambda>x. x\<lparr>state := TS_QUEUED\<rparr>) st0 else st0);
         dir = xtype (store st t); xs = queue st dir
     in if pri st t = 0 then
          if startFirst \<and> xs \<noteq> [] then
            let st1 = set_priority t (pri st (xs ! 0) - PRIORITY_STEP) st;
                st2 = prepareIncreasePriority ds t 0 st1
            in transfercacheadd t (on_deque dir (dq_push_front t) st2)
          else
            let st1 = st\<lparr>currentpriority := currentpriority st + PRIORITY_STEP\<rparr>;
                st2 = set_priority t (currentpriority st1) st1
            in transfercacheadd t (on_deque dir (dq_push_back t) st2)
        else on_deque dir (dq_insert (lower_bound (pri st) xs (pri st t)) t) st)"

definition removetransfer :: "nat \<Rightarrow> transfer_list \<Rightarrow> transfer_list" where
  "removetransfer t st = on_deque (xtype (store st t)) (dq_remove (pri st) t) st"

definition transferat :: "direction \<Rightarrow> nat \<Rightarrow> transfer_list \<Rightarrow> nat option" where
  "transferat dir position st =
    (if dq_size (transfers st dir) > position then dq_at (transfers st dir) position else None)"

section \<open>Moving\<close>

text \<open>The loop that spreads the priorities of the first transfers; the result is the next free one.\<close>

fun spread_priorities :: "nat list \<Rightarrow> u64 \<Rightarrow> transfer_list \<Rightarrow> u64 \<times> transfer_list" where
  "spread_priorities [] fixedPriority st = (fixedPriority, st)"
| "spread_priorities (u # us) fixedPriority st =
    spread_priorities us (fixedPriority + PRIORITY_STEP) (transfercacheadd u (set_priority u fixedPriority st))"

text \<open>The priority of a transfer moved before position \<open>dst\<close>: half way between its neighbours, after spreading when there is no room.\<close>

definition place_priority :: "nat \<Rightarrow> nat \<Rightarrow> nat list \<Rightarrow> transfer_list \<Rightarrow> transfer_list" where
  "place_priority t dst xs st =
    (let nextpriority = pri st (xs ! dst);
         prevpriority = (if dst \<noteq> 0 then pri st (xs ! (dst - 1)) else nextpriority - 2 * PRIORITY_STEP);
         newpriority = (prevpriority + nextpriority) div 2;
         (newpriority, st1) =
           (if prevpriority = newpriority
            then spread_priorities (take dst xs) (pri st (xs ! 0) - PRIORITY_STEP * (of_nat dst + 1)) st
            else (newpriority, st))
     in set_priority t newpriority st1)"

definition erase_at_index :: "nat \<Rightarrow> transfer_list \<Rightarrow> direction \<Rightarrow> transfer_list" where
  "erase_at_index i st dir = on_deque dir (\<lambda>d. dq_erase (pri st) i (applyErase d)) st"

definition movetransfer :: "dstime \<Rightarrow> nat \<Rightarrow> nat \<Rightarrow> direction \<Rightarrow> transfer_list \<Rightarrow> transfer_list" where
  "movetransfer ds it dst dir st =
    (if it = dst then st
     else if it + 1 = dst then st
     else let xs = queue st dir; t = xs ! it in
       if dst = length xs then
         let st1 = prepareDecreasePriority ds t it dst st;
             st2 = erase_at_index it st1 dir;
             st3 = st2\<lparr>currentpriority := currentpriority st2 + PRIORITY_STEP\<rparr>;
             st4 = set_priority t (currentpriority st3) st3
         in transfercacheadd t (on_deque dir (dq_push_back t) st4)
       else
         let st2 = place_priority t dst xs st;
             (dstindex, st3) =
               (if it > dst then (dst, prepareIncreasePriority ds t dst st2)
                else (dst - 1, prepareDecreasePriority ds t it dst st2));
             st4 = erase_at_index it st3 dir
         in transfercacheadd t (on_deque dir (dq_insert dstindex t) st4))"

definition movetransfer_to :: "dstime \<Rightarrow> nat \<Rightarrow> nat \<Rightarrow> transfer_list \<Rightarrow> transfer_list" where
  "movetransfer_to ds t dst st =
    (case getIterator t st of None \<Rightarrow> st | Some it \<Rightarrow> movetransfer ds it dst (xtype (store st t)) st)"

definition movetransfer_position :: "dstime \<Rightarrow> nat \<Rightarrow> nat \<Rightarrow> transfer_list \<Rightarrow> transfer_list" where
  "movetransfer_position ds t position st =
    (let n = length (queue st (xtype (store st t))) in
     movetransfer_to ds t (if position \<ge> n then n else position) st)"

definition movetransfer_before :: "dstime \<Rightarrow> nat \<Rightarrow> nat \<Rightarrow> transfer_list \<Rightarrow> transfer_list" where
  "movetransfer_before ds t prev st =
    (case getIterator prev st of None \<Rightarrow> st | Some dst \<Rightarrow> movetransfer_to ds t dst st)"

definition movetofirst :: "dstime \<Rightarrow> nat \<Rightarrow> transfer_list \<Rightarrow> transfer_list" where
  "movetofirst ds t st = movetransfer_to ds t 0 st"

definition movetolast :: "dstime \<Rightarrow> nat \<Rightarrow> transfer_list \<Rightarrow> transfer_list" where
  "movetolast ds t st = movetransfer_to ds t (length (queue st (xtype (store st t)))) st"

definition moveup :: "dstime \<Rightarrow> nat \<Rightarrow> transfer_list \<Rightarrow> transfer_list" where
  "moveup ds t st =
    (case getIterator t st of
       None \<Rightarrow> st
     | Some it \<Rightarrow> if it = 0 then st else movetransfer ds it (it - 1) (xtype (store st t)) st)"

definition movedown :: "dstime \<Rightarrow> nat \<Rightarrow> transfer_list \<Rightarrow> transfer_list" where
  "movedown ds t st =
    (case getIterator t st of
       None \<Rightarrow> st
     | Some it \<Rightarrow>
         if it + 1 = length (queue st (xtype (store st t))) then st
         else movetransfer ds it (it + 1 + 1) (xtype (store st t)) st)"

text \<open>The overloads on iterators.\<close>

definition movetofirst_iterator :: "dstime \<Rightarrow> nat \<Rightarrow> direction \<Rightarrow> transfer_list \<Rightarrow> transfer_list" where
  "movetofirst_iterator ds it dir st = movetransfer ds it 0 dir st"

definition movetolast_iterator :: "dstime \<Rightarrow> nat \<Rightarrow> direction \<Rightarrow> transfer_list \<Rightarrow> transfer_list" where
  "movetolast_iterator ds it dir st = movetransfer ds it (length (queue st dir)) dir st"

definition moveup_iterator :: "dstime \<Rightarrow> nat \<Rightarrow> direction \<Rightarrow> transfer_list \<Rightarrow> transfer_list" where
  "moveup_iterator ds it dir st = (if it = 0 then st else movetransfer ds it (it - 1) dir st)"

definition movedown_iterator :: "dstime \<Rightarrow> nat \<Rightarrow> direction \<Rightarrow> transfer_list \<Rightarrow> transfer_list" where
  "movedown_iterator ds it dir st =
    (if it = length (queue st dir) then st else movetransfer ds it (it + 1) dir st)"

section \<open>Pausing\<close>

datatype pause_error = PAUSE_OK | PAUSE_ENOENT | PAUSE_EFAILED

definition pause_transfer :: "dstime \<Rightarrow> nat \<Rightarrow> bool \<Rightarrow> transfer_list \<Rightarrow> pause_error \<times> transfer_list" where
  "pause_transfer ds t enable st =
    (let s = state (store st t) in
     if enable \<and> s = TS_PAUSED \<or> \<not> enable \<and> s \<noteq> TS_PAUSED then (PAUSE_OK, st)
     else if \<not> enable then
       let st1 = set_xfer t (\<lambda>x. x\<lparr>state := TS_QUEUED\<rparr>) st;
           st2 = (case getIterator t st1 of None \<Rightarrow> st1 | Some it \<Rightarrow> prepareIncreasePriority ds t it st1)
       in (PAUSE_OK, transfercacheadd t st2)
     else if s = TS_ACTIVE \<or> s = TS_QUEUED \<or> s = TS_RETRYING then
       let st1 = (if slot (store st t) then release_slot ds t st else st)
       in (PAUSE_OK, transfercacheadd t (set_xfer t (\<lambda>x. x\<lparr>state := TS_PAUSED\<rparr>) st1))
     else (PAUSE_EFAILED, st))"

definition pause :: "dstime \<Rightarrow> nat option \<Rightarrow> bool \<Rightarrow> transfer_list \<Rightarrow> pause_error \<times> transfer_list" where
  "pause ds p enable st =
    (case p of None \<Rightarrow> (PAUSE_ENOENT, st) | Some t \<Rightarrow> pause_transfer ds t enable st)"

section \<open>Choosing the next transfers\<close>

datatype filesizetype = LARGEFILE | SMALLFILE

definition sizetype :: "xfer \<Rightarrow> filesizetype" where
  "sizetype x = (if xsize x > 131072 then LARGEFILE else SMALLFILE)"

definition category_index :: "direction \<Rightarrow> filesizetype \<Rightarrow> nat" where
  "category_index dir sz = 2 + (case dir of GET \<Rightarrow> 0 | PUT \<Rightarrow> 1) * 2 + (case sz of LARGEFILE \<Rightarrow> 0 | SMALLFILE \<Rightarrow> 1)"

definition removeCancelledTransferFiles :: "nat \<Rightarrow> transfer_list \<Rightarrow> transfer_list" where
  "removeCancelledTransferFiles t = set_xfer t (\<lambda>x. x\<lparr>files := filter Not (files x)\<rparr>)"

definition removeAndDeleteSelf :: "transferstate \<Rightarrow> nat \<Rightarrow> transfer_list \<Rightarrow> transfer_list" where
  "removeAndDeleteSelf finalState t st =
    (let st1 = removetransfer t (set_xfer t (\<lambda>x. x\<lparr>state := finalState\<rparr>) st)
     in st1\<lparr>cached := (cached st1)(t := None)\<rparr>)"

text \<open>
  The loop over the snapshot of one queue.  The caller's functions say whether to take a transfer,
  and whether to go on with a direction; they share the state \<open>s\<close> of the caller.
\<close>

fun next_loop :: "(xfer \<Rightarrow> 's \<Rightarrow> bool \<times> 's) \<Rightarrow> (direction \<Rightarrow> 's \<Rightarrow> bool) \<Rightarrow> dstime \<Rightarrow> direction \<Rightarrow> nat list \<Rightarrow>
    's \<Rightarrow> nat list list \<Rightarrow> transfer_list \<Rightarrow> 's \<times> nat list list \<times> transfer_list" where
  "next_loop cont dircont ds dir [] s chosen st = (s, chosen, st)"
| "next_loop cont dircont ds dir (t # ts) s chosen st0 =
    (let tsSlot = slot (store st0 t);
         st = (if \<not> tsSlot then removeCancelledTransferFiles t st0 else st0);
         x = store st t
     in if \<not> tsSlot \<and> files x = [] then
          next_loop cont dircont ds dir ts s chosen (removeAndDeleteSelf TS_CANCELLED t st)
        else if \<not> dircont dir s then (s, chosen, st)
        else if \<not> tsSlot \<and> isReady ds x \<or> asyncopen_finished x then
          let (ok, s') = cont x s;
              continueLarge = (if sizetype x = LARGEFILE then ok else True);
              continueSmall = (if sizetype x = LARGEFILE then True else ok);
              i = category_index (xtype x) (sizetype x);
              chosen' = (if ok then chosen[i := chosen ! i @ [t]] else chosen)
          in if \<not> continueLarge \<and> \<not> continueSmall then (s', chosen', st)
             else next_loop cont dircont ds dir ts s' chosen' st
        else next_loop cont dircont ds dir ts s chosen st)"

definition nexttransfers :: "(xfer \<Rightarrow> 's \<Rightarrow> bool \<times> 's) \<Rightarrow> (direction \<Rightarrow> 's \<Rightarrow> bool) \<Rightarrow> dstime \<Rightarrow> 's \<Rightarrow> transfer_list \<Rightarrow>
    's \<times> nat list list \<times> transfer_list" where
  "nexttransfers cont dircont ds s st =
    (let (s1, chosen1, st1) = next_loop cont dircont ds PUT (queue st PUT) s (replicate 6 []) st
     in next_loop cont dircont ds GET (queue st1 GET) s1 chosen1 st1)"

section \<open>What the steps leave alone\<close>

text \<open>Steps that only touch states, slots and timers, and write to the cache what is current.\<close>

definition same_order :: "transfer_list \<Rightarrow> transfer_list \<Rightarrow> bool" where
  "same_order st st' \<longleftrightarrow> transfers st' = transfers st \<and> currentpriority st' = currentpriority st \<and> pri st' = pri st \<and>
     (\<forall>u. xtype (store st' u) = xtype (store st u)) \<and> (\<forall>u. cached st' u = cached st u \<or> cached st' u = Some (pri st u))"

lemma same_order_refl [simp]: "same_order st st"
  by (simp add: same_order_def)

lemma same_order_trans: "same_order st st' \<Longrightarrow> same_order st' st'' \<Longrightarrow> same_order st st''"
  unfolding same_order_def by metis

lemma same_order_release: "same_order st (release_slot ds t st)"
  by (auto simp: same_order_def release_slot_def pri_def fun_eq_iff Let_def)

lemma same_order_state: "same_order st (set_xfer t (\<lambda>x. x\<lparr>state := s\<rparr>) st)"
  by (auto simp: same_order_def set_xfer_def pri_def fun_eq_iff)

lemma same_order_cache: "same_order st (transfercacheadd t st)"
  by (auto simp: same_order_def transfercacheadd_def pri_def fun_eq_iff)

lemma same_order_increase: "same_order st (prepareIncreasePriority ds t dst st)"
  unfolding prepareIncreasePriority_def
  by (auto split: option.split intro: same_order_trans [OF same_order_release same_order_trans [OF same_order_state same_order_cache]])

lemma same_order_decrease: "same_order st (prepareDecreasePriority ds t it dst st)"
  unfolding prepareDecreasePriority_def
  by (auto intro: same_order_trans [OF same_order_release same_order_state])

lemma same_order_queue: "same_order st st' \<Longrightarrow> queue st' = queue st"
  by (simp add: same_order_def queue_def fun_eq_iff)

section \<open>The invariant\<close>

definition entry_ok :: "transfer_list \<Rightarrow> direction \<Rightarrow> nat \<Rightarrow> bool" where
  "entry_ok st dir t \<longleftrightarrow> xtype (store st t) = dir \<and> pri st t \<le> currentpriority st \<and> cached st t = Some (pri st t)"

definition tl_inv :: "transfer_list \<Rightarrow> bool" where
  "tl_inv st \<longleftrightarrow> (\<forall>dir. dq_inv (transfers st dir) \<and> dq_ordered (pri st) (transfers st dir) \<and>
     (\<forall>t \<in> set (queue st dir). entry_ok st dir t))"

lemma tl_inv_same_order: "same_order st st' \<Longrightarrow> tl_inv st \<Longrightarrow> tl_inv st'"
  unfolding tl_inv_def same_order_def entry_ok_def queue_def by metis

text \<open>The room for new priorities: below the queues and above the counter, in steps.\<close>

definition room :: "nat \<Rightarrow> transfer_list \<Rightarrow> bool" where
  "room n st \<longleftrightarrow> unat (currentpriority st) + n * 65536 < 2 ^ 63 \<and>
     (\<forall>dir. \<forall>t \<in> set (queue st dir). n * 65536 \<le> unat (pri st t))"

lemma unat_STEP [simp]: "unat PRIORITY_STEP = 65536"
  by (simp add: PRIORITY_STEP_def)

lemma live_ordered: "dq_ordered p d \<Longrightarrow> sorted_wrt (<) (map p (live d))"
proof -
  have "sorted_wrt (<) (map (entry_priority p) es) \<Longrightarrow> sorted_wrt (<) (map p (ptrs es)) \<and> (\<forall>t \<in> set (ptrs es). p t \<in> entry_priority p ` set es)" for es
  proof (induction es)
    case (Cons e es)
    then show ?case by (cases "transfer e") (auto simp: entry_priority_def)
  qed simp
  then show "dq_ordered p d \<Longrightarrow> sorted_wrt (<) (map p (live d))" by (simp add: dq_ordered_def live_def)
qed

lemma compact_ordered: "compact d \<Longrightarrow> dq_inv d \<Longrightarrow> dq_ordered p d \<longleftrightarrow> sorted_wrt (<) (map p (live d))"
proof -
  assume c: "compact d" "dq_inv d"
  have "map (entry_priority p) (mDeque d) = map (\<lambda>x. case x of Some t \<Rightarrow> p t | None \<Rightarrow> 0) (map transfer (mDeque d))"
    using c by (auto simp: entry_priority_def compact_def dq_inv_def split: option.split)
  also have "\<dots> = map p (live d)" using c by (simp add: compact_live)
  finally show ?thesis by (simp add: dq_ordered_def)
qed

lemma sorted_distinct: "sorted_wrt (<) (map p xs) \<Longrightarrow> distinct xs" for p :: "nat \<Rightarrow> u64"
  by (metis distinct_map strict_sorted_iff)

lemma tl_inv_queue:
  assumes "tl_inv st"
  shows "sorted_wrt (<) (map (pri st) (queue st dir))" "distinct (queue st dir)"
    "t \<in> set (queue st dir) \<Longrightarrow> entry_ok st dir t"
proof -
  show s: "sorted_wrt (<) (map (pri st) (queue st dir))"
    using assms live_ordered by (auto simp: tl_inv_def queue_def)
  from s show "distinct (queue st dir)" by (rule sorted_distinct)
  show "t \<in> set (queue st dir) \<Longrightarrow> entry_ok st dir t" using assms by (simp add: tl_inv_def)
qed

text \<open>
  To show the invariant of a state whose queue \<open>dir\<close> was rebuilt: the new queue is ordered and
  cached, and nothing of the other queue has changed.
\<close>

lemma tl_inv_rebuilt:
  assumes "tl_inv st" and "\<And>d. d \<noteq> dir \<Longrightarrow> transfers st' d = transfers st d"
    and "currentpriority st \<le> currentpriority st'"
    and "\<And>d u. d \<noteq> dir \<Longrightarrow> u \<in> set (queue st d) \<Longrightarrow> pri st' u = pri st u \<and> xtype (store st' u) = xtype (store st u) \<and>
      cached st' u = cached st u"
    and "compact (transfers st' dir)" "dq_inv (transfers st' dir)"
    and "sorted_wrt (<) (map (pri st') (queue st' dir))" "\<forall>t \<in> set (queue st' dir). entry_ok st' dir t"
  shows "tl_inv st'"
  unfolding tl_inv_def
proof (intro allI conjI)
  fix d
  have cong: "entry_priority (pri st') e = entry_priority (pri st) e"
    if "d \<noteq> dir" "e \<in> set (mDeque (transfers st d))" for e
    using assms(4) [OF that(1)] that(2) by (auto simp: entry_priority_def queue_def live_def set_ptrs split: option.split)
  show "dq_inv (transfers st' d)"
    using assms(1,2,6) by (cases "d = dir") (auto simp: tl_inv_def)
  show "dq_ordered (pri st') (transfers st' d)"
  proof (cases "d = dir")
    case True
    then show ?thesis using assms(5,6,7) compact_ordered by (simp add: queue_def)
  next
    case False
    then have "map (entry_priority (pri st')) (mDeque (transfers st d)) = map (entry_priority (pri st)) (mDeque (transfers st d))"
      using cong by simp
    moreover have "dq_ordered (pri st) (transfers st d)" using assms(1) by (simp add: tl_inv_def)
    ultimately show ?thesis using assms(2) [OF False] by (simp only: dq_ordered_def)
  qed
  show "\<forall>t \<in> set (queue st' d). entry_ok st' d t"
  proof (cases "d = dir")
    case False
    then have "queue st' d = queue st d" using assms(2) by (simp add: queue_def)
    then show ?thesis
      using assms(1,3) assms(4) [OF False] by (fastforce simp: tl_inv_def entry_ok_def)
  qed (use assms(8) in simp)
qed

section \<open>Deque operations on the state\<close>

lemma on_deque_simps [simp]:
  "transfers (on_deque dir f st) d = (if d = dir then f (transfers st dir) else transfers st d)"
  "store (on_deque dir f st) = store st" "pri (on_deque dir f st) = pri st" "cached (on_deque dir f st) = cached st"
  "currentpriority (on_deque dir f st) = currentpriority st" "tslots (on_deque dir f st) = tslots st"
  by (simp_all add: on_deque_def pri_def fun_eq_iff)

lemma set_priority_simps [simp]:
  "transfers (set_priority t p st) = transfers st" "currentpriority (set_priority t p st) = currentpriority st"
  "pri (set_priority t p st) = (pri st)(t := p)" "cached (set_priority t p st) = cached st"
  "xtype (store (set_priority t p st) u) = xtype (store st u)"
  by (auto simp: set_priority_def set_xfer_def pri_def fun_eq_iff)

lemma transfercacheadd_simps [simp]:
  "transfers (transfercacheadd t st) = transfers st" "currentpriority (transfercacheadd t st) = currentpriority st"
  "pri (transfercacheadd t st) = pri st" "cached (transfercacheadd t st) = (cached st)(t \<mapsto> pri st t)"
  "store (transfercacheadd t st) = store st"
  by (auto simp: transfercacheadd_def pri_def fun_eq_iff)

lemma currentpriority_update_simps [simp]:
  "transfers (st\<lparr>currentpriority := c\<rparr>) = transfers st" "pri (st\<lparr>currentpriority := c\<rparr>) = pri st"
  "store (st\<lparr>currentpriority := c\<rparr>) = store st" "cached (st\<lparr>currentpriority := c\<rparr>) = cached st"
  by (simp_all add: pri_def fun_eq_iff)

lemma queue_simps [simp]:
  "queue (set_priority t p st) = queue st" "queue (transfercacheadd t st) = queue st"
  "queue (st\<lparr>currentpriority := c\<rparr>) = queue st"
  by (simp_all add: queue_def fun_eq_iff)

lemma compact_ops [simp]:
  assumes "dq_inv d"
  shows "compact (dq_push_front t d)" "compact (dq_push_back t d)" "compact (dq_insert i t d)"
  using assms compact_applyErase [OF assms]
  by (auto simp: compact_def dq_push_front_def dq_push_back_def dq_insert_def Let_def)

text \<open>Erasing by position in the compacted deque.\<close>

lemma erase_compacted:
  assumes "dq_inv d" "distinct (live d)" "i < length (live d)"
  shows "dq_inv (dq_erase p i (applyErase d))" "live (dq_erase p i (applyErase d)) = remove1 (live d ! i) (live d)"
proof -
  let ?d = "applyErase d"
  have c: "compact ?d" "dq_inv ?d" "live ?d = live d" using assms(1) by simp_all
  then have i: "i < length (mDeque ?d)" "transfer (mDeque ?d ! i) = Some (live d ! i)"
    using assms(3) compact_length [of ?d] compact_nth [of ?d i] by simp_all
  show "dq_inv (dq_erase p i ?d)" using dq_inv_erase [OF c(2) i] .
  show "live (dq_erase p i ?d) = remove1 (live d ! i) (live d)"
    using ptrs_erase [OF i(1,2), of p] c(3) assms(2) by (simp add: live_def dq_erase_def)
qed

section \<open>Adding and removing\<close>

lemma getIterator_queue:
  assumes "tl_inv st" "t \<in> set (queue st dir)"
  shows "\<exists>i < length (queue st dir). queue st dir ! i = t \<and> getIterator t st = Some i"
proof -
  obtain i where i: "i < length (queue st dir)" "queue st dir ! i = t" using assms(2) by (auto simp: in_set_conv_nth)
  have "xtype (store st t) = dir" using tl_inv_queue(3) [OF assms] by (simp add: entry_ok_def)
  moreover have "lower_bound (pri st) (queue st dir) (pri st t) = i"
    using lower_bound_nth [OF tl_inv_queue(1) [OF assms(1)] i(1)] i(2) by simp
  ultimately show ?thesis using i by (intro exI [of _ i]) (simp add: getIterator_def)
qed

lemma getIterator_absent: "t \<notin> set (queue st (xtype (store st t))) \<Longrightarrow> getIterator t st = None"
  unfolding getIterator_def Let_def by (metis nth_mem)

lemma removetransfer_inv:
  assumes "tl_inv st"
  shows "tl_inv (removetransfer t st)" "queue (removetransfer t st) d = remove1 t (queue st d)"
proof -
  let ?dir = "xtype (store st t)"
  have inv: "dq_inv (transfers st ?dir)" "dq_ordered (pri st) (transfers st ?dir)"
    using assms by (auto simp: tl_inv_def)
  note step = dq_remove_step [OF inv tl_inv_queue(2) [OF assms, of ?dir, unfolded queue_def]]
  have q: "queue (removetransfer t st) d = (if d = ?dir then remove1 t (queue st d) else queue st d)" for d
    by (simp add: queue_def removetransfer_def step(3))
  moreover have "remove1 t (queue st d) = queue st d" if "d \<noteq> ?dir"
    using that tl_inv_queue(3) [OF assms, of t d] by (intro remove1_idem) (auto simp: entry_ok_def)
  ultimately show "queue (removetransfer t st) d = remove1 t (queue st d)" by simp
  show "tl_inv (removetransfer t st)"
    using assms step(1,2) unfolding tl_inv_def
    by (auto simp: q entry_ok_def dest: notin_set_remove1 split: if_splits)
      (auto simp: removetransfer_def entry_ok_def dest: in_set_remove1 [THEN iffD1] notin_set_remove1)
qed

text \<open>What adding does: a new transfer goes to the end or, on request, to the front; a resumed one goes where its priority says.\<close>

definition add_spec :: "nat \<Rightarrow> bool \<Rightarrow> transfer_list \<Rightarrow> nat list \<Rightarrow> nat list" where
  "add_spec t startFirst st xs =
    (if pri st t = 0 then if startFirst then t # xs else xs @ [t]
     else insert_at (lower_bound (pri st) xs (pri st t)) t xs)"

lemma other_queue: "tl_inv st \<Longrightarrow> u \<in> set (queue st d) \<Longrightarrow> xtype (store st t) \<noteq> d \<Longrightarrow> u \<noteq> t"
  by (auto dest: tl_inv_queue(3) simp: entry_ok_def)

lemma queues_disjoint: "tl_inv st \<Longrightarrow> u \<in> set (queue st d) \<Longrightarrow> u \<in> set (queue st d') \<Longrightarrow> d = d'"
  by (metis entry_ok_def tl_inv_queue(3))

lemma sorted_wrt_insert_at:
  fixes p :: "nat \<Rightarrow> u64"
  assumes "sorted_wrt (<) (map p xs)" "p t \<notin> p ` set xs"
  shows "sorted_wrt (<) (map p (insert_at (lower_bound p xs (p t)) t xs))"
  using assms
proof (induction xs)
  case (Cons x xs)
  then show ?case
    by (auto simp: insert_at_def sorted_wrt_append dest: in_set_takeD in_set_dropD)
qed (simp add: insert_at_def)

lemma same_order_transport:
  assumes "same_order st st'"
  shows "pri st' = pri st" "currentpriority st' = currentpriority st" "transfers st' = transfers st"
    "xtype (store st' u) = xtype (store st u)"
  using assms by (simp_all add: same_order_def)

lemma cached_same_order: "same_order st st' \<Longrightarrow> cached st u = Some (pri st u) \<Longrightarrow> cached st' u = Some (pri st u)"
  unfolding same_order_def by metis

lemma word_step_below: "room n st \<Longrightarrow> 0 < n \<Longrightarrow> u \<in> set (queue st d) \<Longrightarrow> pri st u - PRIORITY_STEP < pri st u"
proof -
  assume "room n st" "0 < n" "u \<in> set (queue st d)"
  then have "n * 65536 \<le> unat (pri st u)" "1 * 65536 \<le> n * 65536" by (auto simp: room_def)
  then have "PRIORITY_STEP \<le> pri st u" "65536 \<le> unat (pri st u)" by (simp_all add: word_le_nat_alt)
  then show ?thesis by (simp add: word_less_nat_alt unat_sub)
qed

lemma word_step_above: "room n st \<Longrightarrow> 0 < n \<Longrightarrow> currentpriority st < currentpriority st + PRIORITY_STEP"
proof -
  assume "room n st" "0 < n"
  then have "unat (currentpriority st) + n * 65536 < 2 ^ 63" "1 * 65536 \<le> n * 65536" by (auto simp: room_def)
  then have "unat (currentpriority st) + unat PRIORITY_STEP < 2 ^ LENGTH(64)" by simp
  then have "unat (currentpriority st + PRIORITY_STEP) = unat (currentpriority st) + 65536"
    by (subst (asm) unat_add_lem) simp
  then show ?thesis by (simp add: word_less_nat_alt)
qed

lemma room_same_order: "same_order st st' \<Longrightarrow> room n st = room n st'"
  by (simp add: room_def same_order_def queue_def)

lemma tl_inv_add_front:
  assumes inv: "tl_inv st" and room: "room n st" "0 < n" and t: "t \<notin> set (queue st dir)" "xtype (store st t) = dir"
    and q: "queue st dir = u # us"
    and st2: "same_order (set_priority t (pri st u - PRIORITY_STEP) st) st2"
  shows "tl_inv (transfercacheadd t (on_deque dir (dq_push_front t) st2))"
    and "queue (transfercacheadd t (on_deque dir (dq_push_front t) st2)) dir = t # queue st dir"
proof -
  let ?st = "transfercacheadd t (on_deque dir (dq_push_front t) st2)"
  note tr = same_order_transport [OF st2]
  have d: "dq_inv (transfers st2 dir)" using inv tr by (simp add: tl_inv_def)
  have qq: "queue ?st dir = t # queue st dir" using d tr by (simp add: queue_def ldq.seq_push_front)
  then show "queue ?st dir = t # queue st dir" .
  have lt: "pri st u - PRIORITY_STEP < pri st u" using word_step_below [OF room, of u dir] q by simp
  have srt: "sorted_wrt (<) (map (pri st) (u # us))" using tl_inv_queue(1) [OF inv, of dir] q by simp
  have same: "map ((pri st)(t := w)) (u # us) = map (pri st) (u # us)" for w using t(1) q by auto
  have c: "cached st2 v = Some (pri st v)" if "v \<in> set (queue st d)" "v \<noteq> t" for v d
    using cached_same_order [OF st2, of v] tl_inv_queue(3) [OF inv that(1)] that(2) by (simp add: entry_ok_def)
  show "tl_inv ?st"
  proof (rule tl_inv_rebuilt [OF inv, where dir = dir])
    fix d v assume d: "d \<noteq> dir" "v \<in> set (queue st d)"
    moreover have "v \<noteq> t" using other_queue [OF inv d(2), of t] t(2) d(1) by auto
    ultimately show "pri ?st v = pri st v \<and> xtype (store ?st v) = xtype (store st v) \<and> cached ?st v = cached st v"
      using c [of v d] tl_inv_queue(3) [OF inv, of v d] by (simp add: tr entry_ok_def)
  next
    have p: "pri ?st = (pri st)(t := pri st u - PRIORITY_STEP)" by (simp add: tr)
    have "\<forall>v \<in> set (u # us). pri st u - PRIORITY_STEP < pri st v" using srt lt by auto
    then have "sorted_wrt (<) ((pri st u - PRIORITY_STEP) # map (pri st) (u # us))" using srt by simp
    then show "sorted_wrt (<) (map (pri ?st) (queue ?st dir))"
      unfolding qq q p list.map(2) [of _ t] same by simp
  next
    show "\<forall>v \<in> set (queue ?st dir). entry_ok ?st dir v"
    proof
      fix v assume "v \<in> set (queue ?st dir)"
      then consider "v = t" | "v \<in> set (queue st dir)" "v \<noteq> t" using t(1) unfolding qq by auto
      then show "entry_ok ?st dir v"
      proof cases
        case 1
        have "pri st u \<le> currentpriority st" using tl_inv_queue(3) [OF inv, of u dir] q by (simp add: entry_ok_def)
        then show ?thesis using 1 lt t(2) by (simp add: entry_ok_def tr)
      next
        case 2
        then show ?thesis using tl_inv_queue(3) [OF inv 2(1)] c [OF 2] by (simp add: entry_ok_def tr)
      qed
    qed
  qed (use d tr(3) in \<open>simp_all add: tr ldq.inv_push_front\<close>)
qed

lemma tl_inv_add_back:
  assumes inv: "tl_inv st" and room: "room n st" "0 < n" and t: "t \<notin> set (queue st dir)" "xtype (store st t) = dir"
  defines "c' \<equiv> currentpriority st + PRIORITY_STEP"
  shows "tl_inv (transfercacheadd t (on_deque dir (dq_push_back t) (set_priority t c' (st\<lparr>currentpriority := c'\<rparr>))))"
    and "queue (transfercacheadd t (on_deque dir (dq_push_back t) (set_priority t c' (st\<lparr>currentpriority := c'\<rparr>)))) dir = queue st dir @ [t]"
proof -
  let ?st = "transfercacheadd t (on_deque dir (dq_push_back t) (set_priority t c' (st\<lparr>currentpriority := c'\<rparr>)))"
  have d: "dq_inv (transfers st dir)" using inv by (simp add: tl_inv_def)
  have qq: "queue ?st dir = queue st dir @ [t]" using d by (simp add: queue_def ldq.seq_push_back)
  then show "queue ?st dir = queue st dir @ [t]" .
  have lt: "currentpriority st < c'" using word_step_above [OF room] by (simp add: c'_def)
  have ok: "entry_ok st dir v" if "v \<in> set (queue st dir)" for v using tl_inv_queue(3) [OF inv that] .
  have same: "map ((pri st)(t := c')) (queue st dir) = map (pri st) (queue st dir)" using t(1) by auto
  show "tl_inv ?st"
  proof (rule tl_inv_rebuilt [OF inv, where dir = dir])
    fix d v assume d: "d \<noteq> dir" "v \<in> set (queue st d)"
    moreover have "v \<noteq> t" using other_queue [OF inv d(2), of t] t(2) d(1) by auto
    ultimately show "pri ?st v = pri st v \<and> xtype (store ?st v) = xtype (store st v) \<and> cached ?st v = cached st v"
      by simp
  next
    have p: "pri ?st = (pri st)(t := c')" by simp
    have "\<forall>v \<in> set (queue st dir). pri st v < c'"
      using ok lt by (fastforce simp: entry_ok_def intro: le_less_trans)
    then have "sorted_wrt (<) (map (pri st) (queue st dir) @ [c'])"
      using tl_inv_queue(1) [OF inv, of dir] by (auto simp: sorted_wrt_append)
    then show "sorted_wrt (<) (map (pri ?st) (queue ?st dir))"
      unfolding qq p by (simp only: same map_append list.map fun_upd_same)
  next
    have "entry_ok ?st dir v" if "v \<in> set (queue st dir)" for v
      using ok [OF that] lt that t(1) by (auto simp: entry_ok_def)
    moreover have "entry_ok ?st dir t" using t(2) by (simp add: entry_ok_def)
    ultimately show "\<forall>v \<in> set (queue ?st dir). entry_ok ?st dir v" unfolding qq by simp
  qed (use lt in \<open>simp_all add: d ldq.inv_push_back\<close>)
qed

lemma tl_inv_add_resumed:
  assumes inv: "tl_inv st" and t: "t \<notin> set (queue st dir)" "entry_ok st dir t" "pri st t \<notin> pri st ` set (queue st dir)"
  shows "tl_inv (on_deque dir (dq_insert (lower_bound (pri st) (queue st dir) (pri st t)) t) st)"
    and "queue (on_deque dir (dq_insert (lower_bound (pri st) (queue st dir) (pri st t)) t) st) dir =
      insert_at (lower_bound (pri st) (queue st dir) (pri st t)) t (queue st dir)"
proof -
  let ?st = "on_deque dir (dq_insert (lower_bound (pri st) (queue st dir) (pri st t)) t) st"
  have d: "dq_inv (transfers st dir)" using inv by (simp add: tl_inv_def)
  have qq: "queue ?st dir = insert_at (lower_bound (pri st) (queue st dir) (pri st t)) t (queue st dir)"
    using d by (simp add: queue_def ldq.seq_insert)
  then show "queue ?st dir = insert_at (lower_bound (pri st) (queue st dir) (pri st t)) t (queue st dir)" .
  have e: "entry_ok ?st d v = entry_ok st d v" for d v by (simp add: entry_ok_def)
  show "tl_inv ?st"
  proof (rule tl_inv_rebuilt [OF inv, where dir = dir])
    show "sorted_wrt (<) (map (pri ?st) (queue ?st dir))"
      using sorted_wrt_insert_at [OF tl_inv_queue(1) [OF inv] t(3)] by (simp add: qq)
    show "\<forall>v \<in> set (queue ?st dir). entry_ok ?st dir v"
      using t(2) tl_inv_queue(3) [OF inv] by (auto simp: qq e)
  qed (simp_all add: d ldq.inv_insert)
qed

section \<open>Moving\<close>

lemma spread_props:
  assumes "spread_priorities us p st = (p', st')" "distinct us"
  shows "p' = p + of_nat (length us) * PRIORITY_STEP \<and> transfers st' = transfers st \<and> currentpriority st' = currentpriority st \<and>
    (\<forall>u. xtype (store st' u) = xtype (store st u)) \<and>
    (\<forall>i < length us. pri st' (us ! i) = p + of_nat i * PRIORITY_STEP) \<and>
    (\<forall>u. u \<notin> set us \<longrightarrow> pri st' u = pri st u \<and> cached st' u = cached st u) \<and>
    (\<forall>u \<in> set us. cached st' u = Some (pri st' u))"
  using assms
proof (induction us arbitrary: p st)
  case (Cons u us)
  let ?st = "transfercacheadd u (set_priority u p st)"
  have IH: "p' = p + PRIORITY_STEP + of_nat (length us) * PRIORITY_STEP" "transfers st' = transfers ?st"
    "currentpriority st' = currentpriority ?st" "\<forall>v. xtype (store st' v) = xtype (store ?st v)"
    "\<forall>i < length us. pri st' (us ! i) = p + PRIORITY_STEP + of_nat i * PRIORITY_STEP"
    "\<forall>v. v \<notin> set us \<longrightarrow> pri st' v = pri ?st v \<and> cached st' v = cached ?st v"
    "\<forall>v \<in> set us. cached st' v = Some (pri st' v)"
    using Cons.IH [of "p + PRIORITY_STEP" ?st] Cons.prems by auto
  have u: "pri st' u = p" "cached st' u = Some p" using IH(6) Cons.prems(2) by auto
  have "pri st' ((u # us) ! i) = p + of_nat i * PRIORITY_STEP" if "i < length (u # us)" for i
    using that u IH(5) by (cases i) (auto simp: algebra_simps)
  then show ?case using IH u by (auto simp: algebra_simps)
qed simp

definition move_spec :: "nat \<Rightarrow> nat \<Rightarrow> nat list \<Rightarrow> nat list" where
  "move_spec t dst xs = filter (\<lambda>u. u \<noteq> t) (take dst xs) @ t # filter (\<lambda>u. u \<noteq> t) (drop dst xs)"

lemma sorted_filter_map: "sorted_wrt (<) (map p xs) \<Longrightarrow> sorted_wrt (<) (map p (filter P xs))" for p :: "'a \<Rightarrow> 'b::linorder"
  by (induction xs) auto

lemma sorted_move_spec:
  fixes p q :: "nat \<Rightarrow> u64"
  assumes "sorted_wrt (<) (map q (filter (\<lambda>u. u \<noteq> t) (take dst xs)))" "sorted_wrt (<) (map q (filter (\<lambda>u. u \<noteq> t) (drop dst xs)))"
    and "\<And>u. u \<in> set (take dst xs) \<Longrightarrow> u \<noteq> t \<Longrightarrow> q u < q t" "\<And>u. u \<in> set (drop dst xs) \<Longrightarrow> u \<noteq> t \<Longrightarrow> q t < q u"
  shows "sorted_wrt (<) (map q (move_spec t dst xs))"
proof -
  have "q u < q v" if "u \<in> set (take dst xs)" "u \<noteq> t" "v \<in> set (drop dst xs)" "v \<noteq> t" for u v
    using assms(3) [OF that(1,2)] assms(4) [OF that(3,4)] by (rule less_trans)
  then show ?thesis using assms by (auto simp: move_spec_def sorted_wrt_append)
qed

lemma move_spec_same: "distinct xs \<Longrightarrow> it < length xs \<Longrightarrow> dst = it \<or> dst = it + 1 \<Longrightarrow> move_spec (xs ! it) dst xs = xs"
proof -
  assume d: "distinct xs" and it: "it < length xs" and dst: "dst = it \<or> dst = it + 1"
  let ?t = "xs ! it"
  have x: "xs = take it xs @ ?t # drop (Suc it) xs" using it by (rule id_take_nth_drop)
  have nt: "?t \<notin> set (take it xs)" "?t \<notin> set (drop (Suc it) xs)"
    using d x by (metis distinct_append disjoint_iff list.set_intros(1), metis d x distinct.simps(2) distinct_append)
  have "filter (\<lambda>u. u \<noteq> ?t) (take it xs) = take it xs" "filter (\<lambda>u. u \<noteq> ?t) (drop (Suc it) xs) = drop (Suc it) xs"
    using nt by (auto simp: filter_id_conv)
  moreover have "drop it xs = ?t # drop (Suc it) xs" "take (Suc it) xs = take it xs @ [?t]"
    using it by (simp_all add: Cons_nth_drop_Suc take_Suc_conv_app_nth)
  ultimately show ?thesis using dst x by (auto simp: move_spec_def)
qed

text \<open>The positions the code uses, after the erase, give the same list.\<close>

lemma insert_after_erase:
  assumes "distinct xs" "it < length xs" "dst \<le> length xs" and ne: "it \<noteq> dst"
  shows "insert_at (if dst < it then dst else dst - 1) (xs ! it) (remove1 (xs ! it) xs) = move_spec (xs ! it) dst xs"
proof -
  let ?t = "xs ! it"
  have rm: "remove1 ?t ys = filter (\<lambda>u. u \<noteq> ?t) ys" if "distinct ys" for ys
    using that by (auto simp: distinct_remove1_removeAll removeAll_filter_not_eq intro!: filter_cong)
  let ?a = "filter (\<lambda>u. u \<noteq> ?t) (take dst xs)" and ?b = "filter (\<lambda>u. u \<noteq> ?t) (drop dst xs)"
  have split: "remove1 ?t xs = ?a @ ?b" by (simp add: rm assms(1) flip: filter_append)
  have "length ?a = (if dst < it then dst else dst - 1)"
  proof (cases "dst < it")
    case True
    then have "?t \<notin> set (take dst xs)"
      using assms(1,2) by (auto simp: in_set_conv_nth nth_eq_iff_index_eq)
    then have "?a = take dst xs" by (auto simp: filter_id_conv)
    then show ?thesis using True assms(3) by simp
  next
    case False
    then have "it < dst" using ne by simp
    then have "?t \<in> set (take dst xs)" using assms(2,3) by (auto simp: in_set_conv_nth intro!: exI [of _ it])
    moreover have "distinct (take dst xs)" using assms(1) by simp
    ultimately have "length (remove1 ?t (take dst xs)) = dst - 1" using assms(3) by (simp add: length_remove1)
    then show ?thesis using False rm [of "take dst xs"] assms(1) by simp
  qed
  then show ?thesis by (simp add: insert_at_def split move_spec_def)
qed

text \<open>Arithmetic on priorities, away from the ends of the range.\<close>

lemma unat_mid: "unat a < 2 ^ 63 \<Longrightarrow> unat b < 2 ^ 63 \<Longrightarrow> unat ((a + b) div 2) = (unat a + unat b) div 2" for a b :: u64
proof -
  assume "unat a < 2 ^ 63" "unat b < 2 ^ 63"
  then have "unat a + unat b < 2 ^ LENGTH(64)" by simp
  then have "unat (a + b) = unat a + unat b" by (subst (asm) unat_add_lem)
  then show ?thesis by (simp add: unat_div)
qed

lemma unat_steps: "n * 65536 < 2 ^ 64 \<Longrightarrow> unat (of_nat n * PRIORITY_STEP) = n * 65536"
proof -
  assume n: "n * 65536 < 2 ^ 64"
  then have "unat (of_nat n :: u64) = n" by (simp add: unat_of_nat)
  with n have "unat (of_nat n :: u64) * unat PRIORITY_STEP < 2 ^ LENGTH(64)" by simp
  then have "unat (of_nat n * PRIORITY_STEP) = unat (of_nat n :: u64) * unat PRIORITY_STEP"
    by (subst (asm) unat_mult_lem)
  then show ?thesis using \<open>unat (of_nat n :: u64) = n\<close> by simp
qed

lemma unat_spread:
  assumes "(k + 1) * 65536 \<le> unat p" "i \<le> k"
  shows "unat (p - PRIORITY_STEP * (of_nat k + 1) + of_nat i * PRIORITY_STEP) = unat p - (k + 1) * 65536 + i * 65536"
proof -
  have p: "unat p < 2 ^ 64" using unsigned_less [of p, where ?'a = nat] by simp
  have "PRIORITY_STEP * (of_nat k + 1) = of_nat (k + 1) * PRIORITY_STEP" by (simp add: algebra_simps)
  moreover have s: "unat (of_nat (k + 1) * PRIORITY_STEP) = (k + 1) * 65536" using assms(1) p by (intro unat_steps) simp
  ultimately have 1: "unat (p - PRIORITY_STEP * (of_nat k + 1)) = unat p - (k + 1) * 65536"
    using assms(1) by (simp add: unat_sub word_le_nat_alt)
  have i: "i * 65536 \<le> (k + 1) * 65536" using assms(2) by simp
  then have 2: "unat (of_nat i * PRIORITY_STEP) = i * 65536" using assms(1) p by (intro unat_steps) linarith
  have "unat p - (k + 1) * 65536 + i * 65536 < 2 ^ 64" using i assms(1) p by linarith
  then have "unat (p - PRIORITY_STEP * (of_nat k + 1)) + unat (of_nat i * PRIORITY_STEP) < 2 ^ LENGTH(64)"
    using 1 2 by simp
  then have "unat (p - PRIORITY_STEP * (of_nat k + 1) + of_nat i * PRIORITY_STEP) =
      unat (p - PRIORITY_STEP * (of_nat k + 1)) + unat (of_nat i * PRIORITY_STEP)"
    by (subst (asm) unat_add_lem)
  then show ?thesis using 1 2 by simp
qed

lemma sorted_nth_le: "sorted_wrt (<) (map p xs) \<Longrightarrow> i \<le> j \<Longrightarrow> j < length xs \<Longrightarrow> p (xs ! i) \<le> p (xs ! j)" for p :: "nat \<Rightarrow> u64"
  using sorted_wrt_nth_less [of "(<)" "map p xs" i j] by (cases "i = j") auto

lemma in_take_le: "sorted_wrt (<) (map p xs) \<Longrightarrow> u \<in> set (take n xs) \<Longrightarrow> n \<le> length xs \<Longrightarrow> p u \<le> p (xs ! (n - 1))" for p :: "nat \<Rightarrow> u64"
  by (auto simp: in_set_conv_nth intro!: sorted_nth_le)

lemma in_drop_ge: "sorted_wrt (<) (map p xs) \<Longrightarrow> u \<in> set (drop n xs) \<Longrightarrow> p (xs ! n) \<le> p u" for p :: "nat \<Rightarrow> u64"
  by (auto simp: in_set_conv_nth intro!: sorted_nth_le)

definition placed :: "nat \<Rightarrow> nat \<Rightarrow> nat list \<Rightarrow> transfer_list \<Rightarrow> transfer_list \<Rightarrow> bool" where
  "placed t dst xs st st' \<longleftrightarrow> transfers st' = transfers st \<and> currentpriority st' = currentpriority st \<and>
     (\<forall>u. xtype (store st' u) = xtype (store st u)) \<and>
     (\<forall>u. u \<notin> set xs \<longrightarrow> pri st' u = pri st u \<and> cached st' u = cached st u) \<and>
     (\<forall>u \<in> set xs. u \<noteq> t \<longrightarrow> cached st' u = Some (pri st' u)) \<and>
     (\<forall>u \<in> set (drop dst xs). u \<noteq> t \<longrightarrow> pri st' u = pri st u) \<and>
     sorted_wrt (<) (map (pri st') (filter (\<lambda>u. u \<noteq> t) (take dst xs))) \<and>
     (\<forall>u \<in> set (take dst xs). u \<noteq> t \<longrightarrow> pri st' u < pri st' t) \<and> pri st' t < pri st (xs ! dst)"

lemma placed_halfway:
  assumes srt: "sorted_wrt (<) (map (pri st) xs)" and ok: "\<forall>u \<in> set xs. cached st u = Some (pri st u)"
    and small: "\<forall>u \<in> set xs. 2 * 65536 \<le> unat (pri st u) \<and> unat (pri st u) < 2 ^ 63"
    and dst: "dst < length xs" and t: "t \<in> set xs"
  defines "prev \<equiv> (if dst \<noteq> 0 then pri st (xs ! (dst - 1)) else pri st (xs ! dst) - 2 * PRIORITY_STEP)"
  assumes gap: "prev \<noteq> (prev + pri st (xs ! dst)) div 2"
  shows "placed t dst xs st (set_priority t ((prev + pri st (xs ! dst)) div 2) st)"
proof -
  let ?n = "pri st (xs ! dst)"
  have n: "2 * 65536 \<le> unat ?n" "unat ?n < 2 ^ 63" using small dst by auto
  have "unat (2 * PRIORITY_STEP) = 2 * 65536" by (simp add: PRIORITY_STEP_def)
  then have lt: "unat prev < unat ?n"
    using srt dst n sorted_wrt_nth_less [OF srt, of "dst - 1" dst]
    by (auto simp: prev_def word_less_nat_alt word_le_nat_alt unat_sub)
  then have mid: "unat ((prev + ?n) div 2) = (unat prev + unat ?n) div 2" using n by (intro unat_mid) simp_all
  then have new: "(prev + ?n) div 2 < ?n" "prev < (prev + ?n) div 2"
    using lt gap by (auto simp: word_less_nat_alt word_unat_eq_iff)
  have below: "pri st u < (prev + ?n) div 2" if "u \<in> set (take dst xs)" for u
    using in_take_le [OF srt that] that dst new(2) by (cases "dst = 0") (auto simp: prev_def)
  have "map ((pri st)(t := w)) (filter (\<lambda>u. u \<noteq> t) ys) = map (pri st) (filter (\<lambda>u. u \<noteq> t) ys)" for w ys by simp
  moreover have "sorted_wrt (<) (map (pri st) (filter (\<lambda>u. u \<noteq> t) (take dst xs)))"
    using srt by (intro sorted_filter_map) (simp add: sorted_wrt_take flip: take_map)
  ultimately show ?thesis using t ok below new(1) unfolding placed_def by simp
qed

lemma placed_spread:
  assumes srt: "sorted_wrt (<) (map (pri st) xs)" and ok: "\<forall>u \<in> set xs. cached st u = Some (pri st u)"
    and dst: "dst < length xs" and t: "t \<in> set xs" and p0: "(dst + 1) * 65536 \<le> unat (pri st (xs ! 0))"
    and spread: "spread_priorities (take dst xs) (pri st (xs ! 0) - PRIORITY_STEP * (of_nat dst + 1)) st = (new, st1)"
  shows "placed t dst xs st (set_priority t new st1)"
proof -
  let ?f = "pri st (xs ! 0) - PRIORITY_STEP * (of_nat dst + 1)"
  have d: "distinct xs" using srt by (rule sorted_distinct)
  have disj: "u \<notin> set (take dst xs)" if "u \<in> set (drop dst xs)" for u
    using d that by (metis append_take_drop_id disjoint_iff distinct_append)
  note pr = spread_props [OF spread distinct_take [OF d]]
  have at: "pri st1 (xs ! i) = ?f + of_nat i * PRIORITY_STEP" if "i < dst" for i using pr that dst by simp
  have new: "new = ?f + of_nat dst * PRIORITY_STEP" using pr dst by simp
  note un = unat_spread [OF p0]
  have lt: "pri st1 (xs ! i) < pri st1 (xs ! j)" if "i < j" "j < dst" for i j
    using that un [of i] un [of j] p0 by (simp add: at word_less_nat_alt)
  have below: "pri st1 u < new" if "u \<in> set (take dst xs)" for u
    using that un [of dst] un at by (auto simp: new in_set_conv_nth word_less_nat_alt)
  have "sorted_wrt (<) (map (pri st1) (take dst xs))" using lt dst by (auto simp: sorted_wrt_iff_nth_less)
  then have srt1: "sorted_wrt (<) (map (pri st1) (filter (\<lambda>u. u \<noteq> t) (take dst xs)))" by (rule sorted_filter_map)
  have "new < pri st (xs ! 0)" using un [of dst] p0 by (simp add: new word_less_nat_alt)
  also have "\<dots> \<le> pri st (xs ! dst)" using sorted_nth_le [OF srt _ dst] by simp
  finally have above: "new < pri st (xs ! dst)" .
  have cache: "cached st1 u = Some (pri st1 u)" if "u \<in> set xs" for u using pr ok that by (cases "u \<in> set (take dst xs)") auto
  have out: "pri st1 u = pri st u \<and> cached st1 u = cached st u" if "u \<notin> set xs" for u
    using pr that by (meson in_set_takeD)
  have "map ((pri st1)(t := w)) (filter (\<lambda>u. u \<noteq> t) ys) = map (pri st1) (filter (\<lambda>u. u \<noteq> t) ys)" for w ys by simp
  then show ?thesis using t pr srt1 below above cache out disj unfolding placed_def by simp
qed

lemma placed_priority:
  assumes inv: "tl_inv st" and room: "room (length xs + 1) st" and xs: "xs = queue st dir"
    and dst: "dst < length xs" and t: "t \<in> set xs"  "t \<noteq> xs ! dst"
  shows "placed t dst xs st (place_priority t dst xs st)"
proof -
  have srt: "sorted_wrt (<) (map (pri st) xs)" using tl_inv_queue(1) [OF inv] xs by simp
  have ok: "entry_ok st dir u" if "u \<in> set xs" for u using tl_inv_queue(3) [OF inv] xs that by simp
  have cache: "\<forall>u \<in> set xs. cached st u = Some (pri st u)" using ok by (simp add: entry_ok_def)
  have l: "(length xs + 1) * 65536 \<le> unat (pri st u)" if "u \<in> set xs" for u using room that xs by (auto simp: room_def)
  have h: "unat (pri st u) < 2 ^ 63" if "u \<in> set xs" for u
    using ok [OF that] room by (auto simp: entry_ok_def room_def word_le_nat_alt)
  have n: "1 < length xs" using t dst by (cases xs; cases "tl xs") auto
  then have "2 * 65536 \<le> (length xs + 1) * 65536" by (intro mult_le_mono1) simp
  then have small: "\<forall>u \<in> set xs. 2 * 65536 \<le> unat (pri st u) \<and> unat (pri st u) < 2 ^ 63"
    using l h by (meson le_trans)
  have "(dst + 1) * 65536 \<le> (length xs + 1) * 65536" using dst by (intro mult_le_mono1) simp
  moreover have "xs ! 0 \<in> set xs" using n by (intro nth_mem) linarith
  ultimately have p0: "(dst + 1) * 65536 \<le> unat (pri st (xs ! 0))" using l by (meson le_trans)
  show ?thesis
    unfolding place_priority_def Let_def
    using placed_halfway [OF srt cache small dst t(1)] placed_spread [OF srt cache dst t(1) p0]
    by (auto split: prod.split)
qed

lemma placed_sorted:
  assumes "placed t dst xs st st'" "sorted_wrt (<) (map (pri st) xs)" "dst < length xs"
  shows "sorted_wrt (<) (map (pri st') (move_spec t dst xs))"
proof (rule sorted_move_spec)
  have "map (pri st') (filter (\<lambda>u. u \<noteq> t) (drop dst xs)) = map (pri st) (filter (\<lambda>u. u \<noteq> t) (drop dst xs))"
    using assms(1) by (auto simp: placed_def)
  moreover have "sorted_wrt (<) (map (pri st) (filter (\<lambda>u. u \<noteq> t) (drop dst xs)))"
    using assms(2) by (intro sorted_filter_map) (simp add: sorted_wrt_drop flip: drop_map)
  ultimately show "sorted_wrt (<) (map (pri st') (filter (\<lambda>u. u \<noteq> t) (drop dst xs)))" by argo
  show "pri st' t < pri st' u" if "u \<in> set (drop dst xs)" "u \<noteq> t" for u
    using assms(1) in_drop_ge [OF assms(2) that(1)] that by (auto simp: placed_def intro: less_le_trans)
qed (use assms(1) in \<open>auto simp: placed_def\<close>)

lemma erase_at_index_simps [simp]:
  "pri (erase_at_index i st dir) = pri st" "currentpriority (erase_at_index i st dir) = currentpriority st"
  "store (erase_at_index i st dir) = store st" "cached (erase_at_index i st dir) = cached st"
  "d \<noteq> dir \<Longrightarrow> transfers (erase_at_index i st dir) d = transfers st d"
  "transfers (erase_at_index i st dir) dir = dq_erase (pri st) i (applyErase (transfers st dir))"
  by (simp_all add: erase_at_index_def)

lemma erase_at_index_inv:
  assumes inv: "tl_inv st" and i: "i < length (queue st dir)"
  shows "tl_inv (erase_at_index i st dir)" "queue (erase_at_index i st dir) dir = remove1 (queue st dir ! i) (queue st dir)"
proof -
  have d: "dq_inv (transfers st dir)" using inv by (simp add: tl_inv_def)
  have c: "compact (applyErase (transfers st dir))" "dq_inv (applyErase (transfers st dir))"
    "live (applyErase (transfers st dir)) = queue st dir" using d by (simp_all add: queue_def)
  note er = erase_compacted [OF d tl_inv_queue(2) [OF inv, unfolded queue_def] i [unfolded queue_def], folded queue_def]
  show q: "queue (erase_at_index i st dir) dir = remove1 (queue st dir ! i) (queue st dir)"
    using er(2) by (simp add: queue_def)
  have "dq_ordered (pri st) (applyErase (transfers st dir))"
    using compact_ordered [OF c(1,2)] tl_inv_queue(1) [OF inv] c(3) by simp
  then have "dq_ordered (pri st) (dq_erase (pri st) i (applyErase (transfers st dir)))"
    using i compact_length [OF c(1,2)] c(3) by (intro dq_ordered_erase) simp_all
  moreover have "queue (erase_at_index i st dir) d = queue st d" if "d \<noteq> dir" for d using that by (simp add: queue_def)
  ultimately have "dq_inv (transfers (erase_at_index i st dir) d) \<and> dq_ordered (pri st) (transfers (erase_at_index i st dir) d) \<and>
      (\<forall>t \<in> set (queue (erase_at_index i st dir) d). entry_ok st d t)" for d
    using er(1) q inv tl_inv_queue(3) [OF inv] by (cases "d = dir") (auto simp: tl_inv_def dest: set_remove1_subset [THEN subsetD])
  then show "tl_inv (erase_at_index i st dir)" by (simp add: tl_inv_def entry_ok_def)
qed

lemma move_to_end:
  assumes inv: "tl_inv st" and room: "room n st" "0 < n" and it: "it < length (queue st dir)" and same: "same_order st st1"
  defines "t \<equiv> queue st dir ! it" and "c' \<equiv> currentpriority st + PRIORITY_STEP"
  defines "st' \<equiv> transfercacheadd t (on_deque dir (dq_push_back t) (set_priority t c' ((erase_at_index it st1 dir)\<lparr>currentpriority := c'\<rparr>)))"
  shows "tl_inv st' \<and> queue st' dir = move_spec t (length (queue st dir)) (queue st dir)"
proof -
  let ?e = "erase_at_index it st1 dir"
  have inv1: "tl_inv st1" using tl_inv_same_order [OF same inv] .
  have q1: "queue st1 = queue st" using same_order_queue [OF same] .
  note er = erase_at_index_inv [OF inv1, of it dir, unfolded q1, OF it, folded t_def]
  have d: "distinct (queue st dir)" using tl_inv_queue(2) [OF inv] .
  have tin: "t \<in> set (queue st dir)" using it by (simp add: t_def)
  then have ty: "xtype (store ?e t) = dir"
    using tl_inv_queue(3) [OF inv] same_order_transport(4) [OF same] by (simp add: entry_ok_def)
  have "set (queue ?e x) \<subseteq> set (queue st x)" for x
    using er(2) same_order_transport(3) [OF same]
    by (cases "x = dir") (auto simp: queue_def dest: set_remove1_subset [THEN subsetD])
  then have room': "room n ?e" using room same_order_transport(1,2) [OF same] by (auto simp: room_def subset_iff)
  have nt: "t \<notin> set (queue ?e dir)" using er(2) d by simp
  have cp: "currentpriority ?e + PRIORITY_STEP = c'" using same_order_transport(2) [OF same] by (simp add: c'_def)
  note pushed = tl_inv_add_back [OF er(1) room' room(2) nt ty, unfolded cp, folded st'_def]
  have "remove1 t xs @ [t] = move_spec t (length xs) xs" if "distinct xs" for xs
    using that by (auto simp: move_spec_def distinct_remove1_removeAll removeAll_filter_not_eq intro!: filter_cong)
  then show ?thesis using pushed er(2) d by simp
qed

lemma set_move_spec: "t \<in> set xs \<Longrightarrow> set (move_spec t dst xs) = set xs"
  by (auto simp: move_spec_def dest: in_set_takeD in_set_dropD) (metis append_take_drop_id Un_iff set_append)

lemma move_to_middle:
  assumes inv: "tl_inv st" and xs: "xs = queue st dir" and it: "it < length xs" and dst: "dst < length xs" "it \<noteq> dst"
    and placed: "placed (xs ! it) dst xs st st1" and same: "same_order st1 st2"
  defines "st' \<equiv> transfercacheadd (xs ! it) (on_deque dir (dq_insert (if dst < it then dst else dst - 1) (xs ! it)) (erase_at_index it st2 dir))"
  shows "tl_inv st' \<and> queue st' dir = move_spec (xs ! it) dst xs"
proof -
  let ?t = "xs ! it"
  have d: "dq_inv (transfers st dir)" using inv by (simp add: tl_inv_def)
  have srt: "sorted_wrt (<) (map (pri st) xs)" and dis: "distinct xs" using tl_inv_queue [OF inv] xs by auto
  note tr = same_order_transport [OF same]
  have tf: "transfers st2 = transfers st" and cp: "currentpriority st2 = currentpriority st"
    and ty: "\<And>u. xtype (store st2 u) = xtype (store st u)" using placed tr by (simp_all add: placed_def)
  note er = erase_compacted [OF d, of it, folded queue_def, folded xs, OF dis it]
  have qq: "queue st' dir = move_spec ?t dst xs"
    using er insert_after_erase [OF dis it _ dst(2)] dst(1) by (simp add: queue_def st'_def tf ldq.seq_insert)
  have pr: "pri st' = pri st1" by (simp add: st'_def tr)
  have cache: "cached st' u = Some (pri st' u)" if "u \<in> set xs" for u
    using that placed cached_same_order [OF same, of u] by (auto simp: st'_def placed_def tr)
  have "pri st1 u \<le> pri st (xs ! dst) \<or> pri st1 u = pri st u" if "u \<in> set xs" for u
  proof -
    have "u = ?t \<or> u \<in> set (take dst xs) \<or> u \<in> set (drop dst xs)"
      using that by (metis append_take_drop_id Un_iff set_append)
    then show ?thesis using placed by (force simp: placed_def)
  qed
  moreover have ok: "entry_ok st dir u" if "u \<in> set xs" for u using tl_inv_queue(3) [OF inv] xs that by simp
  ultimately have top: "pri st1 u \<le> currentpriority st" if "u \<in> set xs" for u
    using that ok [of "xs ! dst"] ok [OF that] dst(1) by (fastforce simp: entry_ok_def)
  have "tl_inv st'"
  proof (rule tl_inv_rebuilt [OF inv, where dir = dir])
    fix x u assume x: "x \<noteq> dir" "u \<in> set (queue st x)"
    have o: "entry_ok st x u" using tl_inv_queue(3) [OF inv x(2)] .
    have nu: "u \<notin> set xs" using o ok x(1) by (auto simp: entry_ok_def)
    then have "u \<noteq> ?t" using it by auto
    moreover have "pri st1 u = pri st u" "cached st1 u = cached st u" using placed nu by (auto simp: placed_def)
    ultimately show "pri st' u = pri st u \<and> xtype (store st' u) = xtype (store st u) \<and> cached st' u = cached st u"
      using o cached_same_order [OF same, of u] by (simp add: st'_def ty tr(1) entry_ok_def)
  next
    show "sorted_wrt (<) (map (pri st') (queue st' dir))" unfolding qq pr by (rule placed_sorted [OF placed srt dst(1)])
    show "\<forall>u \<in> set (queue st' dir). entry_ok st' dir u"
      using ok top cache pr it by (auto simp: qq set_move_spec entry_ok_def) (auto simp: st'_def ty cp)
  qed (use er(1) d in \<open>simp_all add: st'_def tf cp ldq.inv_insert\<close>)
  then show ?thesis using qq by simp
qed

lemma movetransfer_step:
  assumes inv: "tl_inv st" and room: "room (length (queue st dir) + 1) st"
    and it: "it < length (queue st dir)" and dst: "dst \<le> length (queue st dir)"
  shows "tl_inv (movetransfer ds it dst dir st) \<and>
    queue (movetransfer ds it dst dir st) dir = move_spec (queue st dir ! it) dst (queue st dir)"
proof -
  let ?xs = "queue st dir" and ?t = "queue st dir ! it"
  have d: "distinct ?xs" using tl_inv_queue(2) [OF inv] .
  consider "it = dst \<or> it + 1 = dst" | "it \<noteq> dst" "it + 1 \<noteq> dst" "dst = length ?xs" | "it \<noteq> dst" "it + 1 \<noteq> dst" "dst < length ?xs"
    using dst by linarith
  then show ?thesis
  proof cases
    case 1
    then show ?thesis using inv move_spec_same [OF d it] by (auto simp: movetransfer_def)
  next
    case 2
    have s: "same_order st (prepareDecreasePriority ds ?t it dst st)" by (rule same_order_decrease)
    then have "currentpriority (prepareDecreasePriority ds ?t it dst st) = currentpriority st" by (rule same_order_transport)
    then show ?thesis using move_to_end [OF inv room _ it s] 2 by (simp add: movetransfer_def Let_def)
  next
    case 3
    then have ne: "?t \<noteq> ?xs ! dst" using d it by (simp add: nth_eq_iff_index_eq)
    note pl = placed_priority [OF inv room refl 3(3) nth_mem [OF it] ne]
    show ?thesis
      using move_to_middle [OF inv refl it 3(3,1) pl same_order_increase] move_to_middle [OF inv refl it 3(3,1) pl same_order_decrease] 3
      by (cases "dst < it") (simp_all add: movetransfer_def Let_def)
  qed
qed

lemma movetransfer_other: "d \<noteq> dir \<Longrightarrow> queue (movetransfer ds it dst dir st) d = queue st d"
proof -
  assume d: "d \<noteq> dir"
  have sp: "transfers (snd (spread_priorities us p st)) = transfers st" for us p and st :: transfer_list
    by (induction us arbitrary: p st) auto
  have pl: "transfers (place_priority t dst xs st) = transfers st" for t xs
    using sp by (auto simp: place_priority_def Let_def split: prod.split) (metis snd_conv)
  have inc: "transfers (prepareIncreasePriority ds t k st') = transfers st'" "transfers (prepareDecreasePriority ds t it' k st') = transfers st'"
    for t k it' and st' :: transfer_list
    using same_order_transport(3) [OF same_order_increase] same_order_transport(3) [OF same_order_decrease] by auto
  show ?thesis using d by (simp add: movetransfer_def Let_def queue_def erase_at_index_def inc pl split: prod.split)
qed

text \<open>The entry points that take a transfer.\<close>

lemma movetransfer_to_step:
  assumes inv: "tl_inv st" and room: "room (length (queue st dir) + 1) st"
    and t: "t \<in> set (queue st dir)" and dst: "dst \<le> length (queue st dir)"
  shows "tl_inv (movetransfer_to ds t dst st) \<and> queue (movetransfer_to ds t dst st) dir = move_spec t dst (queue st dir)"
proof -
  obtain i where i: "i < length (queue st dir)" "queue st dir ! i = t" "getIterator t st = Some i"
    using getIterator_queue [OF inv t] by auto
  have "xtype (store st t) = dir" using tl_inv_queue(3) [OF inv t] by (simp add: entry_ok_def)
  then show ?thesis using movetransfer_step [OF inv room i(1) dst] i by (simp add: movetransfer_to_def)
qed

lemma getIterator_nth:
  assumes inv: "tl_inv st" and q: "queue st dir = a @ t # b"
  shows "getIterator t st = Some (length a)" "xtype (store st t) = dir"
proof -
  have t: "t \<in> set (queue st dir)" by (simp add: q)
  obtain i where i: "i < length (queue st dir)" "queue st dir ! i = t" "getIterator t st = Some i"
    using getIterator_queue [OF inv t] by auto
  have "i = length a"
    using i(1,2) tl_inv_queue(2) [OF inv, of dir] q nth_eq_iff_index_eq [of "queue st dir" i "length a"] by simp
  then show "getIterator t st = Some (length a)" using i(3) by simp
  show "xtype (store st t) = dir" using tl_inv_queue(3) [OF inv t] by (simp add: entry_ok_def)
qed

lemma filter_absent: "w \<notin> set zs \<Longrightarrow> filter (\<lambda>v. v \<noteq> w) zs = zs"
  by (auto simp: filter_id_conv)

lemma movedown_swaps:
  assumes "tl_inv st" "room (length (queue st dir) + 1) st" "queue st dir = xs @ [u, t] @ ys"
  shows "queue (movedown ds u st) dir = xs @ [t, u] @ ys"
proof -
  have d: "distinct (xs @ [u, t] @ ys)" using tl_inv_queue(2) [OF assms(1), of dir] assms(3) by simp
  have "queue (movedown ds u st) dir = move_spec u (length xs + 2) (queue st dir)"
    using movetransfer_step [OF assms(1,2), of "length xs" "length xs + 2" ds] getIterator_nth [OF assms(1), of dir xs u "t # ys"] assms(3)
    by (simp add: movedown_def nth_append)
  then show ?thesis using d by (simp add: move_spec_def assms(3) filter_absent)
qed

section \<open>Adding, as one step\<close>

lemma addtransfer_step:
  assumes inv: "tl_inv st" and room: "room 1 st" and dir: "xtype (store st t) = dir" and t: "t \<notin> set (queue st dir)"
    and resumed: "pri st t \<noteq> 0 \<Longrightarrow> entry_ok st dir t \<and> pri st t \<notin> pri st ` set (queue st dir)"
  shows "tl_inv (addtransfer ds t startFirst st)"
    and "queue (addtransfer ds t startFirst st) dir = add_spec t startFirst st (queue st dir)"
proof -
  let ?st = "if state (store st t) \<noteq> TS_PAUSED then set_xfer t (\<lambda>x. x\<lparr>state := TS_QUEUED\<rparr>) st else st"
  have same: "same_order st ?st" using same_order_state by auto
  note tr = same_order_transport [OF same] and q = same_order_queue [OF same]
  have inv': "tl_inv ?st" using tl_inv_same_order [OF same inv] .
  have room': "room 1 ?st" using room room_same_order [OF same] by blast
  have dir': "xtype (store ?st t) = dir" using dir tr(4) by simp
  have t': "t \<notin> set (queue ?st dir)" using t q by simp
  have add: "addtransfer ds t startFirst st =
    (if pri st t = 0 then
       if startFirst \<and> queue st dir \<noteq> [] then
         transfercacheadd t (on_deque dir (dq_push_front t)
           (prepareIncreasePriority ds t 0 (set_priority t (pri ?st (queue st dir ! 0) - PRIORITY_STEP) ?st)))
       else transfercacheadd t (on_deque dir (dq_push_back t)
         (set_priority t (currentpriority ?st + PRIORITY_STEP) (?st\<lparr>currentpriority := currentpriority ?st + PRIORITY_STEP\<rparr>)))
     else on_deque dir (dq_insert (lower_bound (pri ?st) (queue ?st dir) (pri ?st t)) t) ?st)"
    unfolding addtransfer_def Let_def dir' q tr(1) by simp
  have "tl_inv (addtransfer ds t startFirst st) \<and> queue (addtransfer ds t startFirst st) dir = add_spec t startFirst st (queue st dir)"
  proof (cases "pri st t = 0")
    case new: True
    show ?thesis
    proof (cases "startFirst \<and> queue st dir \<noteq> []")
      case True
      then obtain u us where u: "queue st dir = u # us" by (cases "queue st dir") auto
      have "queue ?st dir = u # us" using u q by simp
      note front = tl_inv_add_front [OF inv' room' zero_less_one t' dir' this same_order_increase [of _ ds t 0]]
      show ?thesis using front u new True unfolding add q by (simp add: add_spec_def)
    next
      case False
      then show ?thesis using tl_inv_add_back [OF inv' room' zero_less_one t' dir'] new
        unfolding add q by (auto simp: add_spec_def)
    qed
  next
    case False
    have "pri ?st t \<notin> pri ?st ` set (queue ?st dir)" using resumed [OF False] q tr(1) by simp
    moreover have "entry_ok ?st dir t"
      using resumed [OF False] tr cached_same_order [OF same, of t] by (simp add: entry_ok_def)
    ultimately show ?thesis
      using tl_inv_add_resumed [OF inv' t'] False unfolding add q tr(1) by (simp add: add_spec_def)
  qed
  then show "tl_inv (addtransfer ds t startFirst st)"
    "queue (addtransfer ds t startFirst st) dir = add_spec t startFirst st (queue st dir)" by simp_all
qed

section \<open>Choosing\<close>

definition selectable :: "dstime \<Rightarrow> filesizetype \<Rightarrow> xfer \<Rightarrow> bool" where
  "selectable ds sz x \<longleftrightarrow> sizetype x = sz \<and> (\<not> slot x \<and> isReady ds x \<or> asyncopen_finished x) \<and>
     (\<not> slot x \<longrightarrow> files x \<noteq> [] \<and> True \<notin> set (files x))"

lemma category_index_inj: "category_index d sz = category_index d' sz' \<longleftrightarrow> d = d' \<and> sz = sz'"
  by (cases d; cases d'; cases sz; cases sz') (simp_all add: category_index_def)

lemma category_index_less [simp]: "category_index d sz < 6"
  by (cases d; cases sz) (simp_all add: category_index_def)

lemma same_order_cancel: "same_order st (removeCancelledTransferFiles t st)"
  by (auto simp: same_order_def removeCancelledTransferFiles_def set_xfer_def pri_def fun_eq_iff)

lemma store_cancel: "u \<noteq> t \<Longrightarrow> store (removeCancelledTransferFiles t st) u = store st u"
  by (simp add: removeCancelledTransferFiles_def set_xfer_def)

lemma files_cancel: "True \<notin> set (files (store (removeCancelledTransferFiles t st) t))"
  by (simp add: removeCancelledTransferFiles_def set_xfer_def)

lemma slot_cancel: "slot (store (removeCancelledTransferFiles t st) u) = slot (store st u)"
  by (simp add: removeCancelledTransferFiles_def set_xfer_def)

lemma tl_inv_uncache: "tl_inv st \<Longrightarrow> (\<And>d. t \<notin> set (queue st d)) \<Longrightarrow> tl_inv (st\<lparr>cached := (cached st)(t := None)\<rparr>)"
  unfolding tl_inv_def queue_def entry_ok_def pri_def by auto

lemma removeAndDeleteSelf_step:
  assumes "tl_inv st"
  shows "tl_inv (removeAndDeleteSelf s t st)" "queue (removeAndDeleteSelf s t st) d = remove1 t (queue st d)"
    "u \<noteq> t \<Longrightarrow> store (removeAndDeleteSelf s t st) u = store st u"
proof -
  let ?st = "set_xfer t (\<lambda>x. x\<lparr>state := s\<rparr>) st"
  have inv: "tl_inv ?st" by (rule tl_inv_same_order [OF same_order_state assms])
  have q: "queue ?st = queue st" by (rule same_order_queue [OF same_order_state])
  note rm = removetransfer_inv [OF inv, of t, unfolded q]
  have "t \<notin> set (queue (removetransfer t ?st) d)" for d using rm(2) tl_inv_queue(2) [OF assms, of d] by simp
  then show "tl_inv (removeAndDeleteSelf s t st)"
    using tl_inv_uncache [OF rm(1), of t] by (simp add: removeAndDeleteSelf_def Let_def)
  show "queue (removeAndDeleteSelf s t st) d = remove1 t (queue st d)"
    using rm(2) [of d] by (simp add: removeAndDeleteSelf_def Let_def) (simp add: queue_def)
  show "u \<noteq> t \<Longrightarrow> store (removeAndDeleteSelf s t st) u = store st u"
    by (simp add: removeAndDeleteSelf_def Let_def removetransfer_def set_xfer_def)
qed

text \<open>The scan with no early stop but the caller's.\<close>

fun next_scan :: "(xfer \<Rightarrow> 's \<Rightarrow> bool \<times> 's) \<Rightarrow> (direction \<Rightarrow> 's \<Rightarrow> bool) \<Rightarrow> dstime \<Rightarrow> direction \<Rightarrow> nat list \<Rightarrow>
    's \<Rightarrow> nat list list \<Rightarrow> transfer_list \<Rightarrow> 's \<times> nat list list \<times> transfer_list" where
  "next_scan cont dircont ds dir [] s chosen st = (s, chosen, st)"
| "next_scan cont dircont ds dir (t # ts) s chosen st0 =
    (let st = (if slot (store st0 t) then st0 else removeCancelledTransferFiles t st0);
         x = store st t; i = category_index (xtype x) (sizetype x)
     in if \<not> slot x \<and> files x = [] then next_scan cont dircont ds dir ts s chosen (removeAndDeleteSelf TS_CANCELLED t st)
        else if \<not> dircont dir s then (s, chosen, st)
        else if \<not> slot x \<and> isReady ds x \<or> asyncopen_finished x then
          case cont x s of (ok, s') \<Rightarrow> next_scan cont dircont ds dir ts s' (if ok then chosen[i := chosen ! i @ [t]] else chosen) st
        else next_scan cont dircont ds dir ts s chosen st)"

definition all_cancelled :: "xfer \<Rightarrow> bool" where
  "all_cancelled x \<longleftrightarrow> \<not> slot x \<and> False \<notin> set (files x)"

text \<open>What holds between the turns: the chosen transfers are among those already seen, in order, and can be started.\<close>

definition chosen_ok :: "dstime \<Rightarrow> direction \<Rightarrow> nat list \<Rightarrow> nat list list \<Rightarrow> transfer_list \<Rightarrow> bool" where
  "chosen_ok ds dir seen chosen st \<longleftrightarrow> length chosen = 6 \<and>
     (\<forall>sz. subseq (chosen ! category_index dir sz) seen \<and> (\<forall>t \<in> set (chosen ! category_index dir sz). selectable ds sz (store st t)))"

lemma chosen_ok_keep:
  assumes "chosen_ok ds dir seen chosen st" "\<And>u. u \<in> set seen \<Longrightarrow> store st' u = store st u" "subseq seen seen'"
  shows "chosen_ok ds dir seen' chosen st'"
proof -
  have "subseq (chosen ! category_index dir sz) seen" for sz using assms(1) by (simp add: chosen_ok_def)
  then have "set (chosen ! category_index dir sz) \<subseteq> set seen" for sz
    by (auto dest: list_emb_set)
  then show ?thesis using assms by (fastforce simp: chosen_ok_def intro: subseq_order.order_trans)
qed

lemma chosen_ok_push:
  assumes ok: "chosen_ok ds dir seen chosen st" and sel: "selectable ds sz (store st t)"
  shows "chosen_ok ds dir (seen @ [t]) (chosen[category_index dir sz := chosen ! category_index dir sz @ [t]]) st"
proof -
  let ?c = "chosen[category_index dir sz := chosen ! category_index dir sz @ [t]]"
  have l: "length chosen = 6" using ok by (simp add: chosen_ok_def)
  have "?c ! category_index dir z = (if z = sz then chosen ! category_index dir z @ [t] else chosen ! category_index dir z)" for z
    using l by (simp add: nth_list_update category_index_inj)
  then show ?thesis using ok sel l by (auto simp: chosen_ok_def intro: list_emb_append_mono subseq_order.order_trans)
qed

lemma next_loop_inv:
  assumes "next_loop cont dircont ds dir ts s chosen st = (s', chosen', st')" "tl_inv st" "queue st dir = seen @ ts"
    "chosen_ok ds dir seen chosen st"
  shows "tl_inv st' \<and> chosen_ok ds dir (queue st' dir) chosen' st' \<and> (\<forall>u. u \<notin> set ts \<longrightarrow> store st' u = store st u) \<and>
    (\<forall>u \<in> set (queue st dir) - set (queue st' dir). all_cancelled (store st u)) \<and>
    (\<forall>d. d \<noteq> dir \<longrightarrow> queue st' d = queue st d \<and> (\<forall>sz. chosen' ! category_index d sz = chosen ! category_index d sz))"
  using assms
proof (induction ts arbitrary: s chosen st seen)
  case (Cons t ts)
  define st1 where "st1 = (if \<not> slot (store st t) then removeCancelledTransferFiles t st else st)"
  define x where "x = store st1 t"
  have same: "same_order st st1" using same_order_cancel by (simp add: st1_def)
  have inv: "tl_inv st1" using tl_inv_same_order [OF same Cons.prems(2)] .
  have q: "queue st1 = queue st" using same_order_queue [OF same] .
  have others: "store st1 u = store st u" if "u \<noteq> t" for u using that store_cancel by (simp add: st1_def)
  have d: "distinct (seen @ t # ts)" using tl_inv_queue(2) [OF Cons.prems(2), of dir] Cons.prems(3) by simp
  have ty: "xtype x = dir" using tl_inv_queue(3) [OF inv, of t dir] Cons.prems(3) q by (simp add: entry_ok_def x_def)
  have ne: "u \<noteq> t" if "u \<in> set seen" for u using d that by auto
  have seen': "queue st1 dir = (seen @ [t]) @ ts" using q Cons.prems(3) by simp
  have tother: "t \<notin> set (queue st d)" if "d \<noteq> dir" for d
    using tl_inv_queue(3) [OF Cons.prems(2), of t d] ty same_order_transport(4) [OF same, of t] that by (auto simp: entry_ok_def x_def)
  have keep: "chosen_ok ds dir (seen @ us) chosen st1" for us
    using chosen_ok_keep [OF Cons.prems(4), of st1 "seen @ us"] others ne by (simp add: prefix_imp_subseq)
  have allc: "all_cancelled (store st1 u) = all_cancelled (store st u)" for u
    by (auto simp: all_cancelled_def st1_def removeCancelledTransferFiles_def set_xfer_def)
  have slot: "slot x = slot (store st t)" by (simp add: x_def st1_def slot_cancel)
  obtain ok sc where c: "cont x s = (ok, sc)" by (cases "cont x s")
  consider (cancelled) "\<not> slot x" "files x = []"
    | (stop) "slot x \<or> files x \<noteq> []" "(s', chosen', st') = (s, chosen, st1)"
    | (skip) "next_loop cont dircont ds dir ts s chosen st1 = (s', chosen', st')"
    | (taken) "slot x \<or> files x \<noteq> []" "\<not> slot x \<and> isReady ds x \<or> asyncopen_finished x"
        "next_loop cont dircont ds dir ts sc
           (chosen[category_index dir (sizetype x) := chosen ! category_index dir (sizetype x) @ [t]]) st1 = (s', chosen', st')"
    | (refused) "next_loop cont dircont ds dir ts sc chosen st1 = (s', chosen', st')"
    using Cons.prems(1) unfolding next_loop.simps Let_def unfolding st1_def [symmetric] unfolding x_def [symmetric] slot [symmetric] ty c prod.case
    by (cases ok) (simp_all only: if_True if_False simp_thms if_cancel split: if_splits, blast+)
  then show ?case
  proof cases
    case cancelled
    let ?r = "removeAndDeleteSelf TS_CANCELLED t st1"
    note rm = removeAndDeleteSelf_step [OF inv, where s = TS_CANCELLED and t = t]
    have qr: "queue ?r dir = seen @ ts" "\<And>d. d \<noteq> dir \<Longrightarrow> queue ?r d = queue st d"
      using rm(2) d Cons.prems(3) q tother by (auto simp: remove1_append remove1_idem)
    have ok: "chosen_ok ds dir seen chosen ?r"
      using chosen_ok_keep [OF Cons.prems(4), of ?r seen] rm(3) others ne by simp
    have "next_loop cont dircont ds dir ts s chosen ?r = (s', chosen', st')"
      using Cons.prems(1) cancelled slot by (simp add: Let_def x_def st1_def)
    note IH = Cons.IH [OF this rm(1) qr(1) ok]
    have "all_cancelled (store st t)"
      using cancelled slot by (auto simp: all_cancelled_def x_def st1_def removeCancelledTransferFiles_def set_xfer_def filter_empty_conv)
    moreover have "u = t \<or> u \<in> set (queue ?r dir) \<and> store ?r u = store st u" if "u \<in> set (queue st dir)" for u
      using that rm(3) [of u] others [of u] Cons.prems(3) qr(1) by auto
    ultimately have "\<forall>u \<in> set (queue st dir) - set (queue st' dir). all_cancelled (store st u)"
      using IH by (metis DiffD1 DiffD2 DiffI)
    then show ?thesis using IH rm(3) others qr(2) by simp
  next
    case stop
    then show ?thesis using keep [of "t # ts"] inv others q seen' by simp
  next
    case skip
    from Cons.IH [OF this inv seen' keep] show ?thesis using others q allc by simp
  next
    case taken
    have "selectable ds (sizetype x) (store st1 t)"
      using taken(1,2) files_cancel [of t st] slot unfolding selectable_def by (auto simp: x_def st1_def)
    then have "chosen_ok ds dir (seen @ [t]) (chosen[category_index dir (sizetype x) := chosen ! category_index dir (sizetype x) @ [t]]) st1"
      using chosen_ok_push keep [of "[]"] by simp
    from Cons.IH [OF taken(3) inv seen' this] show ?thesis
      using others q allc by (simp add: nth_list_update category_index_inj)
  next
    case refused
    from Cons.IH [OF this inv seen' keep] show ?thesis using others q allc by simp
  qed
qed simp

lemma nexttransfers_inv:
  assumes inv: "tl_inv st" and run: "nexttransfers cont dircont ds s st = (s', chosen, st')"
  shows "tl_inv st' \<and> chosen_ok ds d (queue st' d) chosen st' \<and> (\<forall>u \<in> set (queue st d) - set (queue st' d). all_cancelled (store st u))"
proof -
  obtain s1 chosen1 st1 where l1: "next_loop cont dircont ds PUT (queue st PUT) s (replicate 6 []) st = (s1, chosen1, st1)"
    by (cases "next_loop cont dircont ds PUT (queue st PUT) s (replicate 6 []) st")
  have l2: "next_loop cont dircont ds GET (queue st1 GET) s1 chosen1 st1 = (s', chosen, st')"
    using run unfolding nexttransfers_def l1 by (simp only: Let_def prod.case)
  have e: "chosen_ok ds PUT [] (replicate 6 []) st" by (simp add: chosen_ok_def)
  note put = next_loop_inv [OF l1 inv append_Nil [symmetric] e]
  have p: "tl_inv st1" "chosen_ok ds PUT (queue st1 PUT) chosen1 st1" "\<And>u. u \<notin> set (queue st PUT) \<Longrightarrow> store st1 u = store st u"
    "\<And>u. u \<in> set (queue st PUT) - set (queue st1 PUT) \<Longrightarrow> all_cancelled (store st u)" "queue st1 GET = queue st GET"
    "\<And>sz. chosen1 ! category_index GET sz = []"
    using put [THEN conjunct1] put [THEN conjunct2, THEN conjunct1] put [THEN conjunct2, THEN conjunct2, THEN conjunct1]
      put [THEN conjunct2, THEN conjunct2, THEN conjunct2, THEN conjunct1]
      put [THEN conjunct2, THEN conjunct2, THEN conjunct2, THEN conjunct2, rule_format, of GET] by simp_all
  have c1: "length chosen1 = 6" using p(2) by (simp add: chosen_ok_def)
  then have "chosen_ok ds GET [] chosen1 st1" using p(6) by (simp add: chosen_ok_def)
  note get = next_loop_inv [OF l2 p(1) append_Nil [symmetric] this]
  have g: "tl_inv st'" "chosen_ok ds GET (queue st' GET) chosen st'" "\<And>u. u \<notin> set (queue st1 GET) \<Longrightarrow> store st' u = store st1 u"
    "\<And>u. u \<in> set (queue st1 GET) - set (queue st' GET) \<Longrightarrow> all_cancelled (store st1 u)" "queue st' PUT = queue st1 PUT"
    "\<And>sz. chosen ! category_index PUT sz = chosen1 ! category_index PUT sz"
    using get [THEN conjunct1] get [THEN conjunct2, THEN conjunct1] get [THEN conjunct2, THEN conjunct2, THEN conjunct1]
      get [THEN conjunct2, THEN conjunct2, THEN conjunct2, THEN conjunct1]
      get [THEN conjunct2, THEN conjunct2, THEN conjunct2, THEN conjunct2, rule_format, of PUT] by simp_all
  have "store st' u = store st1 u" if "u \<in> set (queue st1 PUT)" for u
    using queues_disjoint [OF p(1) that, of GET] by (intro g(3)) auto
  then have "chosen_ok ds PUT (queue st' PUT) chosen1 st'"
    using chosen_ok_keep [OF p(2), of st' "queue st' PUT"] g(5) by simp
  then have P: "chosen_ok ds PUT (queue st' PUT) chosen st'" using g(2,6) c1 by (simp add: chosen_ok_def)
  have "store st1 u = store st u" if "u \<in> set (queue st GET)" for u
    using queues_disjoint [OF inv that, of PUT] by (intro p(3)) auto
  then have "all_cancelled (store st u)" if "u \<in> set (queue st GET) - set (queue st' GET)" for u
    using that g(4) p(5) by (metis DiffD1)
  then show ?thesis using g p(4) P by (cases d) simp_all
qed

section \<open>Preemption and pausing\<close>

definition preemptible :: "nat \<Rightarrow> transfer_list \<Rightarrow> nat \<Rightarrow> bool" where
  "preemptible t st u \<longleftrightarrow> u \<in> set (tslots st) \<and> xtype (store st u) = xtype (store st t) \<and> slot (store st u) \<and>
     state (store st u) = TS_ACTIVE \<and> pri st u > pri st t"

lemma lastActiveTransfer_max:
  "case lastActiveTransfer t st of
     None \<Rightarrow> \<not> (\<exists>u. preemptible t st u)
   | Some l \<Rightarrow> preemptible t st l \<and> (\<forall>u. preemptible t st u \<longrightarrow> pri st u \<le> pri st l)"
proof -
  let ?ok = "\<lambda>u. xtype (store st u) = xtype (store st t) \<and> slot (store st u) \<and> state (store st u) = TS_ACTIVE \<and> pri st u > pri st t"
  let ?f = "\<lambda>u last. let x = store st u in
      if xtype x = xtype (store st t) \<and> slot x \<and> state x = TS_ACTIVE \<and> pri st u > pri st t \<and>
         (case last of None \<Rightarrow> True | Some l \<Rightarrow> pri st u > pri st l)
      then Some u else last"
  let ?is_max = "\<lambda>us r. case r of None \<Rightarrow> \<forall>u \<in> us. \<not> ?ok u | Some l \<Rightarrow> l \<in> us \<and> ?ok l \<and> (\<forall>u \<in> us. ?ok u \<longrightarrow> pri st u \<le> pri st l)"
  have step: "?is_max (insert u us) (?f u r)" if "?is_max us r" for u us r
    using that by (cases r) (auto simp: Let_def)
  have "?is_max (set us \<union> vs) (fold ?f us r)" if "?is_max vs r" for us vs r
    using that
  proof (induction us arbitrary: vs r)
    case (Cons u us)
    have "set (u # us) \<union> vs = set us \<union> insert u vs" by auto
    then show ?case using Cons.IH [OF step [OF Cons.prems, of u]] by (simp only: fold_simps)
  qed (simp only: fold_simps list.set Un_empty_left)
  from this [of "{}" None "tslots st"] show ?thesis
    unfolding lastActiveTransfer_def by (auto simp: preemptible_def split: option.split)
qed

lemma same_order_pause: "same_order st (snd (pause_transfer ds t enable st))"
proof -
  let ?q = "set_xfer t (\<lambda>x. x\<lparr>state := TS_QUEUED\<rparr>) st"
  have "same_order st (case getIterator t ?q of None \<Rightarrow> ?q | Some it \<Rightarrow> prepareIncreasePriority ds t it ?q)"
    by (auto split: option.split intro: same_order_state same_order_trans [OF same_order_state same_order_increase])
  then have resume: "same_order st (transfercacheadd t (case getIterator t ?q of None \<Rightarrow> ?q | Some it \<Rightarrow> prepareIncreasePriority ds t it ?q))"
    by (rule same_order_trans [OF _ same_order_cache])
  have "same_order st (if slot (store st t) then release_slot ds t st else st)" using same_order_release by simp
  then have "same_order st (transfercacheadd t (set_xfer t (\<lambda>x. x\<lparr>state := TS_PAUSED\<rparr>) (if slot (store st t) then release_slot ds t st else st)))"
    by (blast intro: same_order_trans same_order_state same_order_cache)
  with resume show ?thesis by (simp add: pause_transfer_def Let_def)
qed

lemma increase_keeps: "store (prepareIncreasePriority ds t dst st) t = store st t"
proof -
  have "l \<noteq> t" if "lastActiveTransfer t st = Some l" for l
    using lastActiveTransfer_max [of t st] that by (auto simp: preemptible_def)
  then show ?thesis
    by (auto simp: prepareIncreasePriority_def set_xfer_def release_slot_def Let_def split: option.split)
qed

lemma paused_store:
  assumes "state (store st t) \<in> {TS_ACTIVE, TS_QUEUED, TS_RETRYING}"
  shows "pause_transfer ds t True st = (PAUSE_OK, transfercacheadd t (set_xfer t (\<lambda>x. x\<lparr>state := TS_PAUSED\<rparr>) (if slot (store st t) then release_slot ds t st else st)))"
  using assms by (auto simp: pause_transfer_def Let_def)

lemma resumed_store:
  assumes "state (store st t) = TS_PAUSED"
  shows "fst (pause_transfer ds t False st) = PAUSE_OK" "store (snd (pause_transfer ds t False st)) t = (store st t)\<lparr>state := TS_QUEUED\<rparr>"
  using assms increase_keeps [of ds t _ "set_xfer t (\<lambda>x. x\<lparr>state := TS_QUEUED\<rparr>) st"]
  by (auto simp: pause_transfer_def Let_def split: option.split) (auto simp: set_xfer_def)

section \<open>Properties\<close>

lemma sorted_wrt_subseq: "subseq xs ys \<Longrightarrow> sorted_wrt P ys \<Longrightarrow> sorted_wrt P xs"
  by (induction rule: list_emb.induct) (auto dest: list_emb_set)

lemma all_direction [code_unfold]: "(\<forall>d. P d) \<longleftrightarrow> P GET \<and> P PUT"
  by (metis direction.exhaust)

definition fresh_transfer :: "direction \<Rightarrow> xfer" where
  "fresh_transfer dir = \<lparr>xtype = dir, priority = 0, state = TS_NONE, slot = False, xbt = new_timer, xsize = 200000,
     files = [False], asyncopen_finished = False\<rparr>"

definition three_downloads :: transfer_list where
  "three_downloads = fold (\<lambda>t. addtransfer 100 t False) [5, 6, 7] (new_transfer_list (\<lambda>_. fresh_transfer GET))"

lemma three_downloads_inv: "tl_inv three_downloads" by code_simp

lemma three_downloads_room: "room (length (queue three_downloads GET) + 1) three_downloads" by code_simp

lemma three_downloads_queue: "queue three_downloads GET = [5, 6, 7]" by code_simp

text \<open>
  C9: \<^verbatim>\<open>movetransfer\<close> takes the transfer at one position and puts it before the transfer that was
  at another (or last), leaving the order of all the others and the other queue as they were.  The
  64-bit priorities that the code assigns, half way between the neighbours or, when there is no
  room there, after respacing the transfers in front, are strictly increasing along the new
  queue, and the transfer cache holds the same ones, so that a restart gives the same order.  The
  hypothesis is that the priorities are at least as many steps away from the ends of the range as
  the queue is long.
\<close>

theorem movetransfer_refines_move:
  assumes "tl_inv st" "room (length (queue st dir) + 1) st" "it < length (queue st dir)" "dst \<le> length (queue st dir)"
  shows "tl_inv (movetransfer ds it dst dir st) \<and>
    queue (movetransfer ds it dst dir st) dir = move_spec (queue st dir ! it) dst (queue st dir) \<and>
    (\<forall>d. d \<noteq> dir \<longrightarrow> queue (movetransfer ds it dst dir st) d = queue st d)"
  using movetransfer_step [OF assms] movetransfer_other by blast

theorem movetransfer_refines_move_witness:
  "tl_inv (movetransfer 100 2 0 GET three_downloads) \<and> queue (movetransfer 100 2 0 GET three_downloads) GET = [7, 5, 6]"
proof -
  have m: "move_spec 7 0 [5, 6, 7] = [7, 5, 6]" by (simp add: move_spec_def)
  show ?thesis
    using movetransfer_refines_move [of three_downloads GET 2 0 100, OF three_downloads_inv three_downloads_room]
    by (simp add: three_downloads_queue m)
qed

text \<open>
  C18: \<^verbatim>\<open>addtransfer\<close> puts a transfer that has no priority yet at the end of its queue, or at
  the front when asked to start it first; a transfer restored from the cache goes back to the
  place its priority gives it.  The queue stays strictly ordered by priority and the cache in step
  with it.
\<close>

theorem addtransfer_places:
  assumes "tl_inv st" "room 1 st" "xtype (store st t) = dir" "t \<notin> set (queue st dir)"
    and "pri st t \<noteq> 0 \<longrightarrow> entry_ok st dir t \<and> pri st t \<notin> pri st ` set (queue st dir)"
  shows "tl_inv (addtransfer ds t startFirst st) \<and>
    queue (addtransfer ds t startFirst st) dir = add_spec t startFirst st (queue st dir)"
  using addtransfer_step [OF assms(1-4)] assms(5) by blast

theorem addtransfer_places_witness:
  "tl_inv (addtransfer 100 9 True three_downloads) \<and> queue (addtransfer 100 9 True three_downloads) GET = [9, 5, 6, 7]"
proof -
  have h: "room 1 three_downloads" "xtype (store three_downloads 9) = GET" "9 \<notin> set (queue three_downloads GET)"
    "pri three_downloads 9 = 0" by code_simp+
  then show ?thesis
    using addtransfer_places [of three_downloads 9 GET 100 True, OF three_downloads_inv]
    by (simp add: add_spec_def three_downloads_queue)
qed

text \<open>
  The moves a user asks for by transfer.  A transfer one place behind another changes places
  with it both when it is moved up and when the other is moved down; moving to the first and to
  the last place does that, and the order of the rest is kept.
\<close>

theorem move_entry_points:
  assumes "tl_inv st" "room (length (queue st dir) + 1) st" "queue st dir = xs @ [u, t] @ ys"
  shows "queue (moveup ds t st) dir = xs @ [t, u] @ ys \<and> queue (movedown ds u st) dir = xs @ [t, u] @ ys \<and>
    queue (movetofirst ds t st) dir = t # xs @ u # ys \<and> queue (movetolast ds t st) dir = xs @ u # ys @ [t]"
proof -
  note t = getIterator_nth [OF assms(1), of dir "xs @ [u]" t ys]
  have d: "distinct (xs @ [u, t] @ ys)" using tl_inv_queue(2) [OF assms(1), of dir] assms(3) by simp
  have up: "queue (moveup ds t st) dir = move_spec t (length xs) (queue st dir)"
    using movetransfer_step [OF assms(1,2), of "length xs + 1" "length xs" ds] t assms(3) by (simp add: moveup_def nth_append)
  have "t \<in> set (queue st dir)" using assms(3) by simp
  note to = movetransfer_to_step [OF assms(1,2) this]
  have first: "queue (movetofirst ds t st) dir = move_spec t 0 (queue st dir)"
    and last: "queue (movetolast ds t st) dir = move_spec t (length (queue st dir)) (queue st dir)"
    using to [of 0 ds] to [of "length (queue st dir)" ds] t(2) assms(3) by (simp_all add: movetofirst_def movetolast_def)
  show ?thesis
    using d movedown_swaps [OF assms] unfolding up first last assms(3) by (simp add: move_spec_def filter_absent)
qed

theorem move_entry_points_witness:
  "queue (moveup 100 7 three_downloads) GET = [5, 7, 6] \<and> queue (movetolast 100 7 three_downloads) GET = [5, 6, 7]"
  using move_entry_points [of three_downloads GET "[5]" 6 7 "[]" 100, OF three_downloads_inv three_downloads_room]
  by (simp add: three_downloads_queue)

text \<open>
  C14: what \<^verbatim>\<open>nexttransfers\<close> returns for any caller.  In each of the four categories of
  direction and size, the chosen transfers are transfers of that category that are still queued, in the
  queue's order and so in strictly increasing priority; each can be started, that is, it has no
  slot and is ready or its file has just been opened, and it has a file that is not cancelled.
  The only transfers that leave a queue are those without a slot whose files were all cancelled.
\<close>

theorem nexttransfers_chooses:
  assumes "tl_inv st" "nexttransfers cont dircont ds s st = (s', chosen, st')"
  shows "tl_inv st' \<and> subseq (chosen ! category_index dir sz) (queue st' dir) \<and>
    sorted_wrt (<) (map (pri st') (chosen ! category_index dir sz)) \<and>
    (\<forall>t \<in> set (chosen ! category_index dir sz). selectable ds sz (store st' t)) \<and>
    (\<forall>t \<in> set (queue st dir) - set (queue st' dir). all_cancelled (store st t))"
proof -
  note n = nexttransfers_inv [OF assms, of dir]
  then have sub: "subseq (chosen ! category_index dir sz) (queue st' dir)" by (simp add: chosen_ok_def)
  then have "subseq (map (pri st') (chosen ! category_index dir sz)) (map (pri st') (queue st' dir))" by (rule subseq_map)
  then have "sorted_wrt (<) (map (pri st') (chosen ! category_index dir sz))"
    using tl_inv_queue(1) [OF n [THEN conjunct1], of dir] by (rule sorted_wrt_subseq)
  then show ?thesis using n sub by (simp add: chosen_ok_def)
qed

theorem nexttransfers_chooses_witness:
  "let r = nexttransfers (\<lambda>x s. (True, s + 1)) (\<lambda>d s. s < (2 :: nat)) 100 0 three_downloads
   in fst (snd r) ! category_index GET LARGEFILE = [5, 6] \<and> tl_inv (snd (snd r)) \<and> selectable 100 LARGEFILE (store (snd (snd r)) 6)"
proof -
  let ?r = "nexttransfers (\<lambda>x s. (True, s + 1)) (\<lambda>d s. s < (2 :: nat)) 100 0 three_downloads"
  have c: "fst (snd ?r) ! category_index GET LARGEFILE = [5, 6]" by code_simp
  have "?r = (fst ?r, fst (snd ?r), snd (snd ?r))" by simp
  from nexttransfers_chooses [OF three_downloads_inv this, of GET LARGEFILE] c show ?thesis by (simp add: Let_def)
qed


definition one_active :: transfer_list where
  "one_active = set_xfer 6 (\<lambda>x. x\<lparr>state := TS_ACTIVE, slot := True\<rparr>) (three_downloads\<lparr>tslots := [6]\<rparr>)"


text \<open>
  C19: when a transfer that waits for a slot moves ahead of active transfers of its direction, exactly one of
  them gives up its slot and is queued again: the one that is last in the order.  Every other
  transfer stays as it is.
\<close>

theorem preemption_takes_the_last:
  assumes "dst \<noteq> length (queue st (xtype (store st t)))" "\<not> slot (store st t)" "state (store st t) \<noteq> TS_PAUSED"
    and "preemptible t st v"
  shows "\<exists>l. preemptible t st l \<and> (\<forall>u. preemptible t st u \<longrightarrow> pri st u \<le> pri st l) \<and>
    (let st' = prepareIncreasePriority ds t dst st in
     state (store st' l) = TS_QUEUED \<and> \<not> slot (store st' l) \<and> tslots st' = removeAll l (tslots st) \<and>
     (\<forall>u. u \<noteq> l \<longrightarrow> store st' u = store st u))"
proof -
  obtain l where l: "lastActiveTransfer t st = Some l"
    using lastActiveTransfer_max [of t st] assms(4) by (cases "lastActiveTransfer t st") auto
  let ?st = "prepareIncreasePriority ds t dst st"
  have st': "?st = transfercacheadd l (set_xfer l (\<lambda>x. x\<lparr>state := TS_QUEUED\<rparr>) (release_slot ds l st))"
    using assms(1-3) l by (simp add: prepareIncreasePriority_def)
  have "preemptible t st l \<and> (\<forall>u. preemptible t st u \<longrightarrow> pri st u \<le> pri st l)"
    using lastActiveTransfer_max [of t st] l by simp
  moreover have "state (store ?st l) = TS_QUEUED \<and> \<not> slot (store ?st l) \<and> tslots ?st = removeAll l (tslots st) \<and>
      (\<forall>u. u \<noteq> l \<longrightarrow> store ?st u = store st u)"
    unfolding st' by (simp add: set_xfer_def release_slot_def Let_def transfercacheadd_def)
  ultimately show ?thesis by (intro exI [of _ l]) (simp add: Let_def)
qed

theorem preemption_takes_the_last_witness:
  "\<exists>l. preemptible 5 one_active l \<and> \<not> slot (store (prepareIncreasePriority 100 5 0 one_active) l)"
proof -
  have "0 \<noteq> length (queue one_active (xtype (store one_active 5)))" "\<not> slot (store one_active 5)" "state (store one_active 5) \<noteq> TS_PAUSED"
    "preemptible 5 one_active 6" by code_simp+
  from preemption_takes_the_last [OF this, of 100] show ?thesis by (auto simp: Let_def)
qed


text \<open>
  C26: the two overloads of \<^verbatim>\<open>movedown\<close> differ: for a transfer that is not the last one, the
  overload on transfers swaps it with the next, while the overload on iterators changes nothing,
  because it asks for a move to the next position, which counts as no move.
\<close>

theorem movedown_overloads_differ:
  assumes "tl_inv st" "room (length (queue st dir) + 1) st" "queue st dir = xs @ [u, t] @ ys"
  shows "movedown_iterator ds (length xs) dir st = st \<and> queue (movedown ds u st) dir = xs @ [t, u] @ ys"
  using movedown_swaps [OF assms] by (simp add: movedown_iterator_def movetransfer_def)

theorem movedown_overloads_differ_witness:
  "movedown_iterator 100 0 GET three_downloads = three_downloads \<and> queue (movedown 100 5 three_downloads) GET = [6, 5, 7]"
  using movedown_overloads_differ [of three_downloads GET "[]" 5 6 "[7]" 100, OF three_downloads_inv three_downloads_room]
  by (simp add: three_downloads_queue)

end
