(* ===== verification/Mega_Json.thy ===== *)
theory Mega_Json
  imports Mega_Base64
begin

text \<open>
  The JSON reader of \<^verbatim>\<open>src/json.cpp\<close>.  The reader's only state is its position in a NUL-terminated text: the list of the characters
  that are left, reading past the end gives 0.  \<^verbatim>\<open>storeobject\<close> skips
  one value and is what all other parts rely on to stay in step with the server's answers;
  \<^verbatim>\<open>escape\<close> and \<^verbatim>\<open>unescape\<close> translate strings.  A loop that may not end
  is a partial function.  The lemmas: \<^verbatim>\<open>storeobject\<close> consumes exactly one
  value of any well-formed text, and escaping is undone for every sequence of bytes.
\<close>

section \<open>Skipping and storing values\<close>

definition is_digit_char :: "byte \<Rightarrow> bool" where
  "is_digit_char c \<longleftrightarrow> ch CHR ''0'' \<le> c \<and> c \<le> ch CHR ''9''"

definition json_space :: "byte \<Rightarrow> bool" where
  "json_space c \<longleftrightarrow> 0 < sint c \<and> c \<le> ch CHR '' ''"

fun scan_string :: "bool \<Rightarrow> bytes \<Rightarrow> bytes option" where
  "scan_string escaped [] = None"
| "scan_string escaped (c # ptr) =
    (if c \<noteq> 0 \<and> (escaped \<or> c \<noteq> ch CHR 0x22)
     then scan_string (c = ch CHR 0x5C \<and> \<not> escaped) ptr
     else if c = 0 then None else Some (c # ptr))"

definition in_number :: "byte \<Rightarrow> bool" where
  "in_number c \<longleftrightarrow> is_digit_char c \<or> c = ch CHR ''.'' \<or> c = ch CHR ''e'' \<or> c = ch CHR ''E''"

lemma scan_string_length: "scan_string e xs = Some ys \<Longrightarrow> length ys \<le> length xs \<and> ys \<noteq> []"
  by (induction e xs rule: scan_string.induct) (auto split: if_splits)

text \<open>
  One turn of the loop of \<^verbatim>\<open>storeobject\<close>: the change of the number of open braces and brackets, and
  the position after the token, or nothing on a parse error.
\<close>

definition store_token :: "bytes \<Rightarrow> (int \<times> int \<times> bytes) option" where
  "store_token ptr =
    (case ptr of
       [] \<Rightarrow> None
     | c # more \<Rightarrow>
         if c = ch CHR ''['' then Some (0, 1, more)
         else if c = ch CHR ''{'' then Some (1, 0, more)
         else if c = ch CHR '']'' then Some (0, - 1, more)
         else if c = ch CHR ''}'' then Some (- 1, 0, more)
         else if c = ch CHR 0x22 then map_option (\<lambda>q. (0, 0, tl q)) (scan_string False more)
         else if is_digit_char c \<or> c = ch CHR ''-'' \<or> c = ch CHR ''.'' then Some (0, 0, dropWhile in_number more)
         else if c \<noteq> ch CHR '':'' \<and> c \<noteq> ch CHR '','' then None
         else Some (0, 0, more))"

lemma store_token_shorter: "store_token ptr = Some (a, b, ptr') \<Longrightarrow> length ptr' < length ptr"
proof (cases ptr)
  case (Cons c more)
  assume "store_token ptr = Some (a, b, ptr')"
  then consider "ptr' = more" | q where "scan_string False more = Some q" "ptr' = tl q" | "ptr' = dropWhile in_number more"
    using Cons by (auto simp: store_token_def split: if_splits)
  then show ?thesis
  proof cases
    case 2
    then show ?thesis using scan_string_length [OF 2(1)] Cons by (cases q) auto
  next
    case 3
    then show ?thesis using Cons length_dropWhile_le [of in_number more] by simp
  qed (simp add: Cons)
qed (simp add: store_token_def)

function store_loop :: "int \<Rightarrow> int \<Rightarrow> bytes \<Rightarrow> bytes option" where
  "store_loop braces brackets ptr =
    (case store_token ptr of
       None \<Rightarrow> None
     | Some (a, b, ptr') \<Rightarrow>
         if braces + a = 0 \<and> brackets + b = 0 then Some ptr' else store_loop (braces + a) (brackets + b) ptr')"
  by pat_completeness auto
termination
  by (relation "measure (\<lambda>(a, b, ptr). length ptr)") (auto dest: store_token_shorter)

declare store_loop.simps [simp del]

definition storeobject :: "bytes \<Rightarrow> bool \<times> bytes option \<times> bytes" where
  "storeobject pos0 =
    (let pos1 = dropWhile json_space pos0 in
     if cstr_hd pos1 = ch CHR '']'' \<or> cstr_hd pos1 = ch CHR ''}'' then (False, None, pos1)
     else let pos = (if cstr_hd pos1 = ch CHR '','' then tl pos1 else pos1) in
       case store_loop 0 0 pos of
         None \<Rightarrow> (False, None, pos)
       | Some ptr \<Rightarrow>
           let v = take (length pos - length ptr) pos
           in (True, Some (if cstr_hd pos = ch CHR 0x22 then butlast (tl v) else v), ptr))"

definition storeKeyValueFromObject :: "bytes \<Rightarrow> (bytes \<times> bytes) option \<times> bytes" where
  "storeKeyValueFromObject pos =
    (let (ok, key, pos1) = storeobject pos in
     if \<not> ok \<or> cstr_hd pos1 \<noteq> ch CHR '':'' then (None, pos1)
     else let (ok', v, pos2) = storeobject (tl pos1) in (if ok' then Some (the key, the v) else None, pos2))"

section \<open>Names and structure\<close>

definition skipnullvalue :: "bytes \<Rightarrow> bool \<times> bytes" where
  "skipnullvalue pos =
    (let c = cstr_hd pos in
     if c = ch CHR '','' then (True, tl pos)
     else if c = ch CHR '']'' \<or> c = ch CHR ''}'' then (True, pos)
     else if c = ch CHR ''n'' then
       if take 4 pos \<noteq> asc ''null'' then (False, pos)
       else let d = cstr_hd (drop 4 pos) in
         if d = ch CHR '','' then (True, drop 4 (tl pos))
         else if d = ch CHR '']'' \<or> d = ch CHR ''}'' then (True, drop 4 pos)
         else (False, pos)
     else (False, pos))"

definition isnumeric :: "bytes \<Rightarrow> bool \<times> bytes" where
  "isnumeric pos =
    (let pos1 = (if cstr_hd pos = ch CHR '','' then tl pos else pos);
         ptr = (if cstr_hd pos1 = ch CHR ''-'' then tl pos1 else pos1)
     in (is_digit_char (cstr_hd ptr), pos1))"

text \<open>Characters are signed: converting one to a name id extends the sign.\<close>

fun nameid_of :: "u64 \<Rightarrow> bytes \<Rightarrow> u64 \<times> bytes" where
  "nameid_of i [] = (i, [])"
| "nameid_of i (c # ptr) =
    (if c \<noteq> 0 \<and> c \<noteq> ch CHR 0x22 then nameid_of (push_bit 8 i + scast c) ptr else (i, c # ptr))"

text \<open>The identifier of a name of at most eight characters, as the literals of the sources give it.\<close>

definition makeNameid :: "bytes \<Rightarrow> u64" where
  "makeNameid name = foldl (\<lambda>i c. push_bit 8 i + scast c) 0 name"

lemma nameid_of_length: "nameid_of i p = (j, q) \<Longrightarrow> length q \<le> length p"
  by (induction i p rule: nameid_of.induct) (auto split: if_splits)

definition after_separator :: "bytes \<Rightarrow> bytes" where
  "after_separator pos = (if cstr_hd pos = ch CHR '','' \<or> cstr_hd pos = ch CHR '':'' then tl pos else pos)"

definition read_nameid :: "bytes \<Rightarrow> u64 \<times> bytes" where
  "read_nameid pos =
    (let ptr = after_separator pos in
     if cstr_hd ptr = ch CHR 0x22 then
       let (i, q) = nameid_of 0 (tl ptr); pos1 = tl q
       in (i, if cstr_hd pos1 = ch CHR '':'' \<or> cstr_hd pos1 = ch CHR '','' then tl pos1 else pos1)
     else (0, pos))"

lemma read_nameid_shorter: "read_nameid pos = (i, pos') \<Longrightarrow> i \<noteq> 0 \<Longrightarrow> length pos' < length pos"
proof -
  assume r: "read_nameid pos = (i, pos')" "i \<noteq> 0"
  obtain j q where q: "nameid_of 0 (tl (after_separator pos)) = (j, q)" by fastforce
  have s: "length (after_separator pos) \<le> length pos" by (simp add: after_separator_def)
  from r have h: "cstr_hd (after_separator pos) = ch CHR 0x22" "length pos' \<le> length q"
    by (auto simp: read_nameid_def q Let_def split: if_splits)
  then have "after_separator pos \<noteq> []" by (auto simp: cstr_hd_def)
  then show ?thesis using h(2) s nameid_of_length [OF q] by (cases "after_separator pos") auto
qed

lemma skipnullvalue_length: "length (snd (skipnullvalue pos)) \<le> length pos"
  by (simp add: skipnullvalue_def Let_def)

function getNameidSkipNull :: "bool \<Rightarrow> bytes \<Rightarrow> u64 \<times> bytes" where
  "getNameidSkipNull skipnullvalues pos =
    (let (i, pos1) = read_nameid pos in
     if i \<noteq> 0 \<and> skipnullvalues then
       let (skipped, pos2) = skipnullvalue pos1 in if skipped then getNameidSkipNull True pos2 else (i, pos2)
     else (i, pos1))"
  by pat_completeness auto

termination
proof (relation "measure (\<lambda>(b, pos). length pos)")
  fix pos :: bytes and r i pos1 s skipped pos2 and b :: bool
  assume "r = read_nameid pos" "(i, pos1) = r" "i \<noteq> 0 \<and> b" "s = skipnullvalue pos1" "(skipped, pos2) = s"
  then show "((True, pos2), b, pos) \<in> measure (\<lambda>(b, pos). length pos)"
    using read_nameid_shorter [of pos i pos1] skipnullvalue_length [of pos1] by (metis (no_types, lifting) case_prod_conv in_measure le_less_trans snd_conv)
qed simp

definition getnameid :: "bytes \<Rightarrow> u64 \<times> bytes" where
  "getnameid = getNameidSkipNull True"

definition getnameidvalue :: "bytes \<Rightarrow> u64 \<times> bytes" where
  "getnameidvalue = getNameidSkipNull False"

definition quoted :: "bytes \<Rightarrow> bytes" where
  "quoted ptr = takeWhile (\<lambda>c. c \<noteq> 0 \<and> c \<noteq> ch CHR 0x22) ptr"

definition getname :: "bytes \<Rightarrow> bytes \<times> bytes" where
  "getname pos =
    (let ptr = after_separator pos in
     if cstr_hd ptr = ch CHR 0x22 then let name = quoted (tl ptr) in (name, drop (length name + 2) (tl ptr)) else ([], pos))"

definition getnameWithoutAdvance :: "bytes \<Rightarrow> bytes" where
  "getnameWithoutAdvance pos = (let ptr = after_separator pos in if cstr_hd ptr = ch CHR 0x22 then quoted (tl ptr) else [])"

definition json_is :: "bytes \<Rightarrow> bytes \<Rightarrow> bool \<times> bytes" where
  "json_is v pos =
    (let pos1 = (if cstr_hd pos = ch CHR '','' then tl pos else pos) in
     if cstr_hd pos1 \<noteq> ch CHR 0x22 \<or> take (length v) (tl pos1) \<noteq> v \<or> cstr_hd (drop (length v) (tl pos1)) \<noteq> ch CHR 0x22
     then (False, pos1) else (True, drop (length v + 2) pos1))"

definition enterarray :: "bytes \<Rightarrow> bool \<times> bytes" where
  "enterarray pos = (let pos1 = after_separator pos in if cstr_hd pos1 = ch CHR ''['' then (True, tl pos1) else (False, pos1))"

definition leavearray :: "bytes \<Rightarrow> bool \<times> bytes" where
  "leavearray pos = (if cstr_hd pos = ch CHR '']'' then (True, tl pos) else (False, pos))"

definition enterobject :: "bytes \<Rightarrow> bool \<times> bytes" where
  "enterobject pos =
    (let pos1 = (if cstr_hd pos = ch CHR ''}'' then tl pos else pos);
         pos2 = (if cstr_hd pos1 = ch CHR '','' then tl pos1 else pos1)
     in if cstr_hd pos2 = ch CHR ''{'' then (True, tl pos2) else (False, pos2))"

partial_function (option) leaveobject :: "bytes \<Rightarrow> (bool \<times> bytes) option" where
  "leaveobject pos =
    (let c = cstr_hd pos in
     if c = ch CHR '':'' \<or> c = ch CHR '','' \<or> c = ch CHR '' '' then leaveobject (tl pos)
     else if c = ch CHR 0x22 \<or> is_digit_char c \<or> c = ch CHR ''-'' \<or> c = ch CHR ''['' \<or> c = ch CHR ''{''
     then leaveobject (snd (snd (storeobject pos)))
     else if c = ch CHR '']'' then leaveobject (tl pos)
     else Some (if c = ch CHR ''}'' then (True, tl pos) else (False, pos)))"

declare leaveobject.simps [code]

section \<open>Values\<close>

text \<open>
  \<^verbatim>\<open>atoll\<close> on what follows an optional minus sign; the source calls it at a digit or a minus sign.  The value of
  a number that does not fit 64 bits, which C leaves undefined, is the number itself.
\<close>

fun digits_value :: "int \<Rightarrow> bytes \<Rightarrow> int" where
  "digits_value n [] = n"
| "digits_value n (c # cs) = (if is_digit_char c then digits_value (10 * n + (uint c - 48)) cs else n)"

definition atoll :: "bytes \<Rightarrow> int" where
  "atoll p = (if cstr_hd p = ch CHR ''-'' then - digits_value 0 (tl p) else digits_value 0 p)"

definition getint :: "bytes \<Rightarrow> m_off_t \<times> bytes" where
  "getint pos0 =
    (let pos = after_separator pos0; ptr = (if cstr_hd pos = ch CHR 0x22 then tl pos else pos) in
     if \<not> is_digit_char (cstr_hd ptr) \<and> cstr_hd ptr \<noteq> ch CHR ''-'' then (- 1, pos)
     else (atoll ptr, snd (snd (storeobject pos))))"

text \<open>The characters a pointer into the text gives access to.\<close>

definition getvalue :: "bytes \<Rightarrow> bytes \<times> bytes" where
  "getvalue pos0 =
    (let pos = after_separator pos0
     in (if cstr_hd pos = ch CHR 0x22 then tl pos else pos, snd (snd (storeobject pos))))"

text \<open>\<^verbatim>\<open>strtoull\<close> in base 0: the base is told by the prefix, and the largest value stands for those that do not fit.\<close>

fun based_value :: "nat \<Rightarrow> nat \<Rightarrow> bytes \<Rightarrow> nat" where
  "based_value base n [] = n"
| "based_value base n (c # cs) =
    (if ishexdigit c \<and> unat (hexval c) < base then based_value base (base * n + unat (hexval c)) cs else n)"

definition strtoull :: "bytes \<Rightarrow> u64" where
  "strtoull p =
    (let v = (if cstr_hd p = ch CHR ''0'' \<and> cstr_hd (tl p) \<in> {ch CHR ''x'', ch CHR ''X''} \<and> ishexdigit (cstr_hd (tl (tl p)))
              then based_value 16 0 (tl (tl p))
              else if cstr_hd p = ch CHR ''0'' then based_value 8 0 p
              else based_value 10 0 p)
     in if v < 2 ^ 64 then of_nat v else - 1)"

definition getuint64 :: "bytes \<Rightarrow> u64 \<times> bytes" where
  "getuint64 pos0 =
    (let pos = after_separator pos0; ptr = (if cstr_hd pos = ch CHR 0x22 then tl pos else pos) in
     if \<not> is_digit_char (cstr_hd ptr) then (- 1, pos) else (strtoull ptr, snd (snd (storeobject pos))))"

section \<open>Binary values\<close>

definition after_comma :: "bytes \<Rightarrow> bytes" where
  "after_comma pos = (if cstr_hd pos = ch CHR '','' then tl pos else pos)"

text \<open>Into a buffer of \<open>dstlen\<close> bytes: the bytes written, and the position.\<close>

definition storebinary :: "int \<Rightarrow> bytes \<Rightarrow> bytes \<times> bytes" where
  "storebinary dstlen pos0 =
    (let pos = after_comma pos0 in
     if cstr_hd pos = ch CHR 0x22 then (atob (tl pos) dstlen, snd (snd (storeobject pos))) else ([], pos))"

text \<open>Into a string: nothing is stored when the value is not a string, and the call fails when it has no end.\<close>

definition storebinary_string :: "bytes \<Rightarrow> bool \<times> bytes option \<times> bytes" where
  "storebinary_string pos0 =
    (let pos = after_comma pos0 in
     if cstr_hd pos = ch CHR 0x22 then
       let n = length (quoted (tl pos)) in
       if cstr_hd (drop n (tl pos)) \<noteq> ch CHR 0x22 then (False, None, pos)
       else (True, Some (atob (tl pos) (int (n div 4 * 3 + 3))), snd (snd (storeobject pos)))
     else (True, None, pos))"

definition ishandle :: "int \<Rightarrow> bytes \<Rightarrow> bool \<times> bytes" where
  "ishandle size0 pos0 =
    (let n = (if size0 = 6 then 8 else 11 :: nat); pos = after_comma pos0
     in (cstr_hd pos = ch CHR 0x22 \<and> (\<forall>i \<in> {0..n}. cstr_hd (drop i pos) \<noteq> 0) \<and> cstr_hd (drop (Suc n) pos) = ch CHR 0x22, pos))"

definition gethandle :: "int \<Rightarrow> bytes \<Rightarrow> handle \<times> bytes" where
  "gethandle size0 pos =
    (let (buf, pos1) = storebinary 9 pos
     in (if int (length buf) = size0 then le_word (take 8 buf) else UNDEF, pos1))"

definition getNodeHandle :: "bytes \<Rightarrow> handle \<times> bytes" where
  "getNodeHandle = gethandle 6"

definition getfsfp :: "bytes \<Rightarrow> u64 \<times> bytes" where
  "getfsfp = gethandle 8"

definition isNumericError :: "bytes \<Rightarrow> int option \<times> bytes" where
  "isNumericError pos =
    (let ptr = (if cstr_hd pos = ch CHR '','' then tl pos else pos); c = cstr_hd ptr; d = cstr_hd (tl ptr) in
     if c \<noteq> ch CHR ''-'' \<and> c \<noteq> ch CHR ''0'' then (None, pos)
     else if c = ch CHR ''-'' \<and> \<not> (ch CHR ''1'' \<le> d \<and> d \<le> ch CHR ''9'') then (None, pos)
     else (Some (atoll ptr), snd (snd (storeobject pos))))"

definition copystring :: "bytes option \<Rightarrow> bytes" where
  "copystring p = (case p of None \<Rightarrow> [] | Some q \<Rightarrow> quoted q)"

section \<open>Escaping\<close>

definition ishex :: "byte \<Rightarrow> bool" where
  "ishex c \<longleftrightarrow> is_digit_char c \<or> ch CHR ''a'' \<le> c \<and> c \<le> ch CHR ''f'' \<or> ch CHR ''A'' \<le> c \<and> c \<le> ch CHR ''F''"

definition utf8encode :: "u32 \<Rightarrow> bytes" where
  "utf8encode cp =
    (if cp < 0x80 then [ucast cp]
     else if cp < 0x800 then [ucast (0xC0 OR drop_bit 6 cp), ucast (0x80 OR (cp AND 0x3F))]
     else [ucast (0xE0 OR drop_bit 12 cp), ucast (0x80 OR (drop_bit 6 cp AND 0x3F)), ucast (0x80 OR (cp AND 0x3F))])"

definition hex4 :: "bytes \<Rightarrow> u32" where
  "hex4 h = push_bit 12 (ucast (hexval (h ! 0))) OR push_bit 8 (ucast (hexval (h ! 1))) OR
     push_bit 4 (ucast (hexval (h ! 2))) OR ucast (hexval (h ! 3))"

text \<open>The replacement for an escape sequence, by what follows the backslash, and how much of that it takes.\<close>

definition unescape_one :: "bytes \<Rightarrow> bytes \<times> nat" where
  "unescape_one t =
    (let c = hd t in
     if c = ch CHR ''n'' then ([10], 1)
     else if c = ch CHR ''r'' then ([13], 1)
     else if c = ch CHR ''b'' then ([8], 1)
     else if c = ch CHR ''f'' then ([12], 1)
     else if c = ch CHR ''t'' then ([9], 1)
     else if c = ch CHR 0x5C then ([ch CHR 0x5C], 1)
     else if c = ch CHR ''u'' then
       if 5 \<le> length t \<and> ishex (t ! 1) \<and> ishex (t ! 2) \<and> ishex (t ! 3) \<and> ishex (t ! 4)
       then (utf8encode (hex4 (tl t)), 5) else ([ch CHR ''u''], 1)
     else ([c], 1))"

function unescape :: "bytes \<Rightarrow> bytes" where
  "unescape s =
    (if length s < 2 then s
     else if hd s \<noteq> ch CHR 0x5C then hd s # unescape (tl s)
     else let (repl, l) = unescape_one (tl s) in repl @ unescape (drop l (tl s)))"
  by pat_completeness auto
termination
  by (relation "measure length") auto

declare unescape.simps [simp del]

text \<open>The text for a character of one byte, by its code point.\<close>

definition escape_char :: "int \<Rightarrow> byte \<Rightarrow> bytes" where
  "escape_char codepoint c =
    (if codepoint = 0x22 then asc [CHR 0x5C, CHR 0x22]
     else if codepoint = 0x5C then asc [CHR 0x5C, CHR 0x5C]
     else if codepoint = 8 then asc [CHR 0x5C, CHR ''b'']
     else if codepoint = 12 then asc [CHR 0x5C, CHR ''f'']
     else if codepoint = 10 then asc [CHR 0x5C, CHR ''n'']
     else if codepoint = 13 then asc [CHR 0x5C, CHR ''r'']
     else if codepoint = 9 then asc [CHR 0x5C, CHR ''t'']
     else if codepoint < 0x20 then
       asc [CHR 0x5C, CHR ''u'', CHR ''0'', CHR ''0''] @ [lchex (drop_bit 4 (word_of_int codepoint)), lchex (word_of_int codepoint AND 0xf)]
     else [c])"

text \<open>\<open>iterate\<close> is \<^verbatim>\<open>utf8proc_iterate\<close>: the number of bytes of the first character, or an error, and its code point.\<close>

function escape :: "(bytes \<Rightarrow> int \<times> int) \<Rightarrow> bytes \<Rightarrow> bytes" where
  "escape iterate s =
    (if s = [] then []
     else let (n, codepoint) = iterate s in
       if n \<le> 0 then hd s # escape iterate (tl s)
       else if n > 1 then take (nat n) s @ escape iterate (drop (nat n) s)
       else escape_char codepoint (hd s) @ escape iterate (tl s))"
  by pat_completeness auto
termination
  by (relation "measure (\<lambda>(f, s). length s)") auto

declare escape.simps [simp del]

section \<open>Texts as a whole\<close>

fun find_from :: "bytes \<Rightarrow> bytes \<Rightarrow> nat option" where
  "find_from pattern [] = (if pattern = [] then Some 0 else None)"
| "find_from pattern (c # cs) =
    (if take (length pattern) (c # cs) = pattern then Some 0 else map_option Suc (find_from pattern cs))"

definition extractstringvalue :: "bytes \<Rightarrow> bytes \<Rightarrow> bytes option" where
  "extractstringvalue json name =
    (let pattern = name @ asc [CHR 0x22, CHR '':'', CHR 0x22] in
     case find_from pattern json of
       None \<Rightarrow> None
     | Some pos \<Rightarrow>
         let r = drop (pos + length pattern) json
         in map_option (\<lambda>n. take n r) (find_from [ch CHR 0x22] r))"

lemma store_loop_shorter: "store_loop a b ptr = Some ptr' \<Longrightarrow> length ptr' < length ptr"
proof (induction a b ptr rule: store_loop.induct)
  case (1 a b ptr)
  obtain x y p where t: "store_token ptr = Some (x, y, p)"
    using "1.prems" by (auto simp: store_loop.simps [of a b ptr] split: option.splits)
  have "ptr' = p \<or> store_loop (a + x) (b + y) p = Some ptr' \<and> \<not> (a + x = 0 \<and> b + y = 0)"
    using "1.prems" by (auto simp: store_loop.simps [of a b ptr] t split: if_splits)
  then show ?case using store_token_shorter [OF t] "1.IH" [OF t refl refl] by force
qed

lemma storeobject_shorter: "storeobject pos = (True, v, pos') \<Longrightarrow> length pos' < length pos"
  using length_dropWhile_le [of json_space pos]
  by (auto simp: storeobject_def Let_def split: if_splits option.splits dest!: store_loop_shorter)

lemma getNameidSkipNull_shorter: "getNameidSkipNull b pos = (i, pos') \<Longrightarrow> i \<noteq> 0 \<Longrightarrow> length pos' < length pos"
proof (induction b pos rule: getNameidSkipNull.induct)
  case (1 b pos)
  obtain j p where r: "read_nameid pos = (j, p)" by fastforce
  obtain sk q where s: "skipnullvalue p = (sk, q)" by fastforce
  have l: "length q \<le> length p" using skipnullvalue_length [of p] s by simp
  show ?case
  proof (cases "j \<noteq> 0 \<and> b \<and> sk")
    case True
    then have "length pos' < length q" using "1.IH" [OF r [symmetric] refl _ s [symmetric] refl] "1.prems" r s
      by (simp add: getNameidSkipNull.simps [of b pos])
    then show ?thesis using l read_nameid_shorter [OF r] True by linarith
  next
    case False
    then have "i = j \<and> length pos' \<le> length p" using "1.prems" r s l by (auto simp: getNameidSkipNull.simps [of b pos] split: if_splits)
    then show ?thesis using read_nameid_shorter [OF r] "1.prems"(2) by auto
  qed
qed

lemma storeobject_length: "length (snd (snd (storeobject pos))) \<le> length pos"
  using length_dropWhile_le [of json_space pos]
  by (auto simp: storeobject_def Let_def split: option.splits dest!: store_loop_shorter)

lemma getint_length: "length (snd (getint pos)) \<le> length pos"
  using storeobject_length [of "after_separator pos"] by (auto simp: getint_def after_separator_def Let_def split: if_splits)

lemma member_shorter:
  assumes "(i, pos1) = getnameid pos" "i \<noteq> 0"
  shows "(n, pos2) = getint pos1 \<Longrightarrow> length pos2 < length pos" "length (snd (snd (storeobject pos1))) < length pos"
  using getNameidSkipNull_shorter [OF assms(1) [unfolded getnameid_def, symmetric] assms(2)] getint_length [of pos1] storeobject_length [of pos1]
  by (auto dest: sym)

definition is_space :: "byte \<Rightarrow> bool" where
  "is_space c \<longleftrightarrow> c = 32 \<or> 9 \<le> c \<and> c \<le> 13"

function stripWhitespace :: "bytes \<Rightarrow> bytes" where
  "stripWhitespace pos =
    (let c = cstr_hd pos in
     if c = 0 then []
     else if c = ch CHR 0x22 then
       case storeobject pos of (ok, temp, pos') \<Rightarrow>
         if \<not> ok then [ch CHR 0x22] else ch CHR 0x22 # the temp @ ch CHR 0x22 # stripWhitespace pos'
     else if is_space c then stripWhitespace (tl pos)
     else c # stripWhitespace (tl pos))"
  by pat_completeness auto
termination
  by (relation "measure length") (auto simp: cstr_hd_def dest: storeobject_shorter [OF sym] split: list.splits)

declare stripWhitespace.simps [simp del]

section \<open>Writing\<close>

text \<open>
  The writer's text, and for each open array whether it has an element already.  \<^verbatim>\<open>append(const char*)\<close> takes the characters
  before the first NUL.
\<close>

record json_writer =
  mJson :: bytes
  mLevels :: "int list"
  mLevel :: int

definition new_writer :: json_writer where
  "new_writer = \<lparr>mJson = [], mLevels = replicate 8 0, mLevel = - 1\<rparr>"

definition c_str :: "bytes \<Rightarrow> bytes" where
  "c_str = takeWhile (\<lambda>c. c \<noteq> 0)"

definition append_raw :: "bytes \<Rightarrow> json_writer \<Rightarrow> json_writer" where
  "append_raw s w = w\<lparr>mJson := mJson w @ s\<rparr>"

definition appendraw :: "bytes \<Rightarrow> json_writer \<Rightarrow> json_writer" where
  "appendraw s = append_raw (c_str s)"

definition appendraw_len :: "bytes \<Rightarrow> nat \<Rightarrow> json_writer \<Rightarrow> json_writer" where
  "appendraw_len s len = append_raw (take len s)"

definition cmd :: "bytes \<Rightarrow> json_writer \<Rightarrow> json_writer" where
  "cmd c w = append_raw (asc [CHR 0x22, CHR ''a'', CHR 0x22, CHR '':'', CHR 0x22] @ c_str c @ [ch CHR 0x22]) w"

text \<open>\<open>sessionid\<close> is the client's, of fixed length.\<close>

definition notself :: "bytes \<Rightarrow> json_writer \<Rightarrow> json_writer" where
  "notself sessionid w =
    append_raw (asc [CHR '','', CHR 0x22, CHR ''i'', CHR 0x22, CHR '':'', CHR 0x22] @ sessionid @ [ch CHR 0x22]) w"

text \<open>\<^verbatim>\<open>strchr\<close> also finds the terminator.\<close>

definition addcomma :: "json_writer \<Rightarrow> json_writer" where
  "addcomma w =
    (if mJson w \<noteq> [] \<and> last (mJson w) \<notin> {ch CHR ''['', ch CHR ''{'', 0} then append_raw (asc '','') w else w)"

definition named :: "bytes \<Rightarrow> bytes" where
  "named name = ch CHR 0x22 # c_str name @ asc [CHR 0x22, CHR '':'']"

definition arg :: "bytes \<Rightarrow> bytes \<Rightarrow> bool \<Rightarrow> json_writer \<Rightarrow> json_writer" where
  "arg name v quotes w =
    (let q = (if quotes then [ch CHR 0x22] else []) in append_raw (named name @ q @ c_str v @ q) (addcomma w))"

definition arg_handle :: "bytes \<Rightarrow> handle \<Rightarrow> nat \<Rightarrow> json_writer \<Rightarrow> json_writer" where
  "arg_handle name h len = arg name (btoa (le_bytes len h)) True"

definition as8byte :: "handle \<Rightarrow> handle" where
  "as8byte h = (if h AND 0xFFFFFFFFFFFF = 0xFFFFFFFFFFFF then - 1 else h AND 0xFFFFFFFFFFFF)"

definition arg_nodehandle :: "bytes \<Rightarrow> handle \<Rightarrow> json_writer \<Rightarrow> json_writer" where
  "arg_nodehandle name h = arg_handle name (as8byte h) 6"

definition arg_bytes :: "bytes \<Rightarrow> bytes \<Rightarrow> json_writer \<Rightarrow> json_writer" where
  "arg_bytes name v = arg name (btoa v) True"

definition arg_B64 :: "bytes \<Rightarrow> bytes \<Rightarrow> json_writer \<Rightarrow> json_writer" where
  "arg_B64 name v = arg_bytes name v"

definition arg_fsfp :: "bytes \<Rightarrow> u64 \<Rightarrow> json_writer \<Rightarrow> json_writer" where
  "arg_fsfp name fp = arg_bytes name (le_bytes 8 fp)"

definition arg_stringWithEscapes :: "(bytes \<Rightarrow> int \<times> int) \<Rightarrow> bytes \<Rightarrow> bytes \<Rightarrow> bool \<Rightarrow> json_writer \<Rightarrow> json_writer" where
  "arg_stringWithEscapes iterate name v = arg name (escape iterate v)"

text \<open>\<^verbatim>\<open>%d\<close> and \<^verbatim>\<open>std::to_string\<close>.\<close>

function decimal_digits :: "nat \<Rightarrow> bytes" where
  "decimal_digits n = (if n < 10 then [of_nat (48 + n)] else decimal_digits (n div 10) @ [of_nat (48 + n mod 10)])"
  by pat_completeness auto
termination
  by (relation "measure id") auto

declare decimal_digits.simps [simp del]

definition decimal :: "int \<Rightarrow> bytes" where
  "decimal n = (if n < 0 then ch CHR ''-'' # decimal_digits (nat (- n)) else decimal_digits (nat n))"

definition arg_int :: "bytes \<Rightarrow> m_off_t \<Rightarrow> json_writer \<Rightarrow> json_writer" where
  "arg_int name n = arg name (decimal n) False"

definition openobject :: "json_writer \<Rightarrow> json_writer" where
  "openobject w = (let l = mLevel w + 1 in w\<lparr>mLevel := l, mLevels := (mLevels w)[nat l := 0]\<rparr>)"

definition closeobject :: "json_writer \<Rightarrow> json_writer" where
  "closeobject w = w\<lparr>mLevel := mLevel w - 1\<rparr>"

definition beginarray :: "json_writer \<Rightarrow> json_writer" where
  "beginarray w = openobject (append_raw (asc ''['') (addcomma w))"

definition beginarray_name :: "bytes \<Rightarrow> json_writer \<Rightarrow> json_writer" where
  "beginarray_name name w = openobject (append_raw (named name @ asc ''['') (addcomma w))"

definition endarray :: "json_writer \<Rightarrow> json_writer" where
  "endarray w = closeobject (append_raw (asc '']'') w)"

definition beginobject :: "json_writer \<Rightarrow> json_writer" where
  "beginobject w = append_raw (asc ''{'') (addcomma w)"

definition beginobject_name :: "bytes \<Rightarrow> json_writer \<Rightarrow> json_writer" where
  "beginobject_name name w = append_raw (named name @ asc ''{'') (addcomma w)"

definition endobject :: "json_writer \<Rightarrow> json_writer" where
  "endobject w = append_raw (asc ''}'') w"

definition elements :: "json_writer \<Rightarrow> bool \<times> json_writer" where
  "elements w =
    (let l = nat (mLevel w) in
     if mLevels w ! l = 0 then (False, w\<lparr>mLevels := (mLevels w)[l := 1]\<rparr>) else (True, w))"

definition element_raw :: "bytes \<Rightarrow> json_writer \<Rightarrow> json_writer" where
  "element_raw s w = (let (follows, w') = elements w in append_raw ((if follows then asc '','' else []) @ s) w')"

definition element_int :: "int \<Rightarrow> json_writer \<Rightarrow> json_writer" where
  "element_int n = element_raw (decimal n)"

definition element_cstr :: "bytes \<Rightarrow> json_writer \<Rightarrow> json_writer" where
  "element_cstr data = element_raw (ch CHR 0x22 # c_str data @ [ch CHR 0x22])"

definition element_handle :: "handle \<Rightarrow> nat \<Rightarrow> json_writer \<Rightarrow> json_writer" where
  "element_handle h len = element_cstr (btoa (le_bytes len h))"

definition element_bytes :: "bytes \<Rightarrow> json_writer \<Rightarrow> json_writer" where
  "element_bytes data = element_raw (ch CHR 0x22 # btoa data @ [ch CHR 0x22])"

definition element_B64 :: "bytes \<Rightarrow> json_writer \<Rightarrow> json_writer" where
  "element_B64 s = element_bytes s"

section \<open>One value is skipped exactly\<close>

text \<open>JSON texts without white space: numbers, strings with their escapes, arrays and objects.\<close>

datatype jvalue = JNum bytes | JStr bytes | JArr "jvalue list" | JObj "(bytes \<times> jvalue) list"

fun commas :: "bytes list \<Rightarrow> bytes" where
  "commas [] = []"
| "commas [x] = x"
| "commas (x # y # xs) = x @ ch CHR '','' # commas (y # xs)"

definition quote_str :: "bytes \<Rightarrow> bytes" where
  "quote_str s = ch CHR 0x22 # s @ [ch CHR 0x22]"

fun jprint :: "jvalue \<Rightarrow> bytes" where
  "jprint (JNum n) = n"
| "jprint (JStr s) = quote_str s"
| "jprint (JArr vs) = ch CHR ''['' # commas (map jprint vs) @ [ch CHR '']'']"
| "jprint (JObj ms) = ch CHR ''{'' # commas (map (\<lambda>(k, v). quote_str k @ ch CHR '':'' # jprint v) ms) @ [ch CHR ''}'']"

definition str_ok :: "bytes \<Rightarrow> bool" where
  "str_ok s \<longleftrightarrow> scan_string False (s @ [ch CHR 0x22]) = Some [ch CHR 0x22]"

definition num_ok :: "bytes \<Rightarrow> bool" where
  "num_ok n \<longleftrightarrow> n \<noteq> [] \<and> (is_digit_char (hd n) \<or> hd n = ch CHR ''-'' \<or> hd n = ch CHR ''.'') \<and> list_all in_number (tl n)"

fun jvalue_ok :: "jvalue \<Rightarrow> bool" where
  "jvalue_ok (JNum n) = num_ok n"
| "jvalue_ok (JStr s) = str_ok s"
| "jvalue_ok (JArr vs) = list_all jvalue_ok vs"
| "jvalue_ok (JObj ms) = list_all (\<lambda>(k, v). str_ok k \<and> jvalue_ok v) ms"

lemma scan_string_append: "scan_string e (s @ [q]) = Some [q] \<Longrightarrow> scan_string e (s @ q # rest) = Some (q # rest)"
proof (induction s arbitrary: e)
  case (Cons c s)
  then show ?case by (auto split: if_splits)
qed (simp split: if_splits)

definition ends_number :: "bytes \<Rightarrow> bool" where
  "ends_number r \<longleftrightarrow> r = [] \<or> \<not> in_number (hd r)"

text \<open>A text the loop passes over: it ends there at the outermost level and goes on below it.\<close>

definition skips :: "bytes \<Rightarrow> bool" where
  "skips p \<longleftrightarrow> (\<forall>b k r. 0 \<le> b \<longrightarrow> 0 \<le> k \<longrightarrow> ends_number r \<longrightarrow>
     store_loop b k (p @ r) = (if b = 0 \<and> k = 0 then Some r else store_loop b k r))"

definition skips_inside :: "bytes \<Rightarrow> bool" where
  "skips_inside p \<longleftrightarrow> (\<forall>b k r. 0 \<le> b \<longrightarrow> 0 \<le> k \<longrightarrow> b \<noteq> 0 \<or> k \<noteq> 0 \<longrightarrow> ends_number r \<longrightarrow>
     store_loop b k (p @ r) = store_loop b k r)"

lemma skips_inside: "skips p \<Longrightarrow> skips_inside p"
  by (auto simp: skips_def skips_inside_def)

lemma ends_number_special: "ends_number (ch CHR '','' # r)" "ends_number (ch CHR '':'' # r)" "ends_number (ch CHR '']'' # r)"
  "ends_number (ch CHR ''}'' # r)" "ends_number (ch CHR 0x22 # r)"
  by (simp_all add: ends_number_def in_number_def is_digit_char_def)

lemma store_separator:
  "b \<noteq> 0 \<or> k \<noteq> 0 \<Longrightarrow> store_loop b k (ch CHR '','' # r) = store_loop b k r"
  "b \<noteq> 0 \<or> k \<noteq> 0 \<Longrightarrow> store_loop b k (ch CHR '':'' # r) = store_loop b k r"
  by (auto simp: store_loop.simps [of b k "_ # r"] store_token_def is_digit_char_def)

lemmas json_separators = ends_number_special ends_number_special [simplified] store_separator store_separator [simplified]

lemma store_token_string: "str_ok s \<Longrightarrow> store_token (quote_str s @ r) = Some (0, 0, r)"
  using scan_string_append [of False s "ch CHR 0x22" r] by (simp add: store_token_def quote_str_def str_ok_def)

lemma skips_string: "str_ok s \<Longrightarrow> skips (quote_str s)"
  by (auto simp: skips_def store_loop.simps [of _ _ "quote_str s @ _"] store_token_string)

lemma store_token_number: "num_ok n \<Longrightarrow> ends_number r \<Longrightarrow> store_token (n @ r) = Some (0, 0, r)"
proof (cases n)
  case (Cons c cs)
  assume n: "num_ok n" and r: "ends_number r"
  have "dropWhile in_number (cs @ r) = r"
    using n r Cons by (cases r) (auto simp: num_ok_def ends_number_def list_all_iff dropWhile_append)
  moreover have "c \<noteq> ch CHR ''['' \<and> c \<noteq> ch CHR ''{'' \<and> c \<noteq> ch CHR '']'' \<and> c \<noteq> ch CHR ''}'' \<and> c \<noteq> ch CHR 0x22"
    using n Cons by (auto simp: num_ok_def is_digit_char_def)
  ultimately show ?thesis using n Cons by (auto simp: store_token_def num_ok_def)
qed (simp add: num_ok_def)

lemma skips_number: "num_ok n \<Longrightarrow> skips n"
  by (auto simp: skips_def store_loop.simps [of _ _ "n @ _"] store_token_number)

lemma skips_commas:
  assumes "\<forall>p \<in> set ps. skips_inside p"
  shows "skips_inside (commas ps)"
  unfolding skips_inside_def
proof (intro allI impI)
  fix b k :: int and r assume d: "0 \<le> b" "0 \<le> k" "b \<noteq> 0 \<or> k \<noteq> 0" "ends_number r"
  show "store_loop b k (commas ps @ r) = store_loop b k r"
    using assms d by (induction ps rule: commas.induct) (auto simp: skips_inside_def json_separators)
qed

lemma skips_brackets:
  assumes "skips_inside p"
  shows "skips (ch CHR ''['' # p @ [ch CHR '']''])" "skips (ch CHR ''{'' # p @ [ch CHR ''}''])"
proof -
  have "store_loop b k (ch CHR ''['' # p @ ch CHR '']'' # r) = (if b = 0 \<and> k = 0 then Some r else store_loop b k r)"
    if "0 \<le> b" "0 \<le> k" for b k r
  proof -
    have "store_loop b k (ch CHR ''['' # p @ ch CHR '']'' # r) = store_loop b (k + 1) (p @ ch CHR '']'' # r)"
      using that by (simp add: store_loop.simps [of b k] store_token_def)
    also have "\<dots> = store_loop b (k + 1) (ch CHR '']'' # r)"
      using assms that by (simp add: skips_inside_def json_separators)
    also have "\<dots> = (if b = 0 \<and> k = 0 then Some r else store_loop b k r)"
      by (simp add: store_loop.simps [of b "k + 1"] store_token_def)
    finally show ?thesis .
  qed
  then show "skips (ch CHR ''['' # p @ [ch CHR '']''])" by (simp add: skips_def)
  have "store_loop b k (ch CHR ''{'' # p @ ch CHR ''}'' # r) = (if b = 0 \<and> k = 0 then Some r else store_loop b k r)"
    if "0 \<le> b" "0 \<le> k" for b k r
  proof -
    have "store_loop b k (ch CHR ''{'' # p @ ch CHR ''}'' # r) = store_loop (b + 1) k (p @ ch CHR ''}'' # r)"
      using that by (simp add: store_loop.simps [of b k] store_token_def)
    also have "\<dots> = store_loop (b + 1) k (ch CHR ''}'' # r)"
      using assms that by (simp add: skips_inside_def json_separators)
    also have "\<dots> = (if b = 0 \<and> k = 0 then Some r else store_loop b k r)"
      by (simp add: store_loop.simps [of "b + 1" k] store_token_def)
    finally show ?thesis .
  qed
  then show "skips (ch CHR ''{'' # p @ [ch CHR ''}''])" by (simp add: skips_def)
qed

lemma skips_member:
  assumes "str_ok k" "skips p"
  shows "skips_inside (quote_str k @ ch CHR '':'' # p)"
  using skips_inside [OF skips_string [OF assms(1)]] skips_inside [OF assms(2)]
  by (simp add: skips_inside_def json_separators)

lemma skips_jprint: "jvalue_ok v \<Longrightarrow> skips (jprint v)"
proof (induction v)
  case (JArr vs)
  then have "skips_inside (commas (map jprint vs))" by (intro skips_commas) (auto simp: list_all_iff skips_inside)
  then show ?case using skips_brackets(1) by simp
next
  case (JObj ms)
  have "skips_inside (quote_str k @ ch CHR '':'' # jprint v)" if "(k, v) \<in> set ms" for k v
    using JObj that by (intro skips_member) (auto simp: list_all_iff)
  then have "skips_inside (commas (map (\<lambda>(k, v). quote_str k @ ch CHR '':'' # jprint v) ms))" by (intro skips_commas) auto
  then show ?case using skips_brackets(2) by simp
qed (simp_all add: skips_number skips_string)

lemma jprint_start:
  assumes "jvalue_ok v"
  shows "jprint v \<noteq> []" "\<not> json_space (cstr_hd (jprint v @ r))" "cstr_hd (jprint v @ r) \<notin> {ch CHR '']'', ch CHR ''}'', ch CHR '',''}"
    "cstr_hd (jprint v @ r) = ch CHR 0x22 \<longleftrightarrow> (\<exists>s. v = JStr s)"
proof -
  have "\<exists>c cs. jprint v = c # cs \<and> \<not> json_space c \<and> c \<notin> {ch CHR '']'', ch CHR ''}'', ch CHR '',''} \<and> (c = ch CHR 0x22 \<longleftrightarrow> (\<exists>s. v = JStr s))"
  proof (cases v)
    case (JNum n)
    then obtain c cs where "n = c # cs" "is_digit_char c \<or> c = ch CHR ''-'' \<or> c = ch CHR ''.''"
      using assms by (cases n) (auto simp: num_ok_def)
    moreover from this have "\<not> c \<le> ch CHR '' ''" by (auto simp: is_digit_char_def word_le_nat_alt)
    ultimately show ?thesis using JNum by (auto simp: is_digit_char_def json_space_def)
  qed (auto simp: quote_str_def json_space_def)
  then show "jprint v \<noteq> []" "\<not> json_space (cstr_hd (jprint v @ r))" "cstr_hd (jprint v @ r) \<notin> {ch CHR '']'', ch CHR ''}'', ch CHR '',''}"
    "cstr_hd (jprint v @ r) = ch CHR 0x22 \<longleftrightarrow> (\<exists>s. v = JStr s)" by auto
qed

definition jcontent :: "jvalue \<Rightarrow> bytes" where
  "jcontent v = (case v of JStr s \<Rightarrow> s | _ \<Rightarrow> jprint v)"

lemma storeobject_jprint:
  assumes "jvalue_ok v" "ends_number r"
  shows "storeobject (jprint v @ r) = (True, Some (jcontent v), r)"
proof -
  note st = jprint_start [OF assms(1)]
  have "dropWhile json_space (jprint v @ r) = jprint v @ r" using st(1,2) by (cases "jprint v") auto
  moreover have "store_loop 0 0 (jprint v @ r) = Some r" using skips_jprint [OF assms(1)] assms(2) by (simp add: skips_def)
  moreover have "(if cstr_hd (jprint v @ r) = ch CHR 0x22 then butlast (tl (jprint v)) else jprint v) = jcontent v"
    unfolding st(4) by (cases v) (auto simp: jcontent_def quote_str_def)
  ultimately show ?thesis using st(3) unfolding storeobject_def Let_def by (auto split: if_splits)
qed

section \<open>Escaping is undone\<close>

text \<open>
  What is used of \<^verbatim>\<open>utf8proc_iterate\<close>: a character of one byte is that byte and below 128, the bytes of
  longer characters and of those refused are 128 or rest.
\<close>

definition utf8_iterate :: "(bytes \<Rightarrow> int \<times> int) \<Rightarrow> bool" where
  "utf8_iterate iterate \<longleftrightarrow> (\<forall>s. s \<noteq> [] \<longrightarrow> (case iterate s of (n, codepoint) \<Rightarrow>
     n \<le> int (length s) \<and> (n \<le> 0 \<longrightarrow> 128 \<le> hd s) \<and> (n = 1 \<longrightarrow> hd s < 128 \<and> codepoint = uint (hd s)) \<and>
     (1 < n \<longrightarrow> (\<forall>c \<in> set (take (nat n) s). 128 \<le> c))))"

lemma unescape_plain: "c \<noteq> ch CHR 0x5C \<Longrightarrow> unescape (c # s) = c # unescape s"
  by (cases s) (simp_all add: unescape.simps [of "c # _"] unescape.simps [of "[]"])

lemma unescape_plains: "ch CHR 0x5C \<notin> set p \<Longrightarrow> unescape (p @ s) = p @ unescape s"
  by (induction p) (auto simp: unescape_plain)

lemma ishex_eq: "ishex = ishexdigit"
  by (auto simp: fun_eq_iff ishex_def ishexdigit_def is_digit_char_def)

lemma hex_digit: "ishex (lchex (take_bit 4 c)) \<and> hexval (lchex (take_bit 4 c)) = take_bit 4 c"
  using hexval_lchex by (simp add: ishex_eq)

lemma unescape_one_control:
  fixes c :: byte
  assumes "c < 32"
  shows "unescape_one (ch CHR ''u'' # ch CHR ''0'' # ch CHR ''0'' # lchex (drop_bit 4 c) # lchex (c AND 0xf) # s) = ([c], 5)"
proof -
  have h: "drop_bit 4 c = take_bit 4 (drop_bit 4 c)" by (rule bit_word_eqI) (auto simp: bit_simps dest: bit_imp_le_length)
  have l: "c AND 0xf = take_bit 4 c" by (simp add: take_bit_eq_mask mask_eq_exp_minus_1)
  have d: "ishex (lchex (drop_bit 4 c))" "hexval (lchex (drop_bit 4 c)) = drop_bit 4 c" "ishex (lchex (c AND 0xf))" "hexval (lchex (c AND 0xf)) = take_bit 4 c"
    using hex_digit [of "drop_bit 4 c"] hex_digit [of c] h l by simp_all
  have z: "ishex (ch CHR ''0'')" "hexval (ch CHR ''0'') = 0" by (simp_all add: ishex_def is_digit_char_def hexval_def)
  have "push_bit 4 (ucast (drop_bit 4 c)) OR ucast (take_bit 4 c) = (ucast c :: u32)"
    by (rule bit_word_eqI) (auto simp: bit_simps)
  moreover have "(ucast c :: u32) < 0x80" using assms by (simp add: word_less_nat_alt unsigned_ucast_eq take_bit_eq_mod)
  moreover have "ucast (ucast c :: u32) = c" by (rule bit_word_eqI) (auto simp: bit_simps)
  ultimately show ?thesis using d z
    by (simp add: unescape_one_def Let_def hex4_def utf8encode_def nth_Cons' del: of_char_eq_iff)
qed

lemma unescape_sequence:
  "unescape (ch CHR 0x5C # t # ts) = fst (unescape_one (t # ts)) @ unescape (drop (snd (unescape_one (t # ts))) (t # ts))"
  by (simp add: unescape.simps [of "_ # t # ts"] split: prod.splits)

lemmas unescape_sequence_byte = unescape_sequence [simplified]

lemma unescape_escape_short:
  "c \<in> {0x22, 0x5C, 8, 12, 10, 13, 9} \<Longrightarrow> unescape (escape_char (uint c) c @ s) = c # unescape s"
  by (elim insertE emptyE) (simp_all add: escape_char_def unescape_sequence_byte unescape_one_def)

lemma unescape_escape_char:
  fixes c :: byte
  assumes "c < 128"
  shows "unescape (escape_char (uint c) c @ s) = c # unescape s"
proof (cases "c \<in> {0x22, 0x5C, 8, 12, 10, 13, 9}")
  case short: False
  show ?thesis
  proof (cases "c < 32")
    case True
    then have "escape_char (uint c) c = ch CHR 0x5C # ch CHR ''u'' # ch CHR ''0'' # ch CHR ''0'' # [lchex (drop_bit 4 c), lchex (c AND 0xf)]"
      using short by (simp add: escape_char_def word_less_def word_uint_eq_iff)
    then show ?thesis
      using unescape_sequence [of "ch CHR ''u''" "ch CHR ''0'' # ch CHR ''0'' # lchex (drop_bit 4 c) # lchex (c AND 0xf) # s"]
      unfolding unescape_one_control [OF True] by simp
  next
    case False
    then have "escape_char (uint c) c = [c]" using short by (simp add: escape_char_def word_less_def word_uint_eq_iff)
    then show ?thesis using short by (simp add: unescape_plain)
  qed
qed (rule unescape_escape_short)

section \<open>Reading what was written\<close>

definition separator :: "json_writer \<Rightarrow> bytes" where
  "separator w = (if mJson w \<noteq> [] \<and> last (mJson w) \<notin> {ch CHR ''['', ch CHR ''{'', 0} then [ch CHR '',''] else [])"

lemma mJson_arg:
  "mJson (arg name v q w) = mJson w @ separator w @ named name @ (if q then quote_str (c_str v) else c_str v)"
  by (simp add: arg_def addcomma_def append_raw_def separator_def quote_str_def)

definition plain :: "bytes \<Rightarrow> bool" where
  "plain s \<longleftrightarrow> list_all (\<lambda>c. c \<noteq> 0 \<and> c \<noteq> ch CHR 0x22 \<and> c \<noteq> ch CHR 0x5C) s"

lemma plain_btoa: "plain (btoa d)"
  using btoa_issafe [of _ d] by (fastforce simp: plain_def list_all_iff issafe_def ishexdigit_def)

lemma c_str_plain: "plain s \<Longrightarrow> c_str s = s"
  by (simp add: plain_def c_str_def list_all_iff takeWhile_eq_all_conv)

lemma quoted_plain: "plain s \<Longrightarrow> quoted (s @ ch CHR 0x22 # r) = s"
  by (induction s) (simp_all add: plain_def quoted_def)

lemma scan_plain: "plain s \<Longrightarrow> scan_string False (s @ [ch CHR 0x22]) = Some [ch CHR 0x22]"
  by (induction s) (simp_all add: plain_def)

lemma storeobject_plain: "plain s \<Longrightarrow> ends_number r \<Longrightarrow> storeobject (ch CHR 0x22 # s @ ch CHR 0x22 # r) = (True, Some s, r)"
  using storeobject_jprint [of "JStr s" r] scan_plain [of s] by (simp add: jcontent_def quote_str_def str_ok_def)

lemma nameid_of_plain:
  "plain name \<Longrightarrow> nameid_of i (name @ ch CHR 0x22 # r) = (fst (nameid_of i name), ch CHR 0x22 # r)"
  by (induction name arbitrary: i) (simp_all add: plain_def)

lemma getnameid_named:
  assumes "plain name" "r \<noteq> []" "hd r \<notin> {ch CHR '','', ch CHR '']'', ch CHR ''}'', ch CHR ''n''}" "pre = [] \<or> pre = [ch CHR '','']"
  shows "getnameid (pre @ named name @ r) = (fst (nameid_of 0 name), r)"
proof -
  have "read_nameid (pre @ named name @ r) = (fst (nameid_of 0 name), r)"
    using nameid_of_plain [OF assms(1), of 0 "ch CHR '':'' # r"] c_str_plain [OF assms(1)] assms(4)
    by (auto simp: read_nameid_def after_separator_def named_def)
  moreover have "skipnullvalue r = (False, r)" using assms(2,3) by (cases r) (simp_all add: skipnullvalue_def)
  ultimately show ?thesis by (simp add: getnameid_def getNameidSkipNull.simps)
qed

lemma from64_quote: "from64 (ch CHR 0x22) = 255"
  by (simp add: from64_def)

lemma storebinary_string_btoa:
  assumes "ends_number r"
  shows "storebinary_string (quote_str (btoa d) @ r) = (True, Some d, r)"
proof -
  have "int (length d) \<le> int (length (btoa d) div 4 * 3 + 3)" unfolding length_btoa by presburger
  then have "atob (btoa d @ ch CHR 0x22 # r) (int (length (btoa d) div 4 * 3 + 3)) = d"
    by (rule atob_btoa) (simp only: cstr_hd_simps from64_quote)
  then show ?thesis
    using quoted_plain [OF plain_btoa, of d r] storeobject_plain [OF plain_btoa assms, of d]
    by (simp add: storebinary_string_def after_comma_def quote_str_def)
qed

lemma gethandle_btoa:
  assumes "ends_number r" "len \<le> 8"
  shows "gethandle (int len) (quote_str (btoa (le_bytes len h)) @ r) = (take_bit (8 * len) h, r)"
proof -
  have "atob (btoa (le_bytes len h) @ ch CHR 0x22 # r) 9 = le_bytes len h"
    by (rule atob_btoa) (use assms(2) from64_quote in simp_all)
  then show ?thesis
    using storeobject_plain [OF plain_btoa assms(1), of "le_bytes len h"] assms(2)
    by (simp add: gethandle_def storebinary_def after_comma_def quote_str_def le_word_le_bytes)
qed

lemma digit_char: "n < 10 \<Longrightarrow> is_digit_char (of_nat (48 + n)) \<and> uint (of_nat (48 + n) :: byte) = 48 + int n"
  by (simp add: is_digit_char_def word_le_nat_alt unsigned_of_nat unsigned_of_int take_bit_eq_mod uint_nat del: of_nat_add)

lemma decimal_digits_all: "list_all is_digit_char (decimal_digits n) \<and> decimal_digits n \<noteq> []"
proof (induction n rule: decimal_digits.induct)
  case (1 n)
  then show ?case using digit_char [of n] digit_char [of "n mod 10"] by (subst (1 2) decimal_digits.simps) (simp del: of_nat_add)
qed

lemma digits_value_append:
  "list_all is_digit_char ds \<Longrightarrow> digits_value m (ds @ r) = digits_value (digits_value m ds) r"
  by (induction ds arbitrary: m) simp_all

lemma digits_value_decimal: "digits_value 0 (decimal_digits n) = int n"
proof (induction n rule: decimal_digits.induct)
  case (1 n)
  show ?case
  proof (cases "n < 10")
    case True
    then show ?thesis using digit_char [of n] by (simp add: decimal_digits.simps del: of_nat_add)
  next
    case False
    then show ?thesis using 1 digit_char [of "n mod 10"] decimal_digits_all [of "n div 10"]
      by (subst decimal_digits.simps) (simp add: digits_value_append del: of_nat_add, presburger)
  qed
qed

lemma plain_decimal: "plain (decimal n)"
  using decimal_digits_all
  by (force simp: decimal_def plain_def list_all_iff is_digit_char_def)

lemma atoll_decimal:
  assumes "ends_number r"
  shows "atoll (decimal n @ r) = n"
proof -
  have r: "digits_value m r = m" for m
    using assms by (cases r) (auto simp: ends_number_def in_number_def)
  have d: "digits_value 0 (decimal_digits k @ r) = int k" for k
    using decimal_digits_all [of k] by (simp add: digits_value_append digits_value_decimal r)
  have "cstr_hd (decimal_digits k @ r) \<noteq> ch CHR ''-''" for k
    using decimal_digits_all [of k] by (cases "decimal_digits k") (auto simp: is_digit_char_def)
  then show ?thesis using d by (simp add: atoll_def decimal_def)
qed

lemma decimal_start: "decimal n \<noteq> [] \<and> (is_digit_char (hd (decimal n)) \<or> hd (decimal n) = ch CHR ''-'')"
  using decimal_digits_all [of "nat n"] by (cases "decimal_digits (nat n)") (auto simp: decimal_def)

lemma num_ok_decimal: "num_ok (decimal n)"
proof -
  have "list_all in_number (tl (decimal_digits k))" "list_all in_number (decimal_digits k)" for k
    using decimal_digits_all [of k] by (cases "decimal_digits k"; auto simp: list_all_iff in_number_def)+
  then show ?thesis using decimal_start [of n] by (auto simp: num_ok_def decimal_def split: if_splits)
qed

lemma getint_decimal:
  assumes "ends_number r"
  shows "getint (decimal n @ r) = (n, r)"
proof -
  have st: "storeobject (decimal n @ r) = (True, Some (decimal n), r)"
    using storeobject_jprint [of "JNum (decimal n)" r] num_ok_decimal [of n] assms by (simp add: jcontent_def)
  obtain c cs where c: "decimal n = c # cs" "is_digit_char c \<or> c = ch CHR ''-''"
    using decimal_start [of n] by (cases "decimal n") auto
  then have "after_separator (decimal n @ r) = decimal n @ r" "cstr_hd (decimal n @ r) = c" "c \<noteq> ch CHR 0x22"
    by (auto simp: after_separator_def is_digit_char_def)
  then show ?thesis using c(2) st atoll_decimal [OF assms, of n] by (auto simp: getint_def Let_def)
qed

text \<open>The text an operation of the writer adds, and a name with its value as the reader gets them.\<close>

definition written :: "(json_writer \<Rightarrow> json_writer) \<Rightarrow> json_writer \<Rightarrow> bytes" where
  "written f w = drop (length (mJson w)) (mJson (f w))"

definition read_member :: "(bytes \<Rightarrow> 'a) \<Rightarrow> bytes \<Rightarrow> u64 \<times> 'a" where
  "read_member get pos = (case getnameid pos of (i, v) \<Rightarrow> (i, get v))"

lemma read_member_arg:
  assumes "plain name" "plain v" "q \<or> v \<noteq> [] \<and> hd v \<notin> {ch CHR '','', ch CHR '']'', ch CHR ''}'', ch CHR ''n''}"
  shows "read_member get (written (arg name v q) w @ r) = (fst (nameid_of 0 name), get ((if q then quote_str v else v) @ r))"
proof -
  have "(if q then quote_str v else v) @ r \<noteq> []" "hd ((if q then quote_str v else v) @ r) \<notin> {ch CHR '','', ch CHR '']'', ch CHR ''}'', ch CHR ''n''}"
    using assms(3) by (auto simp: quote_str_def)
  from getnameid_named [OF assms(1) this, of "separator w"] show ?thesis
    by (simp add: read_member_def written_def mJson_arg c_str_plain [OF assms(2)] cong: if_cong split del: if_split) (simp add: separator_def)
qed

section \<open>Properties\<close>

lemma storeobject_lead:
  assumes "list_all json_space w"
  shows "storeobject (w @ r) = storeobject r"
  using assms by (induction w) (simp_all add: storeobject_def)

lemma storeobject_comma:
  assumes "jvalue_ok v"
  shows "storeobject (ch CHR '','' # jprint v @ r) = storeobject (jprint v @ r)"
proof -
  have "dropWhile json_space (jprint v @ r) = jprint v @ r" using jprint_start(1,2) [OF assms] by (cases "jprint v") auto
  moreover have "\<not> json_space (ch CHR '','')" by (simp add: json_space_def)
  ultimately show ?thesis using jprint_start(3) [OF assms] by (simp add: storeobject_def)
qed

text \<open>
  C32: skipping a value consumes exactly that value.  Before any well-formed text, however deep its arrays and objects
  are nested and whatever its strings hold, after white space and with or without the comma that separates
  it from the value before, \<^verbatim>\<open>storeobject\<close> stores the value, a string without its quotes, and stops at the first
  character after it.
\<close>

theorem storeobject_one_value:
  assumes "jvalue_ok v" "ends_number r" "list_all json_space w"
  shows "storeobject (w @ jprint v @ r) = (True, Some (jcontent v), r) \<and>
    storeobject (w @ ch CHR '','' # jprint v @ r) = (True, Some (jcontent v), r)"
  using storeobject_jprint [OF assms(1,2)] by (simp only: storeobject_lead [OF assms(3)] storeobject_comma [OF assms(1)] simp_thms)

definition sample_value :: jvalue where
  "sample_value = JObj [(asc ''a'', JArr [JNum (asc ''-12''), JStr (asc [CHR ''}'', CHR 0x5C, CHR 0x22])]), (asc ''b'', JObj [])]"

lemma sample_value_ok: "jvalue_ok sample_value"
  by (simp add: sample_value_def str_ok_def num_ok_def in_number_def is_digit_char_def)

theorem storeobject_one_value_witness:
  "storeobject ([32] @ jprint sample_value @ asc ''}'') = (True, Some (jcontent sample_value), asc ''}'') \<and>
    storeobject ([32] @ ch CHR '','' # jprint sample_value @ asc ''}'') = (True, Some (jcontent sample_value), asc ''}'')"
  by (rule storeobject_one_value [OF sample_value_ok]) (simp_all add: ends_number_def in_number_def is_digit_char_def json_space_def)

text \<open>
  Escaping a string for a JSON text loses nothing.  Whatever the bytes, control characters, quotes, backslashes and sequences
  that are not UTF-8 included, \<^verbatim>\<open>unescape\<close> of what \<^verbatim>\<open>escape\<close> wrote is the string.
\<close>

theorem escape_roundtrip:
  assumes "utf8_iterate iterate"
  shows "unescape (escape iterate s) = s"
proof (induction s rule: length_induct)
  case (1 s)
  show ?case
  proof (cases s)
    case Nil
    then show ?thesis by (simp add: escape.simps unescape.simps)
  next
    case (Cons c t)
    obtain n cp where it: "iterate s = (n, cp)" by fastforce
    have law: "n \<le> int (length s)" "n \<le> 0 \<Longrightarrow> 128 \<le> c" "n = 1 \<Longrightarrow> c < 128 \<and> cp = uint c" "1 < n \<Longrightarrow> \<forall>b \<in> set (take (nat n) s). 128 \<le> b"
      using assms [unfolded utf8_iterate_def, rule_format, of s] Cons it by auto
    have big: "b \<noteq> ch CHR 0x5C" if "128 \<le> b" for b :: byte using that by auto
    consider "n \<le> 0" | "n = 1" | "1 < n" by linarith
    then show ?thesis
    proof cases
      case 1
      then show ?thesis using "1.IH" Cons it unescape_plain [OF big [OF law(2)]] by (simp add: escape.simps [of _ "c # t"])
    next
      case 2
      then show ?thesis using "1.IH" Cons it law(3) by (simp add: escape.simps [of _ "c # t"] unescape_escape_char)
    next
      case 3
      then have "unescape (escape iterate s) = take (nat n) s @ unescape (escape iterate (drop (nat n) s))"
        using Cons it law(4) by (simp add: escape.simps [of _ "c # t"]) (intro unescape_plains, auto dest: big)
      also have "unescape (escape iterate (drop (nat n) s)) = drop (nat n) s"
        using "1.IH" 3 Cons by (metis diff_less length_drop length_greater_0_conv list.distinct(1) zero_less_nat_eq less_trans zero_less_one)
      finally show ?thesis by simp
    qed
  qed
qed

definition ascii_iterate :: "bytes \<Rightarrow> int \<times> int" where
  "ascii_iterate s = (if s \<noteq> [] \<and> hd s < 128 then (1, uint (hd s)) else (- 1, - 1))"

lemma ascii_iterate_law: "utf8_iterate ascii_iterate"
  by (auto simp: utf8_iterate_def ascii_iterate_def neq_Nil_conv)

theorem escape_roundtrip_witness:
  "unescape (escape ascii_iterate (asc [CHR 0x22, CHR 0x01, CHR 0x5C, CHR ''n'', CHR 0xFF])) = asc [CHR 0x22, CHR 0x01, CHR 0x5C, CHR ''n'', CHR 0xFF]"
  by (rule escape_roundtrip [OF ascii_iterate_law])

text \<open>
  C33: an argument written into a command is read back by the reader.  Wherever in the text it is written, a binary argument
  is returned by \<^verbatim>\<open>getnameid\<close> and \<^verbatim>\<open>storebinary\<close>, a handle by \<^verbatim>\<open>gethandle\<close>, up to the bytes it was
  written with, and an integer by \<^verbatim>\<open>getint\<close>, with the reader left exactly after it.
\<close>

theorem argument_roundtrip:
  assumes "plain name" "ends_number r" "len \<le> 8"
  shows "read_member storebinary_string (written (arg_B64 name d) w @ r) = (fst (nameid_of 0 name), True, Some d, r)
    \<and> read_member (gethandle (int len)) (written (arg_handle name h len) w @ r) = (fst (nameid_of 0 name), take_bit (8 * len) h, r)
    \<and> read_member getint (written (arg_int name n) w @ r) = (fst (nameid_of 0 name), n, r)"
proof -
  have "decimal n \<noteq> [] \<and> hd (decimal n) \<notin> {ch CHR '','', ch CHR '']'', ch CHR ''}'', ch CHR ''n''}"
    using decimal_start [of n] by (auto simp: is_digit_char_def)
  then show ?thesis using assms
    by (simp add: arg_B64_def arg_bytes_def arg_handle_def arg_int_def read_member_arg plain_btoa plain_decimal
        storebinary_string_btoa gethandle_btoa getint_decimal del: of_char_eq_iff)
qed

theorem argument_roundtrip_witness:
  "let w = beginobject new_writer in
   read_member storebinary_string (written (arg_B64 (asc ''k'') [1, 2]) w @ asc ''}'') = (0x6B, True, Some [1, 2], asc ''}'')
    \<and> read_member (gethandle (int 6)) (written (arg_handle (asc ''k'') 0xABCD 6) w @ asc ''}'') = (0x6B, 0xABCD, asc ''}'')
    \<and> read_member getint (written (arg_int (asc ''k'') (- 20)) w @ asc ''}'') = (0x6B, - 20, asc ''}'')"
  using argument_roundtrip [of "asc ''k''" "asc ''}''" 6 "[1, 2]" "beginobject new_writer" "0xABCD" "- 20"]
  by (simp add: plain_def ends_number_def in_number_def is_digit_char_def Let_def)

end
