(* ===== verification/Mega_Request.thy ===== *)
theory Mega_Request
  imports Mega_Json Mega_Containers "HOL-Library.Sublist"
begin

text \<open>
  Batches of API commands: \<^verbatim>\<open>Request\<close> and \<^verbatim>\<open>RequestDispatcher\<close> of \<^verbatim>\<open>src/request.cpp\<close>, \<^verbatim>\<open>Command::checkError\<close> of
  \<^verbatim>\<open>src/command.cpp\<close>, and \<^verbatim>\<open>MegaClient::sc_checkSequenceTag\<close>, which ties the results of commands to the action
  packets of the server.  The client is a record with the dispatcher in it; the virtual functions of the commands
  (\<^verbatim>\<open>procresult\<close>, \<^verbatim>\<open>getJSON\<close>) are an argument, and what a \<^verbatim>\<open>procresult\<close> does to the state modelled here is the
  list of the calls it makes.  The build is one without \<^verbatim>\<open>DEBUG\<close> and \<^verbatim>\<open>MEGA_MEASURE_CODE\<close>; responses processed in
  chunks are not modelled.

  The lemmas: a batch's response is shared out to its commands in step, one value each; commands are handled
  in the order they were queued, once; a retry sends the same text under the same identifier; an error of the
  whole batch reaches every command.
\<close>

section \<open>Commands and the client\<close>

text \<open>\<^verbatim>\<open>Error\<close>: a code, and the states of the user and of a link, -1 when unknown.\<close>

record api_error =
  mError :: int
  mUserStatus :: int
  mLinkStatus :: int

definition new_error :: "int \<Rightarrow> api_error" where
  "new_error err = \<lparr>mError = err, mUserStatus = - 1, mLinkStatus = - 1\<rparr>"

abbreviation "API_OK \<equiv> 0 :: int"
abbreviation "API_EINTERNAL \<equiv> - 1 :: int"
abbreviation "API_EBUSINESSPASTDUE \<equiv> - 28 :: int"
abbreviation "API_EPAYWALL \<equiv> - 29 :: int"

datatype outcome = CmdError | CmdArray | CmdObject | CmdItem

type_synonym cmd_result = "outcome \<times> api_error"

text \<open>A command: its identity \<open>cmd_ref\<close>, and whether its class is \<^verbatim>\<open>CommandFetchNodes\<close>.\<close>

record command =
  cmd_ref :: nat
  cmd_tag :: int
  commandStr :: bytes
  batchSeparately :: bool
  mSeqtagArray :: bool
  fetchNodes :: bool

datatype retryreason = RETRY_NONE | RETRY_CONNECTIVITY | RETRY_SERVERS_BUSY | RETRY_API_LOCK | RETRY_RATE_LIMIT | RETRY_LOCAL_LOCK
  | RETRY_UNKNOWN

text \<open>A command is deleted, its place empty, as soon as its result is processed; \<open>json\<close> is the position in the response.\<close>

record request =
  cmds :: "command option list"
  jsonresponse :: bytes
  json :: "bytes option"
  processindex :: nat
  cachedJSON :: bytes
  cachedIdempotenceId :: bytes
  cachedCounts :: bytes
  stopProcessing :: bool

definition new_request :: request where
  "new_request = \<lparr>cmds = [], jsonresponse = [], json = None, processindex = 0, cachedJSON = [], cachedIdempotenceId = [],
     cachedCounts = [], stopProcessing = False\<rparr>"

record dispatcher =
  inflightreq :: request
  inflightFailReason :: retryreason
  nextreqs :: "request list"
  processing :: bool
  clearWhenSafe :: bool
  reqid :: bytes

text \<open>
  The client: the fields for sequence tags and whether \<^verbatim>\<open>scsn\<close> is set, whether \<^verbatim>\<open>mTctableRequestCommitter\<close> is set,
  and in \<open>rest\<close> everything else a command may change.  Four fields record what happened: the calls of \<^verbatim>\<open>procresult\<close>
  with their results, the commands queued, the sequence tags reported to the application, and whether every
  \<^verbatim>\<open>assert\<close> of \<^verbatim>\<open>src/request.cpp\<close> about the state of the requests has held.
\<close>

record 'w client =
  reqs :: dispatcher
  restag :: int
  mCurrentSeqtag :: bytes
  mPriorSeqTag :: bytes
  mCurrentSeqtagSeen :: bool
  mCurrentSeqtagCmdtag :: int
  mLastReceivedScSeqTag :: bytes
  mLargestEverSeenScSeqTag :: bytes
  scDbSeqTag :: bytes
  scsn_ready :: bool
  statecurrent :: bool
  mTctableRequestCommitter :: bool
  rest :: 'w
  handled :: "(command \<times> cmd_result) list"
  queued :: "command list"
  reported :: "bytes list"
  asserts :: bool

datatype client_call = AddCommand command | LocalLogout | SetScsn

record 'w handlers =
  procresult :: "command \<Rightarrow> cmd_result \<Rightarrow> bytes \<Rightarrow> 'w \<Rightarrow> bool \<times> bytes \<times> 'w \<times> client_call list"
  getJSON :: "'w \<Rightarrow> command \<Rightarrow> bytes"
  activateoverquota :: "'w \<Rightarrow> 'w"
  businessExpired :: "'w \<Rightarrow> 'w"

section \<open>Requests\<close>

definition isFetchNodes :: "request \<Rightarrow> bool" where
  "isFetchNodes r \<longleftrightarrow> length (cmds r) = 1 \<and> (case last (cmds r) of None \<Rightarrow> False | Some c \<Rightarrow> fetchNodes c)"

definition req_add :: "command \<Rightarrow> request \<Rightarrow> request" where
  "req_add c r = r\<lparr>cmds := cmds r @ [Some c]\<rparr>"

definition req_size :: "request \<Rightarrow> nat" where
  "req_size r = length (cmds r)"

definition req_empty :: "request \<Rightarrow> bool" where
  "req_empty r \<longleftrightarrow> cmds r = []"

text \<open>The request identifier counts up in letters, from the last one.\<close>

fun inc_reversed :: "bytes \<Rightarrow> bytes" where
  "inc_reversed [] = []"
| "inc_reversed (c # cs) = (if c <s ch CHR ''z'' then (c + 1) # cs else ch CHR ''a'' # inc_reversed cs)"

definition inc_reqid :: "bytes \<Rightarrow> bytes" where
  "inc_reqid s = rev (inc_reversed (rev s))"

definition batch_text :: "(command \<Rightarrow> bytes) \<Rightarrow> command list \<Rightarrow> bytes" where
  "batch_text text cs = ch CHR ''['' # commas (map (\<lambda>c. ch CHR ''{'' # c_str (text c) @ [ch CHR ''}'']) cs) @ [ch CHR '']'']"

definition count_text :: "bytes \<Rightarrow> command list \<Rightarrow> bytes" where
  "count_text t0 cs =
    (let counts = foldl (\<lambda>m c. map_update (commandStr c) 0 (\<lambda>n. n + 1) m) [] cs
     in foldl (\<lambda>t (s, n). (if t \<noteq> [] then t @ asc '' '' else t) @ s @ asc '':'' @ decimal n) t0 counts)"

definition req_get :: "(command \<Rightarrow> bytes) \<Rightarrow> bytes \<Rightarrow> request \<Rightarrow> (bytes \<times> bytes) \<times> bytes \<times> request" where
  "req_get text counter r =
    (if cachedJSON r = [] then
       let cs = map the (cmds r); counter' = inc_reqid counter;
           r' = r\<lparr>cachedJSON := batch_text text cs, cachedCounts := count_text (cachedCounts r) cs, cachedIdempotenceId := counter'\<rparr>
       in ((cachedJSON r', cachedIdempotenceId r'), counter', r')
     else ((cachedJSON r, cachedIdempotenceId r), counter, r))"

definition getCurrentCommand :: "request \<Rightarrow> command option" where
  "getCurrentCommand r = cmds r ! processindex r"

definition req_serverresponse :: "bytes \<Rightarrow> request \<Rightarrow> request" where
  "req_serverresponse s r = r\<lparr>jsonresponse := s, json := Some (snd (enterarray (c_str s)))\<rparr>"

definition req_servererror :: "bytes \<Rightarrow> request \<Rightarrow> request" where
  "req_servererror e r = req_serverresponse (ch CHR ''['' # commas (replicate (length (cmds r)) e) @ [ch CHR '']'']) r"

definition req_clear :: "request \<Rightarrow> request" where
  "req_clear r = r\<lparr>cmds := [], jsonresponse := [], json := None, processindex := 0, stopProcessing := False\<rparr>"

definition req_swap :: "request \<Rightarrow> request \<Rightarrow> request \<times> request" where
  "req_swap a b =
    (a\<lparr>cmds := cmds b, cachedJSON := cachedJSON b, cachedIdempotenceId := cachedIdempotenceId b, cachedCounts := cachedCounts b\<rparr>,
     b\<lparr>cmds := cmds a, cachedJSON := cachedJSON a, cachedIdempotenceId := cachedIdempotenceId a, cachedCounts := cachedCounts a\<rparr>)"

section \<open>The dispatcher's queue\<close>

definition MAX_COMMANDS :: nat where
  "MAX_COMMANDS = 10000"

text \<open>\<open>id\<close> is the random identifier \<^verbatim>\<open>resetId\<close> draws.\<close>

definition new_dispatcher :: "bytes \<Rightarrow> dispatcher" where
  "new_dispatcher i = \<lparr>inflightreq = new_request, inflightFailReason = RETRY_NONE, nextreqs = [new_request],
     processing = False, clearWhenSafe = False, reqid = i\<rparr>"

definition push_request :: "dispatcher \<Rightarrow> dispatcher" where
  "push_request d = d\<lparr>nextreqs := nextreqs d @ [new_request]\<rparr>"

definition on_back :: "(request \<Rightarrow> request) \<Rightarrow> dispatcher \<Rightarrow> dispatcher" where
  "on_back f d = d\<lparr>nextreqs := butlast (nextreqs d) @ [f (last (nextreqs d))]\<rparr>"

definition make_room :: "command \<Rightarrow> dispatcher \<Rightarrow> dispatcher" where
  "make_room c d =
    (let d1 = (if req_size (last (nextreqs d)) \<ge> MAX_COMMANDS then push_request d else d)
     in if batchSeparately c \<and> \<not> req_empty (last (nextreqs d1)) then push_request d1 else d1)"

definition disp_add :: "command \<Rightarrow> dispatcher \<Rightarrow> dispatcher" where
  "disp_add c d =
    (let d' = on_back (req_add c) (make_room c d) in if batchSeparately c then push_request d' else d')"

definition readyToSend :: "dispatcher \<Rightarrow> bool" where
  "readyToSend d \<longleftrightarrow>
    (if \<not> req_empty (inflightreq d) then inflightFailReason d \<noteq> RETRY_NONE
     else nextreqs d \<noteq> [] \<and> \<not> req_empty (hd (nextreqs d)))"

definition cmdsInflight :: "dispatcher \<Rightarrow> bool" where
  "cmdsInflight d \<longleftrightarrow> \<not> req_empty (inflightreq d) \<and> inflightFailReason d \<noteq> RETRY_API_LOCK \<and> inflightFailReason d \<noteq> RETRY_RATE_LIMIT"

definition retryReasonIsApi :: "dispatcher \<Rightarrow> bool" where
  "retryReasonIsApi d \<longleftrightarrow> \<not> req_empty (inflightreq d) \<and> (inflightFailReason d = RETRY_API_LOCK \<or> inflightFailReason d = RETRY_RATE_LIMIT)"

definition disp_getCurrentCommand :: "bool \<Rightarrow> dispatcher \<Rightarrow> command option" where
  "disp_getCurrentCommand currSeqtagSeen d = (if currSeqtagSeen then getCurrentCommand (inflightreq d) else None)"

definition serverrequest :: "(command \<Rightarrow> bytes) \<Rightarrow> dispatcher \<Rightarrow> (bytes \<times> bytes \<times> bool) \<times> dispatcher" where
  "serverrequest text d =
    (let d1 = (if \<not> req_empty (inflightreq d) \<and> inflightFailReason d \<noteq> RETRY_NONE then d
               else let (r, _) = req_swap (inflightreq d) (hd (nextreqs d)); d' = d\<lparr>inflightreq := r, nextreqs := tl (nextreqs d)\<rparr>
                    in if nextreqs d' = [] then push_request d' else d');
         ((requestJSON, idempotenceId), reqid', r') = req_get text (reqid d1) (inflightreq d1)
     in ((requestJSON, idempotenceId, isFetchNodes r'), d1\<lparr>inflightreq := r', reqid := reqid', inflightFailReason := RETRY_NONE\<rparr>))"

definition inflightFailure :: "retryreason \<Rightarrow> dispatcher \<Rightarrow> dispatcher" where
  "inflightFailure reason d = d\<lparr>inflightFailReason := reason\<rparr>"

definition disp_clear :: "dispatcher \<Rightarrow> dispatcher" where
  "disp_clear d =
    (if processing d then d\<lparr>clearWhenSafe := True, inflightreq := (inflightreq d)\<lparr>stopProcessing := True\<rparr>\<rparr>
     else d\<lparr>inflightreq := req_clear (inflightreq d), inflightFailReason := RETRY_NONE, nextreqs := [new_request],
            processing := False, clearWhenSafe := False\<rparr>)"

section \<open>Processing a response\<close>

definition on_reqs :: "(dispatcher \<Rightarrow> dispatcher) \<Rightarrow> 'w client \<Rightarrow> 'w client" where
  "on_reqs f cl = cl\<lparr>reqs := f (reqs cl)\<rparr>"

definition on_inflight :: "(request \<Rightarrow> request) \<Rightarrow> 'w client \<Rightarrow> 'w client" where
  "on_inflight f = on_reqs (\<lambda>d. d\<lparr>inflightreq := f (inflightreq d)\<rparr>)"

definition check_assert :: "bool \<Rightarrow> 'w client \<Rightarrow> 'w client" where
  "check_assert b cl = cl\<lparr>asserts := asserts cl \<and> b\<rparr>"

definition add_command :: "command \<Rightarrow> 'w client \<Rightarrow> 'w client" where
  "add_command c cl =
    (on_reqs (disp_add c) (check_assert (cachedJSON (last (nextreqs (make_room c (reqs cl)))) = []) cl))\<lparr>queued := queued cl @ [c]\<rparr>"

text \<open>The part of \<^verbatim>\<open>MegaClient::init\<close> on sequence tags.\<close>

definition init_seqtags :: "'w client \<Rightarrow> 'w client" where
  "init_seqtags cl = cl\<lparr>scsn_ready := False, mCurrentSeqtag := [], mPriorSeqTag := [], mCurrentSeqtagSeen := False,
     mCurrentSeqtagCmdtag := 0, scDbSeqTag := [], mLastReceivedScSeqTag := []\<rparr>"

text \<open>The part of \<^verbatim>\<open>MegaClient::locallogout\<close> on requests and sequence tags.\<close>

definition locallogout :: "'w client \<Rightarrow> 'w client" where
  "locallogout cl = init_seqtags ((on_reqs disp_clear cl)\<lparr>mLargestEverSeenScSeqTag := []\<rparr>)"

fun client_do :: "client_call \<Rightarrow> 'w client \<Rightarrow> 'w client" where
  "client_do (AddCommand c) cl = add_command c cl"
| "client_do LocalLogout cl = locallogout cl"
| "client_do SetScsn cl = cl\<lparr>scsn_ready := True\<rparr>"

definition call_procresult :: "'w handlers \<Rightarrow> command \<Rightarrow> cmd_result \<Rightarrow> bytes \<Rightarrow> 'w client \<Rightarrow> bool \<times> bytes \<times> 'w client" where
  "call_procresult h c res pos cl =
    (case procresult h c res pos (rest cl) of (ok, pos', w, calls) \<Rightarrow>
       (ok, pos', fold client_do calls (cl\<lparr>rest := w, handled := handled cl @ [(c, res)]\<rparr>)))"

subsection \<open>Errors\<close>

function error_fields :: "api_error \<times> bool \<Rightarrow> bytes \<Rightarrow> (api_error \<times> bool) \<times> bytes" where
  "error_fields st pos =
    (let (i, pos1) = getnameid pos in
     if i = 0 then (st, pos1)
     else if i = makeNameid (asc ''err'') then let (n, pos2) = getint pos1 in error_fields ((fst st)\<lparr>mError := n\<rparr>, True) pos2
     else if i = makeNameid (asc ''u'') then let (n, pos2) = getint pos1 in error_fields ((fst st)\<lparr>mUserStatus := n\<rparr>, snd st) pos2
     else if i = makeNameid (asc ''l'') then let (n, pos2) = getint pos1 in error_fields ((fst st)\<lparr>mLinkStatus := n\<rparr>, snd st) pos2
     else error_fields st (snd (snd (storeobject pos1))))"
  by pat_completeness auto
termination
  by (relation "measure (\<lambda>(st, pos). length pos)") (auto dest: member_shorter)

declare error_fields.simps [simp del]

text \<open>
  The error found, if any, the position after it, and the client.  Closing the object of a detailed error is \<^verbatim>\<open>leaveobject\<close>,
  which may not return.
\<close>

definition error_effects :: "'w handlers \<Rightarrow> api_error option \<Rightarrow> 'w client \<Rightarrow> 'w client" where
  "error_effects h err cl =
    (case err of
       None \<Rightarrow> cl
     | Some e \<Rightarrow>
         if mError e = API_EPAYWALL then cl\<lparr>rest := activateoverquota h (rest cl)\<rparr>
         else if mError e = API_EBUSINESSPASTDUE then cl\<lparr>rest := businessExpired h (rest cl)\<rparr>
         else cl)"

definition checkError :: "'w handlers \<Rightarrow> bytes \<Rightarrow> 'w client \<Rightarrow> (api_error option \<times> bytes \<times> 'w client) option" where
  "checkError h pos cl =
    (let (num, pos1) = isNumericError pos in
     case num of
       Some n \<Rightarrow> let err = Some (new_error n) in Some (err, pos1, error_effects h err cl)
     | None \<Rightarrow>
         if take 7 (after_comma pos1) = asc [CHR ''{'', CHR 0x22, CHR ''e'', CHR ''r'', CHR ''r'', CHR 0x22, CHR '':''] then
           let ((e, detected), pos2) = error_fields (new_error API_EINTERNAL, False) (snd (enterobject pos1));
               err = (if detected then Some e else None)
           in map_option (\<lambda>(_, pos3). (err, pos3, error_effects h err cl)) (leaveobject pos2)
         else Some (None, pos1, cl))"

subsection \<open>Results and sequence tags\<close>

definition processCmdJSON :: "'w handlers \<Rightarrow> command \<Rightarrow> bool \<Rightarrow> bytes \<Rightarrow> 'w client \<Rightarrow> (bool \<times> bytes \<times> 'w client) option" where
  "processCmdJSON h c couldBeError pos cl =
    Option.bind (if couldBeError then checkError h pos cl else Some (None, pos, cl)) (\<lambda>(err, pos1, cl1).
      case err of
        Some e \<Rightarrow> Some (call_procresult h c (CmdError, e) pos1 cl1)
      | None \<Rightarrow>
          let (obj, pos2) = enterobject pos1 in
          if obj then
            case call_procresult h c (CmdObject, new_error API_OK) pos2 cl1 of (ok, pos', cl') \<Rightarrow>
              if ok then map_option (\<lambda>(left, pos''). (left, pos'', cl')) (leaveobject pos') else Some (False, pos', cl')
          else let (arr, pos3) = enterarray pos2 in
          if arr then
            case call_procresult h c (CmdArray, new_error API_OK) pos3 cl1 of (ok, pos', cl') \<Rightarrow>
              if ok then (case leavearray pos' of (left, pos'') \<Rightarrow> Some (left, pos'', cl')) else Some (False, pos', cl')
          else Some (call_procresult h c (CmdItem, new_error API_OK) pos3 cl1))"

text \<open>
  The result says whether the command was processed; when not, its tag has become the one to wait for.  The \<^verbatim>\<open>assert\<close> is
  recorded for tags that are not empty: whether one is, is up to the server.
\<close>

definition processSeqTag :: "'w handlers \<Rightarrow> command \<Rightarrow> bool \<Rightarrow> bool \<Rightarrow> bytes \<Rightarrow> 'w client \<Rightarrow> (bool \<times> bool \<times> bytes \<times> 'w client) option" where
  "processSeqTag h c withJSON inSeqTagArray pos cl =
    (let (_, st0, pos1) = storeobject pos; st = (case st0 of None \<Rightarrow> [] | Some s \<Rightarrow> s);
         pos2 = (if inSeqTagArray then after_comma pos1 else pos1) in
     if mCurrentSeqtag cl = st \<or> \<not> scsn_ready cl then
       let cl1 = (check_assert (mCurrentSeqtagSeen cl \<or> \<not> scsn_ready cl \<or> st = []) cl)\<lparr>mCurrentSeqtag := [], mCurrentSeqtagSeen := False\<rparr>
       in map_option (\<lambda>(ok, pos', cl'). (True, ok, pos', cl'))
            (if withJSON then processCmdJSON h c False pos2 cl1
             else Some (call_procresult h c (CmdError, new_error API_OK) pos2 cl1))
     else Some (False, True, pos2, cl\<lparr>mPriorSeqTag := mCurrentSeqtag cl, mCurrentSeqtag := st, mCurrentSeqtagSeen := False,
            mCurrentSeqtagCmdtag := cmd_tag c\<rparr>))"

text \<open>One turn of the loop of \<^verbatim>\<open>Request::process\<close>: whether to stop and wait, and the position after the command's value.\<close>

definition process_one :: "'w handlers \<Rightarrow> command \<Rightarrow> bytes \<Rightarrow> 'w client \<Rightarrow> (bool \<times> bytes \<times> 'w client) option" where
  "process_one h c cmdJSON cl0 =
    (let cl = cl0\<lparr>restag := cmd_tag c\<rparr>; pos = after_comma cmdJSON; (arr, pos1) = (if mSeqtagArray c then enterarray pos else (False, pos));
         adjust = (\<lambda>(ok, pos', cl'). (False, if ok then pos' else snd (snd (storeobject cmdJSON)), cl')) in
     if arr then
       Option.bind
         (if cstr_hd pos1 = ch CHR ''0'' \<and> cstr_hd (tl pos1) = ch CHR '',''
          then map_option (\<lambda>(ok, pos', cl'). (True, ok, pos', cl')) (processCmdJSON h c False (tl (tl pos1)) cl)
          else processSeqTag h c True True pos1 cl)
         (\<lambda>(proceed, ok, pos', cl').
           if \<not> proceed then Some (True, pos', cl')
           else if ok then (case leavearray pos' of (left, pos'') \<Rightarrow> Some (adjust (left, pos'', cl')))
           else Some (adjust (False, pos', cl')))
     else if cstr_hd pos1 = ch CHR 0x22 then
       map_option (\<lambda>(proceed, ok, pos', cl'). if \<not> proceed then (True, pos', cl') else adjust (ok, pos', cl'))
         (processSeqTag h c False False pos1 cl)
     else map_option adjust (processCmdJSON h c True pos1 cl))"

definition finish_command :: "'w client \<Rightarrow> 'w client" where
  "finish_command = on_inflight (\<lambda>r. r\<lparr>cmds := (cmds r)[processindex r := None], processindex := Suc (processindex r)\<rparr>)"

partial_function (option) process_loop :: "'w handlers \<Rightarrow> bytes \<Rightarrow> 'w client \<Rightarrow> 'w client option" where
  "process_loop h processingJson cl =
    (let r = inflightreq (reqs cl) in
     if processindex r < length (cmds r) \<and> \<not> stopProcessing r then
       Option.bind (process_one h (the (cmds r ! processindex r)) processingJson cl)
         (\<lambda>(waiting, pos', cl').
           if waiting then Some (on_inflight (\<lambda>r. r\<lparr>json := Some processingJson\<rparr>) cl')
           else process_loop h pos' (finish_command cl'))
     else Some ((on_inflight (\<lambda>r. if processindex r = length (cmds r) \<or> stopProcessing r then req_clear r
                 else r\<lparr>json := Some processingJson\<rparr>) cl)\<lparr>mTctableRequestCommitter := False\<rparr>))"

declare process_loop.simps [code]

definition process :: "'w handlers \<Rightarrow> 'w client \<Rightarrow> 'w client option" where
  "process h cl = process_loop h (the (json (inflightreq (reqs cl)))) (cl\<lparr>mTctableRequestCommitter := True\<rparr>)"

subsection \<open>Responses\<close>

text \<open>Processing with the flag set, and the delayed \<^verbatim>\<open>clear\<close> after it.\<close>

definition while_processing :: "('w client \<Rightarrow> 'w client option) \<Rightarrow> 'w client \<Rightarrow> 'w client option" where
  "while_processing f cl =
    map_option (\<lambda>cl'. on_reqs (\<lambda>d. let d' = d\<lparr>processing := False\<rparr> in if clearWhenSafe d' then disp_clear d' else d') cl')
      (f (on_reqs (\<lambda>d. d\<lparr>processing := True\<rparr>) cl))"

definition serverresponse :: "'w handlers \<Rightarrow> bytes \<Rightarrow> 'w client \<Rightarrow> 'w client option" where
  "serverresponse h s =
    while_processing (\<lambda>cl. process h (on_inflight (req_serverresponse s) (check_assert (processindex (inflightreq (reqs cl)) = 0) cl)))"

definition servererror :: "'w handlers \<Rightarrow> bytes \<Rightarrow> 'w client \<Rightarrow> 'w client option" where
  "servererror h e =
    while_processing (\<lambda>cl. map_option (on_reqs (\<lambda>d. d\<lparr>inflightFailReason := RETRY_NONE\<rparr>))
      (process h (on_inflight (req_servererror e) (check_assert (processindex (inflightreq (reqs cl)) = 0) cl))))"

definition continueProcessing :: "'w handlers \<Rightarrow> 'w client \<Rightarrow> 'w client option" where
  "continueProcessing h cl = while_processing (process h) (check_assert (\<not> req_empty (inflightreq (reqs cl))) cl)"

subsection \<open>Sending\<close>

text \<open>The calls of \<^verbatim>\<open>MegaClient::exec\<close>, with the assertions of the functions they call.\<close>

definition swap_asserts :: "dispatcher \<Rightarrow> bool" where
  "swap_asserts d \<longleftrightarrow> (\<not> req_empty (inflightreq d) \<and> inflightFailReason d \<noteq> RETRY_NONE) \<or>
    (req_empty (inflightreq d) \<and> list_all (\<lambda>r. jsonresponse r = [] \<and> json r = None \<and> processindex r = 0) [inflightreq d, hd (nextreqs d)])"

definition send_commands :: "'w handlers \<Rightarrow> 'w client \<Rightarrow> (bytes \<times> bytes \<times> bool) \<times> 'w client" where
  "send_commands h cl =
    (case serverrequest (getJSON h (rest cl)) (reqs cl) of (out, d) \<Rightarrow> (out, (check_assert (swap_asserts (reqs cl)) cl)\<lparr>reqs := d\<rparr>))"

definition fail_commands :: "retryreason \<Rightarrow> 'w client \<Rightarrow> 'w client" where
  "fail_commands reason cl =
    on_reqs (inflightFailure reason) (check_assert (\<not> req_empty (inflightreq (reqs cl)) \<and> nextreqs (reqs cl) \<noteq> [] \<and> reason \<noteq> RETRY_NONE) cl)"

subsection \<open>Sequence tags of action packets\<close>

text \<open>
  Whether the action packet may be processed now.  The loop goes on as long as commands whose tag has been
  seen can be processed.
\<close>

definition seqtag_larger :: "bytes \<Rightarrow> bytes \<Rightarrow> bool" where
  "seqtag_larger a b \<longleftrightarrow> length b < length a \<or> length a = length b \<and> b < a"

partial_function (option) seqtag_loop :: "'w handlers \<Rightarrow> bytes \<Rightarrow> 'w client \<Rightarrow> (bool \<times> 'w client) option" where
  "seqtag_loop h tag cl =
    (if mCurrentSeqtag cl = [] then Some (\<not> cmdsInflight (reqs cl), cl)
     else if tag = mCurrentSeqtag cl then Some (True, cl\<lparr>mCurrentSeqtagSeen := True\<rparr>)
     else if mCurrentSeqtagSeen cl then Option.bind (continueProcessing h cl) (\<lambda>cl'. seqtag_loop h tag cl')
     else Some (True, cl))"

declare seqtag_loop.simps [code]

definition sc_checkSequenceTag :: "'w handlers \<Rightarrow> bytes \<Rightarrow> 'w client \<Rightarrow> (bool \<times> 'w client) option" where
  "sc_checkSequenceTag h tag cl =
    (if tag = [] then
       map_option (\<lambda>cl1. (True, if mLastReceivedScSeqTag cl1 \<noteq> []
             then cl1\<lparr>reported := reported cl1 @ [mLastReceivedScSeqTag cl1], mLastReceivedScSeqTag := []\<rparr> else cl1))
         (if mCurrentSeqtag cl \<noteq> [] \<and> mCurrentSeqtagSeen cl then continueProcessing h cl else Some cl)
     else
       let cl1 = cl\<lparr>mLastReceivedScSeqTag := tag,
                    mLargestEverSeenScSeqTag := (if seqtag_larger tag (mLargestEverSeenScSeqTag cl) then tag else mLargestEverSeenScSeqTag cl),
                    scDbSeqTag := tag\<rparr>
       in seqtag_loop h tag cl1)"

section \<open>The queue of batches\<close>

definition fresh :: "request \<Rightarrow> bool" where
  "fresh r \<longleftrightarrow> json r = None \<and> jsonresponse r = [] \<and> processindex r = 0 \<and> cachedJSON r = [] \<and> \<not> stopProcessing r \<and> None \<notin> set (cmds r)
     \<and> length (cmds r) \<le> MAX_COMMANDS \<and> (\<forall>c. Some c \<in> set (cmds r) \<longrightarrow> batchSeparately c \<longrightarrow> length (cmds r) = 1)"

text \<open>Every batch but the last holds a command, and the last holds none that must be alone.\<close>

definition queue_ok :: "request list \<Rightarrow> bool" where
  "queue_ok rs \<longleftrightarrow> rs \<noteq> [] \<and> list_all fresh rs \<and> list_all (\<lambda>r. cmds r \<noteq> []) (butlast rs)
     \<and> list_all (\<lambda>x. \<not> batchSeparately (the x)) (cmds (last rs))"

definition batched :: "request list \<Rightarrow> command list" where
  "batched rs = concat (map (\<lambda>r. map the (cmds r)) rs)"

lemma queue_ok_snoc:
  "queue_ok (rs @ [r]) \<longleftrightarrow> list_all (\<lambda>r. fresh r \<and> cmds r \<noteq> []) rs \<and> fresh r \<and> list_all (\<lambda>x. \<not> batchSeparately (the x)) (cmds r)"
  by (auto simp: queue_ok_def list_all_iff)

lemma queue_ok_cases:
  assumes "queue_ok rs"
  obtains qs r where "rs = qs @ [r]" "list_all (\<lambda>r. fresh r \<and> cmds r \<noteq> []) qs" "fresh r" "list_all (\<lambda>x. \<not> batchSeparately (the x)) (cmds r)"
proof (cases rs rule: rev_cases)
  case Nil
  then show thesis using assms by (simp add: queue_ok_def)
next
  case (snoc qs r)
  then show thesis using assms by (intro that [of qs r]) (simp_all add: queue_ok_snoc)
qed

lemma fresh_new_request: "fresh new_request" "cmds new_request = []"
  by (simp_all add: fresh_def new_request_def)

lemma batched_simps: "batched [] = []" "batched (r # rs) = map the (cmds r) @ batched rs" "batched (rs @ qs) = batched rs @ batched qs" "batched [new_request] = []"
  by (simp_all add: batched_def new_request_def)

lemma push_request_simps:
  "nextreqs (push_request d) = nextreqs d @ [new_request]" "inflightreq (push_request d) = inflightreq d"
  "inflightFailReason (push_request d) = inflightFailReason d" "processing (push_request d) = processing d"
  "clearWhenSafe (push_request d) = clearWhenSafe d" "reqid (push_request d) = reqid d"
  by (simp_all add: push_request_def)

lemma disp_add_simps [simp]:
  "inflightreq (disp_add c d) = inflightreq d" "inflightFailReason (disp_add c d) = inflightFailReason d"
  "processing (disp_add c d) = processing d" "clearWhenSafe (disp_add c d) = clearWhenSafe d" "reqid (disp_add c d) = reqid d"
  by (simp_all add: disp_add_def make_room_def on_back_def push_request_simps Let_def)

lemma make_room_props:
  assumes "queue_ok (nextreqs d)"
  obtains qs r where "nextreqs (make_room c d) = qs @ [r]" "list_all (\<lambda>r. fresh r \<and> cmds r \<noteq> []) qs" "fresh r"
    "list_all (\<lambda>x. \<not> batchSeparately (the x)) (cmds r)" "length (cmds r) < MAX_COMMANDS" "batchSeparately c \<longrightarrow> cmds r = []"
    "batched (qs @ [r]) = batched (nextreqs d)"
proof -
  obtain qs r where q: "nextreqs d = qs @ [r]" "list_all (\<lambda>r. fresh r \<and> cmds r \<noteq> []) qs" "fresh r" "list_all (\<lambda>x. \<not> batchSeparately (the x)) (cmds r)"
    using assms by (rule queue_ok_cases)
  show thesis
  proof (cases "length (cmds r) \<ge> MAX_COMMANDS \<or> batchSeparately c \<and> cmds r \<noteq> []")
    case True
    then have "nextreqs (make_room c d) = (qs @ [r]) @ [new_request]" "cmds r \<noteq> []"
      using q by (auto simp: make_room_def push_request_def req_size_def req_empty_def new_request_def MAX_COMMANDS_def)
    then show thesis using q fresh_new_request by (intro that [of "qs @ [r]" new_request]) (simp_all add: batched_simps MAX_COMMANDS_def)
  next
    case False
    then have "make_room c d = d" using q by (auto simp: make_room_def req_size_def req_empty_def)
    then show thesis using q False by (intro that [of qs r]) auto
  qed
qed

lemma disp_add_props:
  assumes "queue_ok (nextreqs d)"
  shows "queue_ok (nextreqs (disp_add c d)) \<and> batched (nextreqs (disp_add c d)) = batched (nextreqs d) @ [c]
    \<and> cachedJSON (last (nextreqs (make_room c d))) = []"
proof -
  obtain qs r where q: "nextreqs (make_room c d) = qs @ [r]" "list_all (\<lambda>r. fresh r \<and> cmds r \<noteq> []) qs" "fresh r"
      "list_all (\<lambda>x. \<not> batchSeparately (the x)) (cmds r)" "length (cmds r) < MAX_COMMANDS" "batchSeparately c \<longrightarrow> cmds r = []"
      "batched (qs @ [r]) = batched (nextreqs d)"
    by (rule make_room_props [OF assms, of c])
  have d: "disp_add c d = (make_room c d)\<lparr>nextreqs := qs @ req_add c r # (if batchSeparately c then [new_request] else [])\<rparr>"
    using q(1) by (simp add: disp_add_def on_back_def push_request_def)
  have f: "fresh (req_add c r)" "cmds (req_add c r) \<noteq> []"
    using q(3-6) by (auto simp: fresh_def req_add_def list_all_iff)
  have "queue_ok (nextreqs (disp_add c d))"
  proof (cases "batchSeparately c")
    case True
    then have "nextreqs (disp_add c d) = (qs @ [req_add c r]) @ [new_request]" by (simp add: d)
    then show ?thesis using f q(2) fresh_new_request by (simp only: queue_ok_snoc) simp
  next
    case False
    then show ?thesis using f q(2,4) by (simp add: d queue_ok_snoc req_add_def)
  qed
  moreover have "batched (nextreqs (disp_add c d)) = batched (nextreqs d) @ [c]"
    unfolding q(7) [symmetric] by (simp add: d batched_simps req_add_def new_request_def)
  ultimately show ?thesis using q(1,3) by (simp add: fresh_def)
qed

section \<open>What a command may do while results are processed\<close>

lemmas client_ops = on_reqs_def on_inflight_def check_assert_def

abbreviation inflight :: "'w client \<Rightarrow> request" where
  "inflight cl \<equiv> inflightreq (reqs cl)"

definition mid :: "'w client \<Rightarrow> bool" where
  "mid cl \<longleftrightarrow> processing (reqs cl) \<and> queue_ok (nextreqs (reqs cl)) \<and> clearWhenSafe (reqs cl) = stopProcessing (inflight cl)"

text \<open>
  \<open>did ns s cl cl'\<close>: commands \<open>ns\<close> were queued, the batch is to be stopped if \<open>s\<close>, and the sequence tag is kept or forgotten.
\<close>

definition did :: "command list \<Rightarrow> bool \<Rightarrow> 'w client \<Rightarrow> 'w client \<Rightarrow> bool" where
  "did ns s cl cl' \<longleftrightarrow> queued cl' = queued cl @ ns \<and> handled cl' = handled cl \<and> asserts cl' = asserts cl
     \<and> inflight cl' = (inflight cl)\<lparr>stopProcessing := s\<rparr> \<and> clearWhenSafe (reqs cl') = s \<and> processing (reqs cl') = processing (reqs cl)
     \<and> inflightFailReason (reqs cl') = inflightFailReason (reqs cl) \<and> reqid (reqs cl') = reqid (reqs cl)
     \<and> queue_ok (nextreqs (reqs cl')) \<and> batched (nextreqs (reqs cl')) = batched (nextreqs (reqs cl)) @ ns
     \<and> (mCurrentSeqtag cl' = mCurrentSeqtag cl \<and> mCurrentSeqtagSeen cl' = mCurrentSeqtagSeen cl \<or> mCurrentSeqtag cl' = [])"

lemma did_refl: "mid cl \<Longrightarrow> did [] (stopProcessing (inflight cl)) cl cl"
  by (simp add: did_def mid_def)

lemma did_trans: "did ns s a b \<Longrightarrow> did ms t b c \<Longrightarrow> did (ns @ ms) t a c"
  unfolding did_def by (elim conjE disjE) simp_all

lemma did_mid: "mid a \<Longrightarrow> did ns s a b \<Longrightarrow> mid b"
  by (simp add: did_def mid_def)

lemma did_add_command:
  assumes "mid cl"
  shows "did [c] (stopProcessing (inflight cl)) cl (add_command c cl)"
  using disp_add_props [of "reqs cl" c] assms by (auto simp: add_command_def client_ops did_def mid_def)

lemma did_locallogout: "mid cl \<Longrightarrow> did [] True cl (locallogout cl)"
  by (simp add: locallogout_def init_seqtags_def disp_clear_def client_ops did_def mid_def)

lemma did_client_do:
  assumes "mid cl"
  shows "\<exists>ns s. did ns s cl (client_do x cl) \<and> (stopProcessing (inflight cl) \<longrightarrow> s) \<and> (x \<noteq> LocalLogout \<longrightarrow> s = stopProcessing (inflight cl))"
proof (cases x)
  case (AddCommand c)
  then show ?thesis using did_add_command [OF assms, of c] by (auto intro!: exI)
next
  case LocalLogout
  then show ?thesis using did_locallogout [OF assms] by (auto intro!: exI)
next
  case SetScsn
  then show ?thesis using did_refl [OF assms] by (intro exI [of _ "[]"] exI [of _ "stopProcessing (inflight cl)"]) (simp add: did_def)
qed

lemma did_calls:
  "mid cl \<Longrightarrow> \<exists>ns s. did ns s cl (fold client_do xs cl) \<and> (stopProcessing (inflight cl) \<longrightarrow> s)
     \<and> (LocalLogout \<notin> set xs \<longrightarrow> s = stopProcessing (inflight cl))"
proof (induction xs arbitrary: cl)
  case Nil
  then show ?case using did_refl by (auto intro!: exI)
next
  case (Cons x xs)
  obtain ns s where d: "did ns s cl (client_do x cl)" "stopProcessing (inflight cl) \<longrightarrow> s" "x \<noteq> LocalLogout \<longrightarrow> s = stopProcessing (inflight cl)"
    using did_client_do [OF Cons.prems] by blast
  have s: "stopProcessing (inflight (client_do x cl)) = s" using d(1) by (simp add: did_def)
  obtain ms t where t: "did ms t (client_do x cl) (fold client_do xs (client_do x cl))" "s \<longrightarrow> t" "LocalLogout \<notin> set xs \<longrightarrow> t = s"
    using Cons.IH [OF did_mid [OF Cons.prems d(1)]] unfolding s by blast
  show ?case using did_trans [OF d(1) t(1)] d(2,3) t(2,3) by (intro exI [of _ "ns @ ms"] exI [of _ t]) auto
qed

text \<open>One call of \<^verbatim>\<open>procresult\<close>: \<open>answered c res ns s cl cl'\<close>.\<close>

definition never_logs_out :: "'w handlers \<Rightarrow> bool" where
  "never_logs_out h \<longleftrightarrow> (\<forall>c res p w. LocalLogout \<notin> set (snd (snd (snd (procresult h c res p w)))))"

definition answered :: "'w handlers \<Rightarrow> command \<Rightarrow> cmd_result \<Rightarrow> 'w client \<Rightarrow> 'w client \<Rightarrow> bool" where
  "answered h c res cl cl' \<longleftrightarrow> (\<exists>ns s. did ns s (cl\<lparr>handled := handled cl @ [(c, res)]\<rparr>) cl' \<and> (stopProcessing (inflight cl) \<longrightarrow> s)
     \<and> (never_logs_out h \<longrightarrow> s = stopProcessing (inflight cl)))"

lemma answered_call:
  assumes "mid cl" "call_procresult h c res p cl = (ok, p', cl')"
  shows "answered h c res cl cl'"
proof -
  obtain w xs where p: "procresult h c res p (rest cl) = (ok, p', w, xs)" "cl' = fold client_do xs (cl\<lparr>rest := w, handled := handled cl @ [(c, res)]\<rparr>)"
    using assms(2) by (auto simp: call_procresult_def split: prod.splits)
  have "never_logs_out h \<Longrightarrow> LocalLogout \<notin> set xs" using p(1) unfolding never_logs_out_def by (metis snd_conv)
  moreover obtain ns s where "did ns s (cl\<lparr>rest := w, handled := handled cl @ [(c, res)]\<rparr>) cl'" "stopProcessing (inflight cl) \<longrightarrow> s"
      "LocalLogout \<notin> set xs \<longrightarrow> s = stopProcessing (inflight cl)"
    using did_calls [of "cl\<lparr>rest := w, handled := handled cl @ [(c, res)]\<rparr>" xs] assms(1) unfolding p(2) by (auto simp: mid_def)
  ultimately show ?thesis unfolding answered_def by (intro exI [of _ ns] exI [of _ s]) (auto simp: did_def)
qed

section \<open>One command's result\<close>

lemma client_rest_same: "cl = cl\<lparr>rest := rest cl\<rparr>"
  by simp

lemma error_effects_client: "\<exists>w. error_effects h err cl = cl\<lparr>rest := w\<rparr>"
  unfolding error_effects_def by (auto split: option.splits intro: client_rest_same)

lemma checkError_client: "checkError h p cl = Some (err, p', cl') \<Longrightarrow> \<exists>w. cl' = cl\<lparr>rest := w\<rparr>"
  using error_effects_client client_rest_same [of cl] unfolding checkError_def Let_def
  by (auto split: prod.splits option.splits if_splits intro: client_rest_same)

lemma mid_rest [simp]: "mid (cl\<lparr>rest := w\<rparr>) = mid cl" "mid (cl\<lparr>restag := t\<rparr>) = mid cl"
  by (simp_all add: mid_def)

lemma processCmdJSON_answered:
  assumes "mid cl" "processCmdJSON h c b p cl = Some (ok, p', cl')"
  shows "\<exists>res w. answered h c res (cl\<lparr>rest := w\<rparr>) cl'"
proof -
  obtain err p1 cl1 where e: "(if b then checkError h p cl else Some (None, p, cl)) = Some (err, p1, cl1)"
    using assms(2) by (fastforce simp: processCmdJSON_def bind_eq_Some_conv)
  then obtain w where w: "cl1 = cl\<lparr>rest := w\<rparr>" using checkError_client [of h p cl err p1 cl1] client_rest_same [of cl] by (metis option.inject prod.inject)
  have "\<exists>res p2 ok' p3. call_procresult h c res p2 cl1 = (ok', p3, cl')"
    using assms(2) unfolding processCmdJSON_def e
    by (auto simp: Let_def simp del: split_paired_Ex split: option.splits prod.splits if_splits) blast
  then show ?thesis using answered_call [of cl1] assms(1) w by (metis mid_rest(1))
qed

text \<open>The sequence tag found where a command's result is expected.\<close>

definition tag_text :: "bytes \<Rightarrow> bytes" where
  "tag_text p = (case fst (snd (storeobject p)) of None \<Rightarrow> [] | Some st \<Rightarrow> st)"

definition awaited :: "command \<Rightarrow> bytes \<Rightarrow> bytes option" where
  "awaited c p =
    (let pos = after_comma p; (arr, pos1) = (if mSeqtagArray c then enterarray pos else (False, pos)) in
     if arr then if cstr_hd pos1 = ch CHR ''0'' \<and> cstr_hd (tl pos1) = ch CHR '','' then None else Some (tag_text pos1)
     else if cstr_hd pos1 = ch CHR 0x22 then Some (tag_text pos1) else None)"

definition waits_for :: "command \<Rightarrow> bytes \<Rightarrow> 'w client \<Rightarrow> 'w client" where
  "waits_for c st cl = cl\<lparr>restag := cmd_tag c, mPriorSeqTag := mCurrentSeqtag cl, mCurrentSeqtag := st, mCurrentSeqtagSeen := False,
     mCurrentSeqtagCmdtag := cmd_tag c\<rparr>"

definition due :: "command \<Rightarrow> bytes \<Rightarrow> 'w client \<Rightarrow> 'w client" where
  "due c p cl = (case awaited c p of
     None \<Rightarrow> cl\<lparr>restag := cmd_tag c\<rparr>
   | Some st \<Rightarrow> (check_assert (mCurrentSeqtagSeen cl \<or> \<not> scsn_ready cl \<or> st = []) (cl\<lparr>restag := cmd_tag c\<rparr>))\<lparr>mCurrentSeqtag := [], mCurrentSeqtagSeen := False\<rparr>)"

definition must_wait :: "command \<Rightarrow> bytes \<Rightarrow> 'w client \<Rightarrow> bool" where
  "must_wait c p cl \<longleftrightarrow> (case awaited c p of None \<Rightarrow> False | Some st \<Rightarrow> mCurrentSeqtag cl \<noteq> st \<and> scsn_ready cl)"

lemma processSeqTag_cases:
  assumes "mid cl" "processSeqTag h c withJSON inarr p cl = Some (proceed, ok, p', cl')"
  shows "proceed = (mCurrentSeqtag cl = tag_text p \<or> \<not> scsn_ready cl)"
    "\<not> proceed \<Longrightarrow> cl' = cl\<lparr>mPriorSeqTag := mCurrentSeqtag cl, mCurrentSeqtag := tag_text p, mCurrentSeqtagSeen := False, mCurrentSeqtagCmdtag := cmd_tag c\<rparr>"
    "proceed \<Longrightarrow> \<exists>res w. answered h c res ((check_assert (mCurrentSeqtagSeen cl \<or> \<not> scsn_ready cl \<or> tag_text p = []) cl)\<lparr>mCurrentSeqtag := [], mCurrentSeqtagSeen := False, rest := w\<rparr>) cl'"
proof -
  obtain b st0 p1 where st: "storeobject p = (b, st0, p1)" by (cases "storeobject p") auto
  have t: "tag_text p = (case st0 of None \<Rightarrow> [] | Some st \<Rightarrow> st)" by (simp add: tag_text_def st)
  note d = assms(2) [unfolded processSeqTag_def st Let_def prod.case t [symmetric]]
  show "proceed = (mCurrentSeqtag cl = tag_text p \<or> \<not> scsn_ready cl)" using d by (auto split: if_splits)
  show "cl' = cl\<lparr>mPriorSeqTag := mCurrentSeqtag cl, mCurrentSeqtag := tag_text p, mCurrentSeqtagSeen := False, mCurrentSeqtagCmdtag := cmd_tag c\<rparr>"
    if "\<not> proceed" using d that by (auto split: if_splits)
  let ?cl = "(check_assert (mCurrentSeqtagSeen cl \<or> \<not> scsn_ready cl \<or> tag_text p = []) cl)\<lparr>mCurrentSeqtag := [], mCurrentSeqtagSeen := False\<rparr>"
  have m: "mid ?cl" using assms(1) by (simp add: mid_def check_assert_def)
  show "\<exists>res w. answered h c res (?cl\<lparr>rest := w\<rparr>) cl'" if now: "proceed"
  proof (cases withJSON)
    case True
    then obtain q where "processCmdJSON h c False q ?cl = Some (ok, p', cl')" using d now by (auto split: if_splits)
    then show ?thesis by (rule processCmdJSON_answered [OF m])
  next
    case False
    then obtain q where "call_procresult h c (CmdError, new_error API_OK) q ?cl = (ok, p', cl')" using d now by (auto split: if_splits)
    then show ?thesis using answered_call [OF m] client_rest_same [of ?cl] by metis
  qed
qed

lemma process_one_cases:
  assumes "mid cl" "process_one h c p cl = Some (w, p', cl')"
  shows "w = must_wait c p cl" "w \<Longrightarrow> cl' = waits_for c (the (awaited c p)) cl" "\<not> w \<Longrightarrow> \<exists>res wd. answered h c res ((due c p cl)\<lparr>rest := wd\<rparr>) cl'"
proof -
  let ?cl = "cl\<lparr>restag := cmd_tag c\<rparr>"
  obtain arr p1 where a: "(if mSeqtagArray c then enterarray (after_comma p) else (False, after_comma p)) = (arr, p1)" by fastforce
  have m: "mid ?cl" using assms(1) by simp
  note d = assms(2) [unfolded process_one_def Let_def a prod.case]
  note aw = awaited_def [of c p, unfolded Let_def a prod.case]
  have tagged: "w = must_wait c p cl \<and> (w \<longrightarrow> cl' = waits_for c (the (awaited c p)) cl) \<and> (\<not> w \<longrightarrow> (\<exists>res wd. answered h c res ((due c p cl)\<lparr>rest := wd\<rparr>) cl'))"
    if x: "processSeqTag h c b1 b2 p1 ?cl = Some (proceed, ok, q, cl')" "w = (\<not> proceed)" "awaited c p = Some (tag_text p1)" for b1 b2 proceed ok q
    using processSeqTag_cases [OF m x(1)] x(2,3) by (cases proceed) (simp_all add: must_wait_def waits_for_def due_def del: split_paired_Ex)
  have plain: "w = must_wait c p cl \<and> (w \<longrightarrow> cl' = waits_for c (the (awaited c p)) cl) \<and> (\<not> w \<longrightarrow> (\<exists>res wd. answered h c res ((due c p cl)\<lparr>rest := wd\<rparr>) cl'))"
    if x: "processCmdJSON h c b q ?cl = Some (ok, q', cl')" "\<not> w" "awaited c p = None" for b q ok q'
    using processCmdJSON_answered [OF m x(1)] x(2,3) by (simp add: must_wait_def due_def del: split_paired_Ex)
  have "w = must_wait c p cl \<and> (w \<longrightarrow> cl' = waits_for c (the (awaited c p)) cl) \<and> (\<not> w \<longrightarrow> (\<exists>res wd. answered h c res ((due c p cl)\<lparr>rest := wd\<rparr>) cl'))"
  proof (cases "awaited c p")
    case None
    then obtain b q ok q' where "processCmdJSON h c b q ?cl = Some (ok, q', cl')" "\<not> w"
      using d aw by (auto simp: bind_eq_Some_conv split: if_splits prod.splits)
    then show ?thesis using plain None by blast
  next
    case (Some st)
    then obtain b1 b2 proceed ok q where "processSeqTag h c b1 b2 p1 ?cl = Some (proceed, ok, q, cl')" "w = (\<not> proceed)"
      using d aw by (auto simp: bind_eq_Some_conv split: if_splits prod.splits)
    then show ?thesis using tagged Some aw by (auto simp del: split_paired_Ex split: if_splits)
  qed
  then show "w = must_wait c p cl" "w \<Longrightarrow> cl' = waits_for c (the (awaited c p)) cl" "\<not> w \<Longrightarrow> \<exists>res wd. answered h c res ((due c p cl)\<lparr>rest := wd\<rparr>) cl'"
    by blast+
qed

section \<open>A batch of results\<close>

definition live :: "request \<Rightarrow> command list" where
  "live r = map the (drop (processindex r) (cmds r))"

text \<open>All commands the client has been given, in the order they are handled.\<close>

definition account :: "'w client \<Rightarrow> command list" where
  "account cl = map fst (handled cl) @ live (inflight cl) @ batched (nextreqs (reqs cl))"

definition in_turn :: "request \<Rightarrow> bool" where
  "in_turn r \<longleftrightarrow> processindex r \<le> length (cmds r) \<and> None \<notin> set (drop (processindex r) (cmds r))"

text \<open>The tag waited for, if any, has been seen and is that of the next command.\<close>

definition tag_due :: "bytes \<Rightarrow> 'w client \<Rightarrow> bool" where
  "tag_due p cl \<longleftrightarrow> mCurrentSeqtag cl = [] \<or> (mCurrentSeqtagSeen cl \<and> processindex (inflight cl) < length (cmds (inflight cl))
     \<and> awaited (the (cmds (inflight cl) ! processindex (inflight cl))) p = Some (mCurrentSeqtag cl))"

definition next_turn :: "bool \<Rightarrow> request \<Rightarrow> request" where
  "next_turn s r = r\<lparr>cmds := (cmds r)[processindex r := None], processindex := Suc (processindex r), stopProcessing := s\<rparr>"

lemma in_turn_next:
  assumes "in_turn r" "processindex r < length (cmds r)"
  shows "in_turn (next_turn s r)" "live r = the (cmds r ! processindex r) # live (next_turn s r)"
proof -
  have "drop (processindex r) (cmds r) = cmds r ! processindex r # drop (Suc (processindex r)) (cmds r)"
    using assms(2) by (simp add: Cons_nth_drop_Suc)
  then show "in_turn (next_turn s r)" "live r = the (cmds r ! processindex r) # live (next_turn s r)"
    using assms(1,2) by (auto simp: in_turn_def live_def next_turn_def)
qed

lemma turn:
  assumes "mid cl" "in_turn (inflight cl)" "processindex (inflight cl) < length (cmds (inflight cl))" "tag_due p cl"
    "process_one h (the (cmds (inflight cl) ! processindex (inflight cl))) p cl = Some (False, p', cl1)"
  defines "cl2 \<equiv> finish_command cl1"
  shows "\<exists>ns s. mid cl2 \<and> queued cl2 = queued cl @ ns \<and> account cl2 = account cl @ ns \<and> asserts cl2 = asserts cl \<and> mCurrentSeqtag cl2 = []
     \<and> inflight cl2 = next_turn s (inflight cl)
     \<and> in_turn (inflight cl2) \<and> (never_logs_out h \<longrightarrow> s = stopProcessing (inflight cl)) \<and> inflightFailReason (reqs cl2) = inflightFailReason (reqs cl)
     \<and> (\<exists>res. handled cl2 = handled cl @ [(the (cmds (inflight cl) ! processindex (inflight cl)), res)])"
proof -
  let ?c = "the (cmds (inflight cl) ! processindex (inflight cl))"
  obtain res wd where "answered h ?c res ((due ?c p cl)\<lparr>rest := wd\<rparr>) cl1" using process_one_cases(3) [OF assms(1,5)] by blast
  moreover have m: "mid ((due ?c p cl)\<lparr>rest := wd\<rparr>)" "handled (due ?c p cl) = handled cl" "queued (due ?c p cl) = queued cl" "reqs (due ?c p cl) = reqs cl"
    using assms(1) by (simp_all add: due_def mid_def check_assert_def split: option.splits)
  ultimately obtain ns s where d: "did ns s ((due ?c p cl)\<lparr>rest := wd, handled := handled cl @ [(?c, res)]\<rparr>) cl1"
      "never_logs_out h \<longrightarrow> s = stopProcessing (inflight cl)"
    unfolding answered_def by auto
  have "\<not> must_wait ?c p cl" using process_one_cases(1) [OF assms(1,5)] by simp
  then have t: "mCurrentSeqtag (due ?c p cl) = []" "asserts (due ?c p cl) = asserts cl"
    using assms(4) by (auto simp: due_def must_wait_def tag_due_def check_assert_def split: option.splits)
  have r: "inflight cl2 = next_turn s (inflight cl)" using d(1) m(4) by (simp add: cl2_def finish_command_def next_turn_def client_ops did_def)
  have a: "queued cl2 = queued cl @ ns" "mCurrentSeqtag cl2 = []" "asserts cl2 = asserts cl" "handled cl2 = handled cl @ [(?c, res)]"
      "batched (nextreqs (reqs cl2)) = batched (nextreqs (reqs cl)) @ ns" "mid cl2" "inflightFailReason (reqs cl2) = inflightFailReason (reqs cl)"
    using d(1) m t assms(1) by (auto simp: cl2_def finish_command_def client_ops did_def mid_def)
  show ?thesis using a r d(2) in_turn_next [OF assms(2,3), of s]
    by (intro exI [of _ ns] exI [of _ s]) (simp add: account_def)
qed

text \<open>Nothing is in flight; or a batch is held at a command whose sequence tag is waited for.\<close>

definition idle :: "'w client \<Rightarrow> bool" where
  "idle cl \<longleftrightarrow> (let r = inflight cl in cmds r = [] \<and> processindex r = 0 \<and> json r = None \<and> jsonresponse r = [] \<and> \<not> stopProcessing r) \<and> mCurrentSeqtag cl = []"

definition held :: "'w client \<Rightarrow> bool" where
  "held cl \<longleftrightarrow> (let r = inflight cl in in_turn r \<and> processindex r < length (cmds r) \<and> \<not> stopProcessing r \<and> mCurrentSeqtag cl \<noteq> []
     \<and> (\<exists>p. json r = Some p \<and> awaited (the (cmds r ! processindex r)) p = Some (mCurrentSeqtag cl)))"

definition outcome_ok :: "'w handlers \<Rightarrow> 'w client \<Rightarrow> 'w client \<Rightarrow> bool" where
  "outcome_ok h cl cl' \<longleftrightarrow> (\<exists>ns. queued cl' = queued cl @ ns \<and> subseq (account cl') (account cl @ ns)
     \<and> (never_logs_out h \<and> \<not> stopProcessing (inflight cl) \<longrightarrow> account cl' = account cl @ ns \<and> \<not> clearWhenSafe (reqs cl')))
     \<and> asserts cl' = asserts cl \<and> processing (reqs cl') \<and> queue_ok (nextreqs (reqs cl')) \<and> inflightFailReason (reqs cl') = inflightFailReason (reqs cl)
     \<and> (idle cl' \<or> held cl' \<and> \<not> clearWhenSafe (reqs cl'))"

lemma outcome_ok_step:
  assumes "outcome_ok h b c" "queued b = queued a @ ns" "account b = account a @ ns" "asserts b = asserts a"
    "inflightFailReason (reqs b) = inflightFailReason (reqs a)" "never_logs_out h \<longrightarrow> stopProcessing (inflight b) = stopProcessing (inflight a)"
  shows "outcome_ok h a c"
proof -
  obtain ms where "queued c = queued b @ ms" "subseq (account c) (account b @ ms)"
      "never_logs_out h \<and> \<not> stopProcessing (inflight b) \<longrightarrow> account c = account b @ ms \<and> \<not> clearWhenSafe (reqs c)"
    using assms(1) unfolding outcome_ok_def by blast
  then have "\<exists>ns. queued c = queued a @ ns \<and> subseq (account c) (account a @ ns)
     \<and> (never_logs_out h \<and> \<not> stopProcessing (inflight a) \<longrightarrow> account c = account a @ ns \<and> \<not> clearWhenSafe (reqs c))"
    using assms(2,3,6) by (intro exI [of _ "ns @ ms"]) auto
  then show ?thesis using assms(1,4,5) unfolding outcome_ok_def by simp
qed

lemma loop_end:
  assumes "mid cl" "in_turn (inflight cl)" "mCurrentSeqtag cl = []" "processindex (inflight cl) = length (cmds (inflight cl)) \<or> stopProcessing (inflight cl)"
  shows "outcome_ok h cl ((on_inflight (\<lambda>r. if processindex r = length (cmds r) \<or> stopProcessing r then req_clear r
                 else r\<lparr>json := Some p\<rparr>) cl)\<lparr>mTctableRequestCommitter := False\<rparr>)"
proof -
  let ?cl = "(on_inflight (\<lambda>r. if processindex r = length (cmds r) \<or> stopProcessing r then req_clear r else r\<lparr>json := Some p\<rparr>) cl)\<lparr>mTctableRequestCommitter := False\<rparr>"
  have i: "idle ?cl" using assms(3,4) by (auto simp: idle_def client_ops req_clear_def)
  have "account ?cl = map fst (handled cl) @ batched (nextreqs (reqs cl))" using assms(4) by (auto simp: account_def client_ops req_clear_def live_def)
  then have "subseq (account ?cl) (account cl @ [])" "\<not> stopProcessing (inflight cl) \<Longrightarrow> account ?cl = account cl"
    using assms(4) by (auto simp: account_def live_def subseq_append' subseq_drop_many)
  then show ?thesis using i assms(1) unfolding outcome_ok_def by (intro conjI exI [of _ "[]"]) (simp_all add: client_ops mid_def)
qed

lemma loop_waits:
  assumes "mid cl" "in_turn (inflight cl)" "processindex (inflight cl) < length (cmds (inflight cl))" "\<not> stopProcessing (inflight cl)" "tag_due p cl"
    "must_wait c p cl" "c = the (cmds (inflight cl) ! processindex (inflight cl))"
  shows "outcome_ok h cl (on_inflight (\<lambda>r. r\<lparr>json := Some p\<rparr>) (waits_for c (the (awaited c p)) cl))"
proof -
  let ?cl = "on_inflight (\<lambda>r. r\<lparr>json := Some p\<rparr>) (waits_for c (the (awaited c p)) cl)"
  obtain st where st: "awaited c p = Some st" "mCurrentSeqtag cl \<noteq> st" using assms(6) by (auto simp: must_wait_def split: option.splits)
  then have "mCurrentSeqtag cl = []" using assms(5,7) by (auto simp: tag_due_def)
  then have "held ?cl" using assms st by (auto simp: held_def waits_for_def client_ops in_turn_def)
  moreover have "account ?cl = account cl" by (simp add: account_def client_ops waits_for_def live_def)
  ultimately show ?thesis using assms(1,4) unfolding outcome_ok_def
    by (intro conjI exI [of _ "[]"]) (simp_all add: client_ops mid_def waits_for_def)
qed

lemma process_loop_outcome:
  assumes "process_loop h p cl = Some cl'"
  shows "mid cl \<and> in_turn (inflight cl) \<and> tag_due p cl \<and> (mCurrentSeqtag cl \<noteq> [] \<longrightarrow> \<not> stopProcessing (inflight cl)) \<longrightarrow> outcome_ok h cl cl'"
  using assms
proof (rule process_loop.raw_induct [rotated], goal_cases)
  case (1 f h p cl cl')
  let ?r = "inflight cl" and ?c = "the (cmds (inflight cl) ! processindex (inflight cl))"
  show ?case
  proof (intro impI, elim conjE)
    assume prems: "mid cl" "in_turn ?r" "tag_due p cl" "mCurrentSeqtag cl \<noteq> [] \<longrightarrow> \<not> stopProcessing ?r"
    show "outcome_ok h cl cl'"
    proof (cases "processindex ?r < length (cmds ?r) \<and> \<not> stopProcessing ?r")
      case False
      then have "processindex ?r = length (cmds ?r) \<or> stopProcessing ?r" using prems(2) by (auto simp: in_turn_def)
      moreover have "mCurrentSeqtag cl = []" using prems(3,4) False by (auto simp: tag_due_def)
      ultimately show ?thesis using loop_end [OF prems(1,2), of h p] 1(2) False by (simp add: Let_def)
    next
      case True
      then obtain w p1 cl1 where o: "process_one h ?c p cl = Some (w, p1, cl1)"
          "(if w then Some (on_inflight (\<lambda>r. r\<lparr>json := Some p\<rparr>) cl1) else f h p1 (finish_command cl1)) = Some cl'"
        using 1(2) by (auto simp: Let_def bind_eq_Some_conv)
      show ?thesis
      proof (cases w)
        case waits: True
        then show ?thesis using loop_waits [OF prems(1,2) _ _ prems(3) _ refl, of h] process_one_cases(1,2) [OF prems(1) o(1)] o(2) True by simp
      next
        case False
        obtain ns s where t: "mid (finish_command cl1)" "queued (finish_command cl1) = queued cl @ ns" "account (finish_command cl1) = account cl @ ns"
            "asserts (finish_command cl1) = asserts cl" "mCurrentSeqtag (finish_command cl1) = []" "inflight (finish_command cl1) = next_turn s ?r"
            "in_turn (inflight (finish_command cl1))" "never_logs_out h \<longrightarrow> s = stopProcessing ?r"
            "inflightFailReason (reqs (finish_command cl1)) = inflightFailReason (reqs cl)"
          using turn [OF prems(1,2) _ prems(3), of h p1 cl1] True o(1) False by auto
        have "outcome_ok h (finish_command cl1) cl'"
          using 1(1) [of h p1 "finish_command cl1" cl'] o(2) False t by (simp add: tag_due_def)
        then show ?thesis by (rule outcome_ok_step) (use t in \<open>simp_all add: next_turn_def\<close>)
      qed
    qed
  qed
qed

section \<open>The client's runs\<close>

definition sent :: "'w client \<Rightarrow> bool" where
  "sent cl \<longleftrightarrow> (let r = inflight cl in cmds r \<noteq> [] \<and> processindex r = 0 \<and> None \<notin> set (cmds r) \<and> json r = None \<and> jsonresponse r = []
     \<and> \<not> stopProcessing r \<and> cachedJSON r \<noteq> []) \<and> mCurrentSeqtag cl = []"

definition client_inv :: "'w client \<Rightarrow> bool" where
  "client_inv cl \<longleftrightarrow> \<not> processing (reqs cl) \<and> \<not> clearWhenSafe (reqs cl) \<and> queue_ok (nextreqs (reqs cl)) \<and> asserts cl
     \<and> (sent cl \<or> (idle cl \<or> held cl) \<and> inflightFailReason (reqs cl) = RETRY_NONE)"

text \<open>A response is expected: commands are in flight, the attempt has not failed and no response has come.\<close>

definition awaiting :: "'w client \<Rightarrow> bool" where
  "awaiting cl \<longleftrightarrow> \<not> req_empty (inflight cl) \<and> inflightFailReason (reqs cl) = RETRY_NONE \<and> json (inflight cl) = None"

datatype 'w event = Queue command | Send | Fail retryreason | Response bytes | ErrorResponse bytes | Packet bytes | Logout | ScsnReceived
  | Other 'w

text \<open>Nothing when the event cannot happen in the state, or does not end.\<close>

fun client_event :: "'w handlers \<Rightarrow> 'w event \<Rightarrow> 'w client \<Rightarrow> 'w client option" where
  "client_event h (Queue c) cl = Some (add_command c cl)"
| "client_event h Send cl = (if readyToSend (reqs cl) then Some (snd (send_commands h cl)) else None)"
| "client_event h (Fail reason) cl = (if awaiting cl \<and> reason \<noteq> RETRY_NONE then Some (fail_commands reason cl) else None)"
| "client_event h (Response s) cl = (if awaiting cl then serverresponse h s cl else None)"
| "client_event h (ErrorResponse e) cl = (if awaiting cl then servererror h e cl else None)"
| "client_event h (Packet tag) cl = map_option snd (sc_checkSequenceTag h tag cl)"
| "client_event h Logout cl = Some (locallogout cl)"
| "client_event h ScsnReceived cl = Some (cl\<lparr>scsn_ready := True\<rparr>)"
| "client_event h (Other w) cl = Some (cl\<lparr>rest := w\<rparr>)"

fun client_run :: "'w handlers \<Rightarrow> 'w event list \<Rightarrow> 'w client \<Rightarrow> 'w client option" where
  "client_run h [] cl = Some cl"
| "client_run h (e # es) cl = Option.bind (client_event h e cl) (client_run h es)"

definition new_client :: "bytes \<Rightarrow> 'w \<Rightarrow> 'w client" where
  "new_client i w = \<lparr>reqs = new_dispatcher i, restag = 0, mCurrentSeqtag = [], mPriorSeqTag = [], mCurrentSeqtagSeen = False, mCurrentSeqtagCmdtag = 0,
     mLastReceivedScSeqTag = [], mLargestEverSeenScSeqTag = [], scDbSeqTag = [], scsn_ready = False, statecurrent = False,
     mTctableRequestCommitter = False, rest = w, handled = [], queued = [], reported = [], asserts = True\<rparr>"

text \<open>What an event does to the commands: some are added, none is lost or overtaken unless the client logs out.\<close>

definition accounted :: "bool \<Rightarrow> 'w client \<Rightarrow> 'w client \<Rightarrow> bool" where
  "accounted all cl cl' \<longleftrightarrow> (\<exists>ns. queued cl' = queued cl @ ns \<and> subseq (account cl') (account cl @ ns) \<and> (all \<longrightarrow> account cl' = account cl @ ns))"

lemma accounted_trans:
  assumes "accounted all a b" "accounted all b c"
  shows "accounted all a c"
proof -
  obtain ns ms where x: "queued b = queued a @ ns" "subseq (account b) (account a @ ns)" "all \<longrightarrow> account b = account a @ ns"
      "queued c = queued b @ ms" "subseq (account c) (account b @ ms)" "all \<longrightarrow> account c = account b @ ms"
    using assms unfolding accounted_def by blast
  moreover have "subseq (account b @ ms) ((account a @ ns) @ ms)" using x(2) by (simp only: subseq_append)
  ultimately have "subseq (account c) (account a @ ns @ ms)" using subseq_order.trans by fastforce
  then show ?thesis unfolding accounted_def by (intro exI [of _ "ns @ ms"]) (use x in auto)
qed

lemma accounted_same: "queued b = queued a \<Longrightarrow> account b = account a \<Longrightarrow> accounted all a b"
  unfolding accounted_def by (intro exI [of _ "[]"]) simp

lemma accounted_mono: "accounted all a b \<Longrightarrow> (all' \<Longrightarrow> all) \<Longrightarrow> accounted all' a b"
  unfolding accounted_def by blast

lemma while_processing_inv:
  assumes "while_processing f cl = Some cl'" "client_inv cl" "sent cl \<longrightarrow> inflightFailReason (reqs cl) = RETRY_NONE"
    "\<And>a b. f a = Some b \<Longrightarrow> a = on_reqs (\<lambda>d. d\<lparr>processing := True\<rparr>) cl \<Longrightarrow> outcome_ok h a b"
  shows "client_inv cl' \<and> accounted (never_logs_out h) cl cl'"
proof -
  let ?a = "on_reqs (\<lambda>d. d\<lparr>processing := True\<rparr>) cl"
  obtain b where b: "f ?a = Some b" "cl' = on_reqs (\<lambda>d. let d' = d\<lparr>processing := False\<rparr> in if clearWhenSafe d' then disp_clear d' else d') b"
    using assms(1) by (auto simp: while_processing_def)
  have o: "outcome_ok h ?a b" using assms(4) b(1) by blast
  have a: "queued ?a = queued cl" "account ?a = account cl" "asserts ?a" "\<not> stopProcessing (inflight ?a)" "inflightFailReason (reqs ?a) = RETRY_NONE"
    using assms(2,3) by (auto simp: on_reqs_def account_def client_inv_def sent_def idle_def held_def Let_def)
  obtain ns where n: "queued b = queued cl @ ns" "subseq (account b) (account cl @ ns)"
      "never_logs_out h \<longrightarrow> account b = account cl @ ns \<and> \<not> clearWhenSafe (reqs b)"
    and r: "asserts b" "queue_ok (nextreqs (reqs b))" "inflightFailReason (reqs b) = RETRY_NONE" "idle b \<or> held b \<and> \<not> clearWhenSafe (reqs b)"
    using o a unfolding outcome_ok_def by auto
  show ?thesis
  proof (cases "clearWhenSafe (reqs b)")
    case False
    then have c: "cl' = on_reqs (\<lambda>d. d\<lparr>processing := False\<rparr>) b" by (simp add: b(2) on_reqs_def Let_def)
    then have "client_inv cl'" using r False by (auto simp: client_inv_def on_reqs_def idle_def held_def)
    moreover have "account cl' = account b" "queued cl' = queued b" by (simp_all add: c account_def on_reqs_def)
    ultimately show ?thesis using n unfolding accounted_def by (intro conjI exI [of _ ns]) auto
  next
    case True
    then have c: "cl' = on_reqs (\<lambda>d. disp_clear (d\<lparr>processing := False\<rparr>)) b" by (simp add: b(2) on_reqs_def Let_def)
    then have "client_inv cl'" using r True
      by (auto simp: client_inv_def on_reqs_def idle_def disp_clear_def req_clear_def queue_ok_def fresh_new_request)
    moreover have "account cl' = map fst (handled b)" by (simp add: c account_def on_reqs_def disp_clear_def req_clear_def live_def batched_simps fresh_new_request)
    moreover have "subseq (map fst (handled b)) (account b)" by (simp add: account_def subseq_rev_drop_many)
    ultimately show ?thesis using n True c subseq_order.trans unfolding accounted_def
      by (intro conjI exI [of _ ns]) (auto simp: on_reqs_def)
  qed
qed

lemma process_outcome:
  assumes "process h cl = Some cl'" "json (inflight cl) = Some p" "mid cl" "in_turn (inflight cl)" "tag_due p cl" "\<not> stopProcessing (inflight cl)"
  shows "outcome_ok h cl cl'"
proof -
  have "outcome_ok h (cl\<lparr>mTctableRequestCommitter := True\<rparr>) cl'"
    using process_loop_outcome [of h p "cl\<lparr>mTctableRequestCommitter := True\<rparr>" cl'] assms by (simp add: process_def mid_def tag_due_def)
  then show ?thesis by (simp add: outcome_ok_def account_def)
qed

lemma awaiting_sent: "client_inv cl \<Longrightarrow> awaiting cl \<Longrightarrow> sent cl \<and> inflightFailReason (reqs cl) = RETRY_NONE"
  by (auto simp: client_inv_def awaiting_def idle_def held_def req_empty_def Let_def)

lemma first_response:
  assumes "client_inv cl" "sent cl" "process h (on_inflight (req_serverresponse s) (check_assert (processindex (inflight a) = 0) a)) = Some b"
    "a = on_reqs (\<lambda>d. d\<lparr>processing := True\<rparr>) cl"
  shows "outcome_ok h a b"
proof -
  let ?a = "on_inflight (req_serverresponse s) (check_assert (processindex (inflight a) = 0) a)"
  have "outcome_ok h ?a b" using assms
    by (intro process_outcome [where p = "snd (enterarray (c_str s))"])
      (auto simp: client_ops req_serverresponse_def client_inv_def sent_def mid_def in_turn_def tag_due_def Let_def)
  moreover have "account ?a = account a" "asserts ?a = asserts a" "queued ?a = queued a" "inflightFailReason (reqs ?a) = inflightFailReason (reqs a)"
      "stopProcessing (inflight ?a) = stopProcessing (inflight a)"
    using assms(2,4) by (simp_all add: account_def client_ops req_serverresponse_def live_def sent_def Let_def)
  ultimately show ?thesis by (simp add: outcome_ok_def)
qed

lemma serverresponse_inv:
  assumes "client_inv cl" "awaiting cl" "serverresponse h s cl = Some cl'"
  shows "client_inv cl' \<and> accounted (never_logs_out h) cl cl'"
proof (rule while_processing_inv [OF assms(3) [unfolded serverresponse_def] assms(1)])
  fix a b
  assume "process h (on_inflight (req_serverresponse s) (check_assert (processindex (inflight a) = 0) a)) = Some b"
    "a = on_reqs (\<lambda>d. d\<lparr>processing := True\<rparr>) cl"
  then show "outcome_ok h a b" using awaiting_sent [OF assms(1,2)] by (intro first_response [OF assms(1)]) auto
qed (use awaiting_sent [OF assms(1,2)] in simp)

lemma servererror_inv:
  assumes "client_inv cl" "awaiting cl" "servererror h e cl = Some cl'"
  shows "client_inv cl' \<and> accounted (never_logs_out h) cl cl'"
proof (rule while_processing_inv [OF assms(3) [unfolded servererror_def] assms(1)])
  fix a b
  assume x: "map_option (on_reqs (inflightFailReason_update (\<lambda>_. RETRY_NONE)))
      (process h (on_inflight (req_servererror e) (check_assert (processindex (inflight a) = 0) a))) = Some b"
    "a = on_reqs (\<lambda>d. d\<lparr>processing := True\<rparr>) cl"
  then obtain b' where b: "process h (on_inflight (req_servererror e) (check_assert (processindex (inflight a) = 0) a)) = Some b'"
      "b = on_reqs (inflightFailReason_update (\<lambda>_. RETRY_NONE)) b'"
    by auto
  have "outcome_ok h a b'"
    by (rule first_response [OF assms(1) _ _ x(2)]) (use awaiting_sent [OF assms(1,2)] b(1) in \<open>simp_all add: req_servererror_def on_inflight_def on_reqs_def\<close>)
  moreover have "inflightFailReason (reqs a) = RETRY_NONE" using awaiting_sent [OF assms(1,2)] x(2) by (simp add: on_reqs_def)
  ultimately show "outcome_ok h a b"
    by (auto simp: b(2) outcome_ok_def account_def on_reqs_def idle_def held_def)
qed (use awaiting_sent [OF assms(1,2)] in simp)

lemma check_assert_holds: "b \<Longrightarrow> check_assert b cl = cl"
  by (cases cl) (simp add: check_assert_def)

lemma continueProcessing_inv:
  assumes "client_inv cl" "mCurrentSeqtag cl \<noteq> []" "mCurrentSeqtagSeen cl" "continueProcessing h cl = Some cl'"
  shows "client_inv cl' \<and> accounted (never_logs_out h) cl cl'"
proof -
  have h: "held cl" "inflightFailReason (reqs cl) = RETRY_NONE" using assms(1,2) by (auto simp: client_inv_def sent_def idle_def)
  then have c: "check_assert (\<not> req_empty (inflight cl)) cl = cl" by (intro check_assert_holds) (auto simp: req_empty_def held_def Let_def)
  show ?thesis
  proof (rule while_processing_inv [OF assms(4) [unfolded continueProcessing_def c] assms(1)])
    fix a b
    assume x: "process h a = Some b" "a = on_reqs (\<lambda>d. d\<lparr>processing := True\<rparr>) cl"
    obtain p where "json (inflight cl) = Some p" "awaited (the (cmds (inflight cl) ! processindex (inflight cl))) p = Some (mCurrentSeqtag cl)"
      using h(1) by (auto simp: held_def Let_def)
    then show "outcome_ok h a b" using x h(1) assms(1,3)
      by (intro process_outcome [where p = p]) (auto simp: on_reqs_def mid_def client_inv_def held_def tag_due_def Let_def)
  qed (use h in simp)
qed

lemma client_inv_seen [simp]: "client_inv (cl\<lparr>mCurrentSeqtagSeen := b\<rparr>) = client_inv cl"
  by (simp add: client_inv_def sent_def idle_def held_def)

lemma seqtag_loop_inv:
  assumes "seqtag_loop h tag cl = Some (ok, cl')"
  shows "client_inv cl \<longrightarrow> client_inv cl' \<and> accounted (never_logs_out h) cl cl'"
proof -
  have "case (ok, cl') of (ok, cl') \<Rightarrow> client_inv cl \<longrightarrow> client_inv cl' \<and> accounted (never_logs_out h) cl cl'"
    using assms
  proof (rule seqtag_loop.raw_induct [rotated], goal_cases)
    case (1 f h tag cl y)
    obtain ok cl' where y: "y = (ok, cl')" by (cases y)
    show ?case unfolding y prod.case
    proof
      assume inv: "client_inv cl"
      show "client_inv cl' \<and> accounted (never_logs_out h) cl cl'"
      proof (cases "mCurrentSeqtag cl \<noteq> [] \<and> tag \<noteq> mCurrentSeqtag cl \<and> mCurrentSeqtagSeen cl")
        case True
        then obtain b where b: "continueProcessing h cl = Some b" "f h tag b = Some (ok, cl')"
          using 1(2) by (auto simp: y bind_eq_Some_conv)
        then have "client_inv b" "accounted (never_logs_out h) cl b" using continueProcessing_inv [OF inv _ _ b(1)] True by auto
        then show ?thesis using 1(1) [OF b(2)] accounted_trans by fastforce
      next
        case False
        then have "cl' = cl \<or> cl' = cl\<lparr>mCurrentSeqtagSeen := True\<rparr>" using 1(2) by (auto simp: y split: if_splits)
        then show ?thesis using inv by (auto intro!: accounted_same simp: account_def)
      qed
    qed
  qed
  then show ?thesis by simp
qed

lemma sc_checkSequenceTag_inv:
  assumes "client_inv cl" "sc_checkSequenceTag h tag cl = Some (ok, cl')"
  shows "client_inv cl' \<and> accounted (never_logs_out h) cl cl'"
proof (cases "tag = []")
  case True
  then obtain b where b: "(if mCurrentSeqtag cl \<noteq> [] \<and> mCurrentSeqtagSeen cl then continueProcessing h cl else Some cl) = Some b"
      "cl' = (if mLastReceivedScSeqTag b \<noteq> [] then b\<lparr>reported := reported b @ [mLastReceivedScSeqTag b], mLastReceivedScSeqTag := []\<rparr> else b)"
    using assms(2) by (auto simp: sc_checkSequenceTag_def)
  have "client_inv b \<and> accounted (never_logs_out h) cl b"
    using b(1) assms(1) continueProcessing_inv by (auto split: if_splits intro: accounted_same)
  moreover have "client_inv cl' = client_inv b" "accounted (never_logs_out h) b cl'"
    unfolding b(2) by (auto simp: client_inv_def sent_def idle_def held_def account_def intro!: accounted_same)
  ultimately show ?thesis using accounted_trans by auto
next
  case False
  let ?cl = "cl\<lparr>mLastReceivedScSeqTag := tag,
    mLargestEverSeenScSeqTag := (if seqtag_larger tag (mLargestEverSeenScSeqTag cl) then tag else mLargestEverSeenScSeqTag cl), scDbSeqTag := tag\<rparr>"
  have "seqtag_loop h tag ?cl = Some (ok, cl')" using assms(2) False by (simp add: sc_checkSequenceTag_def)
  moreover have "client_inv ?cl" using assms(1) by (simp add: client_inv_def sent_def idle_def held_def)
  moreover have "accounted (never_logs_out h) cl ?cl" by (rule accounted_same) (simp_all add: account_def)
  ultimately show ?thesis using seqtag_loop_inv accounted_trans by blast
qed

lemma add_command_inv:
  assumes "client_inv cl"
  shows "client_inv (add_command c cl) \<and> accounted all cl (add_command c cl)"
proof -
  note d = disp_add_props [of "reqs cl" c]
  have q: "queue_ok (nextreqs (reqs cl))" using assms by (simp add: client_inv_def)
  have "client_inv (add_command c cl)" using assms d [OF q]
    by (simp add: client_inv_def add_command_def client_ops sent_def idle_def held_def)
  moreover have "account (add_command c cl) = account cl @ [c]" "queued (add_command c cl) = queued cl @ [c]"
    using d [OF q] by (simp_all add: account_def add_command_def client_ops)
  ultimately show ?thesis unfolding accounted_def by (intro conjI exI [of _ "[c]"]) simp_all
qed

lemma locallogout_inv:
  assumes "client_inv cl"
  shows "client_inv (locallogout cl) \<and> accounted False cl (locallogout cl)"
proof -
  have "client_inv (locallogout cl)" using assms
    by (auto simp: client_inv_def locallogout_def init_seqtags_def client_ops disp_clear_def req_clear_def idle_def queue_ok_def fresh_new_request)
  moreover have "account (locallogout cl) = map fst (handled cl)" using assms
    by (simp add: client_inv_def account_def locallogout_def init_seqtags_def client_ops disp_clear_def req_clear_def live_def batched_simps fresh_new_request)
  ultimately show ?thesis unfolding accounted_def
    by (intro conjI exI [of _ "[]"]) (simp_all add: locallogout_def init_seqtags_def client_ops account_def subseq_rev_drop_many)
qed

lemma fail_commands_inv:
  assumes "client_inv cl" "awaiting cl" "reason \<noteq> RETRY_NONE"
  shows "client_inv (fail_commands reason cl) \<and> accounted all cl (fail_commands reason cl)"
proof -
  have "client_inv (fail_commands reason cl)" using assms awaiting_sent [OF assms(1,2)]
    by (auto simp: client_inv_def fail_commands_def client_ops inflightFailure_def sent_def queue_ok_def req_empty_def)
  moreover have "accounted all cl (fail_commands reason cl)"
    by (rule accounted_same) (simp_all add: fail_commands_def client_ops inflightFailure_def account_def)
  ultimately show ?thesis by simp
qed

lemma serverrequest_retry:
  assumes "\<not> req_empty (inflightreq d)" "inflightFailReason d \<noteq> RETRY_NONE" "cachedJSON (inflightreq d) \<noteq> []"
  shows "serverrequest text d = ((cachedJSON (inflightreq d), cachedIdempotenceId (inflightreq d), isFetchNodes (inflightreq d)), d\<lparr>inflightFailReason := RETRY_NONE\<rparr>)"
  using assms by (simp add: serverrequest_def req_get_def)

lemma serverrequest_new:
  assumes "req_empty (inflightreq d)" "nextreqs d = r # rs" "fresh r"
  shows "\<exists>counts. serverrequest text d = ((batch_text text (map the (cmds r)), inc_reqid (reqid d), isFetchNodes r),
    d\<lparr>nextreqs := if rs = [] then [new_request] else rs,
      inflightreq := (inflightreq d)\<lparr>cmds := cmds r, cachedJSON := batch_text text (map the (cmds r)), cachedCounts := counts, cachedIdempotenceId := inc_reqid (reqid d)\<rparr>,
      reqid := inc_reqid (reqid d), inflightFailReason := RETRY_NONE\<rparr>)"
  using assms by (intro exI [of _ "count_text (cachedCounts r) (map the (cmds r))"]) (auto simp: serverrequest_def req_swap_def req_get_def push_request_def fresh_def req_empty_def isFetchNodes_def Let_def)

lemma queue_ok_tl: "queue_ok (r # rs) \<Longrightarrow> queue_ok (if rs = [] then [new_request] else rs)"
  using fresh_new_request by (auto simp: queue_ok_def)

lemma batch_text_nonempty: "batch_text text cs \<noteq> []"
  by (simp add: batch_text_def)

lemma ready_cases:
  assumes "client_inv cl" "readyToSend (reqs cl)"
  obtains "sent cl" "inflightFailReason (reqs cl) \<noteq> RETRY_NONE"
  | r rs where "idle cl" "nextreqs (reqs cl) = r # rs" "fresh r" "cmds r \<noteq> []"
proof (cases "req_empty (inflight cl)")
  case True
  then have "idle cl" using assms(1) by (auto simp: client_inv_def req_empty_def sent_def held_def)
  moreover obtain r rs where "nextreqs (reqs cl) = r # rs" "cmds r \<noteq> []"
    using assms(2) True by (cases "nextreqs (reqs cl)") (auto simp: readyToSend_def req_empty_def)
  moreover from this have "fresh r" using assms(1) by (simp add: client_inv_def queue_ok_def)
  ultimately show thesis using that(2) by blast
next
  case False
  then have "inflightFailReason (reqs cl) \<noteq> RETRY_NONE" using assms(2) by (simp add: readyToSend_def)
  then show thesis using that(1) assms(1) by (auto simp: client_inv_def)
qed

lemma send_commands_inv:
  assumes "client_inv cl" "readyToSend (reqs cl)"
  shows "client_inv (snd (send_commands h cl)) \<and> accounted all cl (snd (send_commands h cl))
    \<and> sent (snd (send_commands h cl)) \<and> inflightFailReason (reqs (snd (send_commands h cl))) = RETRY_NONE
    \<and> fst (send_commands h cl) = (let r = inflight (snd (send_commands h cl)) in (cachedJSON r, cachedIdempotenceId r, isFetchNodes r))"
  using assms
proof (cases rule: ready_cases)
  case 1
  then have q: "\<not> req_empty (inflight cl)" "cachedJSON (inflight cl) \<noteq> []" by (simp_all add: sent_def req_empty_def Let_def)
  have s: "send_commands h cl = ((cachedJSON (inflight cl), cachedIdempotenceId (inflight cl), isFetchNodes (inflight cl)), (check_assert True cl)\<lparr>reqs := (reqs cl)\<lparr>inflightFailReason := RETRY_NONE\<rparr>\<rparr>)"
    using serverrequest_retry [OF q(1) 1(2) q(2)] q(1) 1(2) by (simp add: send_commands_def swap_asserts_def)
  show ?thesis using assms(1) 1 unfolding s by (auto simp: client_inv_def check_assert_def sent_def Let_def account_def intro!: accounted_same)
next
  case (2 r rs)
  let ?t = "batch_text (getJSON h (rest cl)) (map the (cmds r))"
  have e: "req_empty (inflight cl)" using 2(1) by (simp add: idle_def req_empty_def Let_def)
  obtain counts where c: "serverrequest (getJSON h (rest cl)) (reqs cl) = ((?t, inc_reqid (reqid (reqs cl)), isFetchNodes r),
      (reqs cl)\<lparr>nextreqs := if rs = [] then [new_request] else rs,
        inflightreq := (inflight cl)\<lparr>cmds := cmds r, cachedJSON := ?t, cachedCounts := counts, cachedIdempotenceId := inc_reqid (reqid (reqs cl))\<rparr>,
        reqid := inc_reqid (reqid (reqs cl)), inflightFailReason := RETRY_NONE\<rparr>)"
    using serverrequest_new [OF e 2(2,3)] by blast
  have "swap_asserts (reqs cl)" using 2 e by (auto simp: swap_asserts_def idle_def fresh_def Let_def)
  then have s: "send_commands h cl = ((?t, inc_reqid (reqid (reqs cl)), isFetchNodes r), cl\<lparr>reqs :=
      (reqs cl)\<lparr>nextreqs := if rs = [] then [new_request] else rs,
        inflightreq := (inflight cl)\<lparr>cmds := cmds r, cachedJSON := ?t, cachedCounts := counts, cachedIdempotenceId := inc_reqid (reqid (reqs cl))\<rparr>,
        reqid := inc_reqid (reqid (reqs cl)), inflightFailReason := RETRY_NONE\<rparr>\<rparr>)"
    using c by (simp add: send_commands_def check_assert_holds)
  have "client_inv (snd (send_commands h cl)) \<and> sent (snd (send_commands h cl))" using assms(1) 2 queue_ok_tl [of r rs] batch_text_nonempty unfolding s
    by (auto simp: client_inv_def sent_def idle_def fresh_def Let_def)
  moreover have "accounted all cl (snd (send_commands h cl))" using 2 unfolding s
    by (intro accounted_same) (simp_all add: account_def live_def idle_def batched_simps fresh_def fresh_new_request Let_def)
  ultimately show ?thesis unfolding s by (simp add: isFetchNodes_def)
qed

lemma client_event_inv:
  assumes "client_inv cl" "client_event h e cl = Some cl'"
  shows "client_inv cl' \<and> accounted (never_logs_out h \<and> e \<noteq> Logout) cl cl'"
proof (cases e)
  case (Queue c)
  then show ?thesis using add_command_inv [OF assms(1), of c] assms(2) by auto
next
  case Send
  then show ?thesis using send_commands_inv [OF assms(1), of h] assms(2) by (auto split: if_splits)
next
  case (Fail reason)
  then show ?thesis using fail_commands_inv [OF assms(1), of reason] assms(2) by (auto split: if_splits)
next
  case (Response s)
  then show ?thesis using serverresponse_inv [OF assms(1), of h s cl'] assms(2) by (auto split: if_splits)
next
  case (ErrorResponse s)
  then show ?thesis using servererror_inv [OF assms(1), of h s cl'] assms(2) by (auto split: if_splits)
next
  case (Packet tag)
  then show ?thesis using sc_checkSequenceTag_inv [OF assms(1), of h tag] assms(2) by auto
next
  case Logout
  then show ?thesis using locallogout_inv [OF assms(1)] assms(2) by auto
next
  case ScsnReceived
  then show ?thesis using assms by (auto simp: client_inv_def sent_def idle_def held_def account_def intro!: accounted_same)
next
  case (Other w)
  then show ?thesis using assms by (auto simp: client_inv_def sent_def idle_def held_def account_def intro!: accounted_same)
qed

lemma client_run_inv:
  "client_run h es cl = Some cl' \<Longrightarrow> client_inv cl \<Longrightarrow> client_inv cl' \<and> accounted (never_logs_out h \<and> Logout \<notin> set es) cl cl'"
proof (induction es arbitrary: cl)
  case Nil
  then show ?case by (auto intro: accounted_same)
next
  case (Cons e es)
  then obtain b where b: "client_event h e cl = Some b" "client_run h es b = Some cl'" by (auto simp: bind_eq_Some_conv)
  note e = client_event_inv [OF Cons.prems(2) b(1)]
  note t = Cons.IH [OF b(2) e [THEN conjunct1]]
  have "accounted (never_logs_out h \<and> Logout \<notin> set (e # es)) cl b" "accounted (never_logs_out h \<and> Logout \<notin> set (e # es)) b cl'"
    by (rule accounted_mono [OF e [THEN conjunct2]], auto) (rule accounted_mono [OF t [THEN conjunct2]], auto)
  then show ?case using t accounted_trans by blast
qed

lemma new_client_inv: "client_inv (new_client i w)" "queued (new_client i w) = []" "account (new_client i w) = []"
  using fresh_new_request
  by (simp_all add: client_inv_def new_client_def new_dispatcher_def queue_ok_def idle_def account_def live_def batched_simps new_request_def)

section \<open>An error of the whole batch\<close>

text \<open>
  The contract of \<^verbatim>\<open>procresult\<close> for an error: the error has been read from the response already, so the command reads
  nothing more of it.
\<close>

definition error_contract :: "'w handlers \<Rightarrow> bool" where
  "error_contract h \<longleftrightarrow> (\<forall>c e p w. fst (procresult h c (CmdError, e) p w) \<longrightarrow> fst (snd (procresult h c (CmdError, e) p w)) = p)"

lemma decimal_negative: "n < 0 \<Longrightarrow> \<exists>d ds. decimal n = ch CHR ''-'' # d # ds \<and> ch CHR ''1'' \<le> d \<and> d \<le> ch CHR ''9''"
proof -
  assume "n < 0"
  have "\<exists>d ds. decimal_digits k = d # ds \<and> ch CHR ''1'' \<le> d \<and> d \<le> ch CHR ''9''" if "0 < k" for k
    using that
  proof (induction k rule: decimal_digits.induct)
    case (1 k)
    show ?case
    proof (cases "k < 10")
      case True
      then show ?thesis using "1.prems"
        by (simp add: decimal_digits.simps word_le_nat_alt unsigned_of_nat take_bit_eq_mod del: of_nat_add)
    next
      case False
      then obtain d ds where "decimal_digits (k div 10) = d # ds" "ch CHR ''1'' \<le> d" "d \<le> ch CHR ''9''" using 1 by force
      then show ?thesis using False by (subst decimal_digits.simps) simp
    qed
  qed
  then show ?thesis using \<open>n < 0\<close> by (simp add: decimal_def)
qed

lemma numeric_error:
  assumes "n < 0" "ends_number r" "pre = [] \<or> pre = [ch CHR '','']"
  shows "isNumericError (pre @ decimal n @ r) = (Some n, r)" "storeobject (pre @ decimal n @ r) = (True, Some (decimal n), r)"
    "after_comma (pre @ decimal n @ r) = decimal n @ r"
proof -
  obtain d ds where d: "decimal n = ch CHR ''-'' # d # ds" "ch CHR ''1'' \<le> d" "d \<le> ch CHR ''9''" using decimal_negative [OF assms(1)] by blast
  have v: "jvalue_ok (JNum (decimal n))" using num_ok_decimal by simp
  have st: "storeobject (decimal n @ r) = (True, Some (decimal n), r)" using storeobject_jprint [OF v assms(2)] by (simp add: jcontent_def)
  then show sp: "storeobject (pre @ decimal n @ r) = (True, Some (decimal n), r)"
    using assms(3) storeobject_comma [OF v, of r] by auto
  show "after_comma (pre @ decimal n @ r) = decimal n @ r" using assms(3) d(1) by (auto simp: after_comma_def)
  show "isNumericError (pre @ decimal n @ r) = (Some n, r)"
    using assms(3) d sp atoll_decimal [OF assms(2), of n] by (auto simp: isNumericError_def Let_def)
qed

lemma one_error:
  assumes "mid cl" "n < 0" "ends_number r" "pre = [] \<or> pre = [ch CHR '','']" "error_contract h"
  shows "\<exists>cl'. process_one h c (pre @ decimal n @ r) cl = Some (False, r, cl') \<and> (\<exists>wd. answered h c (CmdError, new_error n) (cl\<lparr>restag := cmd_tag c, rest := wd\<rparr>) cl')"
proof -
  let ?cl = "cl\<lparr>restag := cmd_tag c\<rparr>"
  note e = numeric_error [OF assms(2,3), of "[]", simplified] numeric_error [OF assms(2-4)]
  obtain d ds where d: "decimal n = ch CHR ''-'' # d # ds" using decimal_negative [OF assms(2)] by blast
  obtain wd where w: "error_effects h (Some (new_error n)) ?cl = ?cl\<lparr>rest := wd\<rparr>" by (rule exE [OF error_effects_client [of h "Some (new_error n)" ?cl]])
  obtain ok p' cl' where c: "call_procresult h c (CmdError, new_error n) r (?cl\<lparr>rest := wd\<rparr>) = (ok, p', cl')" by (metis prod_cases3)
  have p: "ok \<Longrightarrow> p' = r" using c assms(5) unfolding error_contract_def by (auto simp: call_procresult_def split: prod.splits) (metis fst_conv snd_conv)
  have "processCmdJSON h c True (decimal n @ r) ?cl = Some (ok, p', cl')" using e(1) w c by (simp add: processCmdJSON_def checkError_def Let_def)
  moreover have "enterarray (decimal n @ r) = (False, decimal n @ r)"
    using d by (simp add: enterarray_def after_separator_def)
  ultimately have "process_one h c (pre @ decimal n @ r) cl = Some (False, r, cl')"
    using e p d by (simp add: process_one_def Let_def)
  moreover have "answered h c (CmdError, new_error n) (?cl\<lparr>rest := wd\<rparr>) cl'" using answered_call [OF _ c] assms(1) by simp
  ultimately show ?thesis by auto
qed

text \<open>What is left of the response \<^verbatim>\<open>servererror\<close> makes up, when \<open>k\<close> commands are left.\<close>

definition errors_left :: "bytes \<Rightarrow> nat \<Rightarrow> bytes" where
  "errors_left e k = concat (replicate k (ch CHR '','' # e)) @ [ch CHR '']'']"

lemma commas_replicate: "commas (replicate (Suc k) e) @ [ch CHR '']''] = e @ errors_left e k"
  by (induction k) (simp_all add: errors_left_def)

lemma ends_number_errors_left: "ends_number (errors_left e k)"
  by (cases k) (simp_all add: errors_left_def ends_number_def in_number_def is_digit_char_def)

lemma error_turn:
  assumes "mid cl" "in_turn (inflight cl)" "\<not> stopProcessing (inflight cl)" "processindex (inflight cl) < length (cmds (inflight cl))" "mCurrentSeqtag cl = []"
    "n < 0" "ends_number r" "pre = [] \<or> pre = [ch CHR '','']" "error_contract h" "never_logs_out h"
  obtains cl1 where "process_loop h (pre @ decimal n @ r) cl = process_loop h r cl1" "mid cl1" "in_turn (inflight cl1)" "\<not> stopProcessing (inflight cl1)"
    "mCurrentSeqtag cl1 = []" "length (live (inflight cl1)) < length (live (inflight cl))"
    "handled cl1 @ map (\<lambda>c. (c, CmdError, new_error n)) (live (inflight cl1)) = handled cl @ map (\<lambda>c. (c, CmdError, new_error n)) (live (inflight cl))"
    "length (live (inflight cl)) = Suc (length (live (inflight cl1)))"
proof -
  let ?c = "the (cmds (inflight cl) ! processindex (inflight cl))" and ?p = "pre @ decimal n @ r"
  obtain cl' wd where o: "process_one h ?c ?p cl = Some (False, r, cl')" "answered h ?c (CmdError, new_error n) (cl\<lparr>restag := cmd_tag ?c, rest := wd\<rparr>) cl'"
    using one_error [OF assms(1,6-9)] by blast
  have h: "handled cl' = handled cl @ [(?c, CmdError, new_error n)]" using o(2) by (auto simp: answered_def did_def)
  obtain s where t: "mid (finish_command cl')" "mCurrentSeqtag (finish_command cl') = []" "inflight (finish_command cl') = next_turn s (inflight cl)"
      "in_turn (inflight (finish_command cl'))" "s = stopProcessing (inflight cl)"
    using turn [OF assms(1,2,4) _ o(1)] assms(5,10) by (auto simp: tag_due_def)
  have l: "live (inflight cl) = ?c # live (inflight (finish_command cl'))" using in_turn_next(2) [OF assms(2,4), of s] t(3) by simp
  show thesis
  proof (rule that [of "finish_command cl'"])
    show "process_loop h ?p cl = process_loop h r (finish_command cl')"
      by (subst process_loop.simps) (use assms(3,4) o(1) in \<open>simp add: Let_def\<close>)
    show "handled (finish_command cl') @ map (\<lambda>c. (c, CmdError, new_error n)) (live (inflight (finish_command cl'))) =
        handled cl @ map (\<lambda>c. (c, CmdError, new_error n)) (live (inflight cl))"
      unfolding l by (simp add: h finish_command_def client_ops)
  qed (use t l assms(3) in \<open>simp_all add: next_turn_def\<close>)
qed

lemma error_loop:
  assumes "mid cl" "in_turn (inflight cl)" "\<not> stopProcessing (inflight cl)" "mCurrentSeqtag cl = []" "n < 0" "error_contract h" "never_logs_out h"
  shows "\<exists>cl'. process_loop h (errors_left (decimal n) (length (live (inflight cl)))) cl = Some cl'
    \<and> handled cl' = handled cl @ map (\<lambda>c. (c, CmdError, new_error n)) (live (inflight cl)) \<and> cmds (inflight cl') = []"
  using assms
proof (induction "length (live (inflight cl))" arbitrary: cl)
  case 0
  then have "processindex (inflight cl) = length (cmds (inflight cl))" "live (inflight cl) = []" by (auto simp: live_def in_turn_def)
  then show ?case by (subst process_loop.simps) (simp add: client_ops req_clear_def Let_def)
next
  case (Suc k)
  then have i: "processindex (inflight cl) < length (cmds (inflight cl))" by (simp add: live_def)
  have p: "errors_left (decimal n) (length (live (inflight cl))) = [ch CHR '',''] @ decimal n @ errors_left (decimal n) k"
    by (simp add: Suc.hyps(2) [symmetric] errors_left_def)
  obtain cl1 where c: "process_loop h ([ch CHR '',''] @ decimal n @ errors_left (decimal n) k) cl = process_loop h (errors_left (decimal n) k) cl1"
      "mid cl1" "in_turn (inflight cl1)" "\<not> stopProcessing (inflight cl1)" "mCurrentSeqtag cl1 = []"
      "handled cl1 @ map (\<lambda>c. (c, CmdError, new_error n)) (live (inflight cl1)) = handled cl @ map (\<lambda>c. (c, CmdError, new_error n)) (live (inflight cl))"
      "length (live (inflight cl)) = Suc (length (live (inflight cl1)))"
    by (rule error_turn [OF Suc.prems(1-3) i Suc.prems(4,5) ends_number_errors_left, of "[ch CHR '','']" h "decimal n" k]) (use Suc.prems(6,7) in simp_all)
  show ?case using Suc.hyps(1) [of cl1] c Suc.hyps(2) Suc.prems(5-7) unfolding p c(1) by simp
qed

lemma servererror_handles_all:
  assumes "client_inv cl" "awaiting cl" "n < 0" "error_contract h" "never_logs_out h"
  shows "\<exists>cl'. servererror h (decimal n) cl = Some cl' \<and> cmds (inflight cl') = []
    \<and> handled cl' = handled cl @ map (\<lambda>c. (c, CmdError, new_error n)) (live (inflight cl))"
proof -
  note snt = awaiting_sent [OF assms(1,2)]
  let ?a = "on_reqs (\<lambda>d. d\<lparr>processing := True\<rparr>) cl"
  let ?b = "on_inflight (req_servererror (decimal n)) (check_assert (processindex (inflight ?a) = 0) ?a)"
  let ?c = "?b\<lparr>mTctableRequestCommitter := True\<rparr>"
  obtain k where k: "length (cmds (inflight cl)) = Suc k" using snt by (cases "cmds (inflight cl)") (auto simp: sent_def Let_def)
  have e: "decimal n \<noteq> []" "plain (decimal n)" using decimal_start plain_decimal by auto
  have "c_str (ch CHR ''['' # decimal n @ errors_left (decimal n) j) = ch CHR ''['' # decimal n @ errors_left (decimal n) j" for j
    using e(2) by (auto simp: c_str_def takeWhile_eq_all_conv plain_def list_all_iff errors_left_def)
  then have j: "json (inflight ?b) = Some (decimal n @ errors_left (decimal n) k)"
    using commas_replicate [of k "decimal n"] k
    by (simp add: client_ops req_servererror_def req_serverresponse_def enterarray_def after_separator_def)
  have m: "mid ?c" "in_turn (inflight ?c)" "\<not> stopProcessing (inflight ?c)" "processindex (inflight ?c) < length (cmds (inflight ?c))" "mCurrentSeqtag ?c = []"
    and l: "live (inflight ?c) = live (inflight cl)" "handled ?c = handled cl" "length (live (inflight cl)) = Suc k"
    using assms(1) snt k by (auto simp: client_ops req_servererror_def req_serverresponse_def client_inv_def sent_def mid_def in_turn_def live_def Let_def)
  obtain d where d: "process_loop h ([] @ decimal n @ errors_left (decimal n) k) ?c = process_loop h (errors_left (decimal n) k) d"
      "mid d" "in_turn (inflight d)" "\<not> stopProcessing (inflight d)" "mCurrentSeqtag d = []"
      "handled d @ map (\<lambda>c. (c, CmdError, new_error n)) (live (inflight d)) = handled cl @ map (\<lambda>c. (c, CmdError, new_error n)) (live (inflight cl))"
      "length (live (inflight d)) = k"
    by (rule error_turn [OF m assms(3) ends_number_errors_left, of "[]" h "decimal n" k]) (use assms(4,5) l in simp_all)
  obtain f where f: "process_loop h (errors_left (decimal n) k) d = Some f" "cmds (inflight f) = []"
      "handled f = handled cl @ map (\<lambda>c. (c, CmdError, new_error n)) (live (inflight cl))"
    using error_loop [OF d(2-5) assms(3-5)] unfolding d(6,7) by blast
  have "process h ?b = Some f" unfolding process_def j option.sel using d(1) f(1) by simp
  then have "servererror h (decimal n) cl = Some (on_reqs (\<lambda>d. let d' = d\<lparr>processing := False\<rparr> in if clearWhenSafe d' then disp_clear d' else d')
      (on_reqs (\<lambda>d. d\<lparr>inflightFailReason := RETRY_NONE\<rparr>) f))"
    by (simp add: servererror_def while_processing_def)
  then show ?thesis using f(2,3) by (simp add: on_reqs_def Let_def disp_clear_def req_clear_def)
qed

section \<open>Identifiers of batches\<close>

text \<open>The identifier as a number in base 26, its last letter the least significant.\<close>

fun letters_value :: "bytes \<Rightarrow> nat" where
  "letters_value [] = 0"
| "letters_value (c # cs) = (unat c - 97) + 26 * letters_value cs"

definition letters :: "bytes \<Rightarrow> bool" where
  "letters s \<longleftrightarrow> list_all (\<lambda>c. 97 \<le> unat c \<and> unat c \<le> 122) s"

lemma letters_value_bound: "letters s \<Longrightarrow> letters_value s < 26 ^ length s"
  by (induction s) (auto simp: letters_def)

lemma letter_step:
  assumes "97 \<le> unat (c :: byte)" "unat c \<le> 122"
  shows "(c <s ch CHR ''z'') = (unat c < 122)" "unat c < 122 \<Longrightarrow> unat (c + 1) = Suc (unat c)"
proof -
  have z: "sint (ch CHR ''z'') = 122" by simp
  have u: "uint c = int (unat c)" by simp
  then have "uint c < 128" using assms(2) by linarith
  from sint_ascii [OF this] show "(c <s ch CHR ''z'') = (unat c < 122)" using z u unfolding word_sless_alt by linarith
  assume "unat c < 122"
  then have "unat c + unat (1 :: byte) < 2 ^ LENGTH(8)" by simp
  then show "unat (c + 1) = Suc (unat c)" unfolding unat_add_lem by simp
qed

lemma inc_reversed_value:
  "letters s \<Longrightarrow> letters (inc_reversed s) \<and> length (inc_reversed s) = length s \<and> letters_value (inc_reversed s) = Suc (letters_value s) mod 26 ^ length s"
proof (induction s)
  case (Cons c s)
  then have c: "97 \<le> unat c" "unat c \<le> 122" and IH: "letters (inc_reversed s)" "length (inc_reversed s) = length s"
      "letters_value (inc_reversed s) = Suc (letters_value s) mod 26 ^ length s"
    by (auto simp: letters_def)
  show ?case
  proof (cases "unat c < 122")
    case True
    have "Suc (letters_value (c # s)) < 26 ^ length (c # s)" using letters_value_bound [of s] Cons.prems c True by (auto simp: letters_def)
    then show ?thesis using Cons.prems c True letter_step [OF c] by (auto simp: letters_def)
  next
    case False
    then have "unat c = 122" using c by simp
    then have "Suc (letters_value (c # s)) mod 26 ^ length (c # s) = 26 * (Suc (letters_value s) mod 26 ^ length s)"
      by (simp add: mult_mod_right)
    then show ?thesis using Cons.prems False IH letter_step [OF c] by (simp add: letters_def)
  qed
qed (simp add: letters_def)

lemma inc_reqid_value:
  assumes "letters s"
  shows "letters ((inc_reqid ^^ k) s) \<and> length ((inc_reqid ^^ k) s) = length s
    \<and> letters_value (rev ((inc_reqid ^^ k) s)) = (letters_value (rev s) + k) mod 26 ^ length s"
proof (induction k)
  case 0
  then show ?case using assms letters_value_bound [of "rev s"] by (simp add: letters_def)
next
  case (Suc k)
  let ?t = "(inc_reqid ^^ k) s"
  have "letters (rev ?t)" "length (rev ?t) = length s" "letters_value (rev ?t) = (letters_value (rev s) + k) mod 26 ^ length s"
    using Suc by (simp_all add: letters_def)
  moreover have "(inc_reqid ^^ Suc k) s = rev (inc_reversed (rev ?t))" by (simp add: inc_reqid_def)
  ultimately show ?case using inc_reversed_value [of "rev ?t"] by (simp add: letters_def mod_Suc_eq)
qed

lemma batch_ids_distinct:
  assumes "letters s" "j < k" "k < 26 ^ length s"
  shows "(inc_reqid ^^ j) s \<noteq> (inc_reqid ^^ k) s"
proof
  assume "(inc_reqid ^^ j) s = (inc_reqid ^^ k) s"
  then have "(letters_value (rev s) + j) mod 26 ^ length s = (letters_value (rev s) + k) mod 26 ^ length s"
    using inc_reqid_value [OF assms(1)] by metis
  then have "26 ^ length s dvd k - j" using assms(2) mod_eq_dvd_iff_nat [of "letters_value (rev s) + j" "letters_value (rev s) + k" "26 ^ length s"] by simp
  then show False using assms(2,3) by (auto dest: dvd_imp_le)
qed

section \<open>Retries\<close>

fun no_response :: "'w event \<Rightarrow> bool" where
  "no_response (Response s) = False"
| "no_response (ErrorResponse e) = False"
| "no_response Logout = False"
| "no_response e = True"

lemma no_response_event:
  assumes "client_inv cl" "sent cl" "no_response e" "client_event h e cl = Some cl'"
  shows "sent cl' \<and> inflight cl' = inflight cl"
proof (cases e)
  case Send
  then have r: "\<not> req_empty (inflight cl)" "inflightFailReason (reqs cl) \<noteq> RETRY_NONE" "cachedJSON (inflight cl) \<noteq> []"
    using assms(2,4) by (auto simp: sent_def req_empty_def readyToSend_def Let_def split: if_splits)
  show ?thesis using assms(2,4) serverrequest_retry [OF r] Send by (auto simp: send_commands_def check_assert_def sent_def split: if_splits)
next
  case (Packet tag)
  have t: "mCurrentSeqtag cl = []" using assms(2) by (simp add: sent_def Let_def)
  have "seqtag_loop h tag x = Some (\<not> cmdsInflight (reqs x), x)" if "mCurrentSeqtag x = []" for x :: "'a client"
    using that by (simp add: seqtag_loop.simps)
  then show ?thesis using assms(2,4) t Packet by (auto simp: sc_checkSequenceTag_def sent_def Let_def split: if_splits)
qed (use assms in \<open>auto simp: sent_def add_command_def fail_commands_def inflightFailure_def client_ops split: if_splits\<close>)

lemma no_response_run:
  "client_run h es cl = Some cl' \<Longrightarrow> list_all no_response es \<Longrightarrow> client_inv cl \<Longrightarrow> sent cl \<Longrightarrow> sent cl' \<and> client_inv cl' \<and> inflight cl' = inflight cl"
proof (induction es arbitrary: cl)
  case (Cons e es)
  then obtain b where b: "client_event h e cl = Some b" "client_run h es b = Some cl'" by (auto simp: bind_eq_Some_conv)
  then show ?case using Cons.IH [OF b(2)] no_response_event [OF Cons.prems(3,4) _ b(1)] client_event_inv [OF Cons.prems(3) b(1)] Cons.prems(2) by simp
qed simp

section \<open>Properties\<close>


definition sample_handlers :: "bytes handlers" where
  "sample_handlers = \<lparr>procresult = (\<lambda>c res p w. (True, p, w, [])), getJSON = (\<lambda>w c. w @ commandStr c), activateoverquota = id, businessExpired = id\<rparr>"

definition sample_command :: "nat \<Rightarrow> bool \<Rightarrow> command" where
  "sample_command n alone = \<lparr>cmd_ref = n, cmd_tag = 7, commandStr = asc ''ug'', batchSeparately = alone, mSeqtagArray = False, fetchNodes = False\<rparr>"

definition sample_run :: "bytes event list" where
  "sample_run = [Queue (sample_command 1 False), Queue (sample_command 2 True), Queue (sample_command 3 False), Send, Fail RETRY_CONNECTIVITY]"

definition sample_client :: "bytes client" where
  "sample_client = the (client_run sample_handlers sample_run (new_client (asc ''aaaaaaaaaa'') []))"

lemmas sample_defs = sample_run_def sample_handlers_def sample_command_def new_client_def new_dispatcher_def new_request_def add_command_def
  client_ops disp_add_def make_room_def on_back_def push_request_def req_add_def req_size_def req_empty_def MAX_COMMANDS_def readyToSend_def
  send_commands_def swap_asserts_def serverrequest_def req_swap_def req_get_def isFetchNodes_def awaiting_def fail_commands_def inflightFailure_def Let_def

lemma sample_client: "client_run sample_handlers sample_run (new_client (asc ''aaaaaaaaaa'') []) = Some sample_client"
proof -
  have "\<exists>cl. client_run sample_handlers sample_run (new_client (asc ''aaaaaaaaaa'') []) = Some cl"
    by (simp add: sample_defs batch_text_def)
  then show ?thesis unfolding sample_client_def by auto
qed


text \<open>
  C2: commands are handled in the order they were queued.  In every run the commands handled, followed by those in flight and by
  those waiting, are a subsequence of the commands queued, so that no command overtakes another or is handled twice; as long as the client
  does not log out, they are all of them: none is lost.
\<close>

theorem commands_in_order:
  assumes "client_run h es (new_client i w) = Some cl"
  shows "subseq (map fst (handled cl) @ live (inflightreq (reqs cl)) @ batched (nextreqs (reqs cl))) (queued cl)
    \<and> (never_logs_out h \<and> Logout \<notin> set es \<longrightarrow> map fst (handled cl) @ live (inflightreq (reqs cl)) @ batched (nextreqs (reqs cl)) = queued cl)"
  using client_run_inv [OF assms new_client_inv(1)] new_client_inv(2,3) [of i w] unfolding accounted_def account_def [symmetric] by auto

theorem commands_in_order_witness:
  "map fst (handled sample_client) @ live (inflightreq (reqs sample_client)) @ batched (nextreqs (reqs sample_client)) = queued sample_client
    \<and> sample_command 2 True \<in> set (queued sample_client)"
proof -
  have "never_logs_out sample_handlers" "Logout \<notin> set sample_run" by (simp_all add: never_logs_out_def sample_handlers_def sample_run_def)
  moreover have "sample_command 2 True \<in> set (queued sample_client)" unfolding sample_client_def by (simp add: sample_defs batch_text_def)
  ultimately show ?thesis using commands_in_order [OF sample_client] by blast
qed

text \<open>
  C12: a batch is retried unchanged.  However often sending fails, and whatever else happens to the client in the meantime short of
  a response or a logout, the text and the identifier sent again are those sent first, even if the commands would now give
  another text: the server can recognise the repetition.
\<close>

theorem retry_identical:
  assumes "client_run h es (new_client i w) = Some cl" "readyToSend (reqs cl)"
    "client_run h es' (snd (send_commands h cl)) = Some cl'" "list_all no_response es'" "readyToSend (reqs cl')"
  shows "fst (send_commands h cl') = fst (send_commands h cl)"
proof -
  have "client_inv cl" using client_run_inv [OF assms(1) new_client_inv(1)] by simp
  note a = send_commands_inv [OF this assms(2), of h True]
  have b: "sent cl' \<and> client_inv cl' \<and> inflight cl' = inflight (snd (send_commands h cl))"
    using no_response_run [OF assms(3,4)] a by blast
  then have "client_event h Send cl' = Some (snd (send_commands h cl'))" using assms(5) by simp
  then have "inflight (snd (send_commands h cl')) = inflight cl'" using no_response_event [of cl' Send h] b by auto
  then show ?thesis using a b send_commands_inv [OF _ assms(5), of h True] by auto
qed

theorem retry_identical_witness:
  "let cl = the (client_run sample_handlers (take 3 sample_run) (new_client (asc ''aaaaaaaaaa'') []));
       cl' = the (client_run sample_handlers [Fail RETRY_CONNECTIVITY, Other (asc ''x''), Queue (sample_command 4 False)] (snd (send_commands sample_handlers cl)))
   in fst (send_commands sample_handlers cl') = fst (send_commands sample_handlers cl)"
proof -
  let ?cl = "the (client_run sample_handlers (take 3 sample_run) (new_client (asc ''aaaaaaaaaa'') []))"
  let ?es = "[Fail RETRY_CONNECTIVITY, Other (asc ''x''), Queue (sample_command 4 False)]"
  let ?cl' = "the (client_run sample_handlers ?es (snd (send_commands sample_handlers ?cl)))"
  have "client_run sample_handlers (take 3 sample_run) (new_client (asc ''aaaaaaaaaa'') []) = Some ?cl" "readyToSend (reqs ?cl)"
    "client_run sample_handlers ?es (snd (send_commands sample_handlers ?cl)) = Some ?cl'" "readyToSend (reqs ?cl')"
    by (simp_all add: sample_defs batch_text_def)
  from retry_identical [OF this(1-3) _ this(4)] show ?thesis by (simp add: Let_def)
qed

text \<open>
  Identifiers of batches do not repeat.  Each new batch is sent under the next identifier in the order of the letters,
  and the first \<open>26 ^ n\<close> of them, \<open>n\<close> the length, are different.
\<close>

theorem batch_identifiers:
  assumes "letters s" "j < k" "k < 26 ^ length s"
  shows "(inc_reqid ^^ j) s \<noteq> (inc_reqid ^^ k) s
    \<and> (cachedJSON r = [] \<longrightarrow> snd (fst (req_get text ((inc_reqid ^^ j) s) r)) = (inc_reqid ^^ Suc j) s)"
  using batch_ids_distinct [OF assms] by (simp add: req_get_def Let_def)

theorem batch_identifiers_witness:
  "(inc_reqid ^^ 1) (asc ''azz'') \<noteq> (inc_reqid ^^ 700) (asc ''azz'')
    \<and> snd (fst (req_get (\<lambda>c. []) ((inc_reqid ^^ 1) (asc ''azz'')) new_request)) = (inc_reqid ^^ Suc 1) (asc ''azz'')"
proof -
  have "letters (asc ''azz'')" "(1 :: nat) < 700" "700 < (26 :: nat) ^ length (asc ''azz'')" "cachedJSON new_request = []"
    by (simp_all add: letters_def new_request_def)
  then show ?thesis using batch_identifiers [of "asc ''azz''" 1 700 new_request "\<lambda>c. []"] by blast
qed



end
