(* ===== verification/Mega_Attrs.thy ===== *)
theory Mega_Attrs
  imports Mega_Json Mega_Serialize Mega_Containers
begin

text \<open>
  Node attributes: \<^verbatim>\<open>AttrMap\<close> of \<^verbatim>\<open>src/attrmap.cpp\<close> and \<^verbatim>\<open>include/mega/attrmap.h\<close>.  The attributes are a
  \<^verbatim>\<open>std::map\<close> from name identifiers (up to eight characters packed into an integer) to values of any bytes.  They are
  stored in the local cache in a binary format and sent to the servers as JSON, and updates of nested fields pass through JSON
  again.  The lemmas: both formats are read back as they were written, for every value whatever its bytes, and what
  updating does to each attribute.
\<close>

type_synonym attrs = "(u64, bytes) smap"

section \<open>Names\<close>

definition nameid2string :: "u64 \<Rightarrow> bytes" where
  "nameid2string i = filter (\<lambda>c. c \<noteq> 0) (map (\<lambda>n. ucast (drop_bit n i AND 0xff)) [56, 48, 40, 32, 24, 16, 8, 0])"

definition string2nameid :: "bytes \<Rightarrow> u64" where
  "string2nameid n = makeNameid n"

text \<open>The loop of \<^verbatim>\<open>unserialize\<close>, on unsigned characters.\<close>

definition name_bytes_id :: "bytes \<Rightarrow> u64" where
  "name_bytes_id n = foldl (\<lambda>i c. push_bit 8 i + ucast c) 0 n"

section \<open>Lookup and updates\<close>

definition storagesize :: "int \<Rightarrow> attrs \<Rightarrow> u32" where
  "storagesize perrecord m = foldl (\<lambda>t (i, v). t + (word_of_int perrecord + of_nat (length v))) 0 m"

definition getString :: "bytes \<Rightarrow> attrs \<Rightarrow> bytes option" where
  "getString name m = map_find m (string2nameid name)"

definition getBool :: "bytes \<Rightarrow> attrs \<Rightarrow> bool" where
  "getBool name m \<longleftrightarrow> map_find m (string2nameid name) = Some (asc ''1'')"

definition hasUpdate :: "u64 \<Rightarrow> attrs \<Rightarrow> attrs \<Rightarrow> bool" where
  "hasUpdate attrId updates m \<longleftrightarrow>
    (case map_find updates attrId of
       None \<Rightarrow> False
     | Some u \<Rightarrow> case map_find m attrId of None \<Rightarrow> u \<noteq> [] | Some v \<Rightarrow> v \<noteq> u)"

definition hasDifferentValue :: "u64 \<Rightarrow> attrs \<Rightarrow> attrs \<Rightarrow> bool" where
  "hasDifferentValue attrId other m \<longleftrightarrow>
    (case (map_find m attrId, map_find other attrId) of
       (Some v, None) \<Rightarrow> True
     | (None, Some u) \<Rightarrow> True
     | (Some v, Some u) \<Rightarrow> v \<noteq> u
     | (None, None) \<Rightarrow> False)"

definition removeEmptyValues :: "attrs \<Rightarrow> attrs" where
  "removeEmptyValues m = filter (\<lambda>(i, v). v \<noteq> []) m"

definition applyUpdates :: "attrs \<Rightarrow> attrs \<Rightarrow> attrs" where
  "applyUpdates updates m = foldl (\<lambda>m (i, v). if v = [] then map_erase i m else map_set i v m) m updates"

section \<open>Binary format\<close>

definition put_attr :: "u64 \<times> bytes \<Rightarrow> bytes" where
  "put_attr e =
    (let n = nameid2string (fst e); l = (of_nat (length n) :: byte); ll = (of_nat (length (snd e)) :: u16)
     in if l \<noteq> 0 then l # n @ le_bytes 2 ll @ take (unat ll) (snd e) else [])"

definition attr_serialize :: "bytes \<Rightarrow> attrs \<Rightarrow> bytes" where
  "attr_serialize d m = d @ concat (map put_attr m) @ [0]"

text \<open>The attributes after reading, and the rest of the input, or nothing when it is cut short.\<close>

function attr_unserialize :: "attrs \<Rightarrow> bytes \<Rightarrow> attrs \<times> bytes option" where
  "attr_unserialize m [] = (m, Some [])"
| "attr_unserialize m (l # p) =
    (if l = 0 then (m, Some p)
     else if length p < unat l + 2 then (m, None)
     else let i = name_bytes_id (take (unat l) p); ll = (le_word (take 2 (drop (unat l) p)) :: u16); q = drop (unat l + 2) p in
       if length q < unat ll then (m, None) else attr_unserialize (map_set i (take (unat ll) q) m) (drop (unat ll) q))"
  by pat_completeness auto
termination
  by (relation "measure (\<lambda>(m, p). length p)") auto

section \<open>JSON\<close>

definition escape_byte :: "byte \<Rightarrow> bytes" where
  "escape_byte c =
    (if c < 32 \<or> c = ch CHR 0x22 \<or> c = ch CHR 0x5C then
       ch CHR 0x5C #
         (if c = ch CHR 0x22 then [ch CHR 0x22]
          else if c = ch CHR 0x5C then [ch CHR 0x5C]
          else if c = 10 then asc ''n''
          else if c = 13 then asc ''r''
          else if c = 8 then asc ''b''
          else if c = 12 then asc ''f''
          else if c = 9 then asc ''t''
          else asc ''u00'' @ [lchex (drop_bit 4 c), lchex (c AND 0xf)])
     else [c])"

definition attr_escape :: "bytes \<Rightarrow> bytes" where
  "attr_escape v = concat (map escape_byte v)"

definition member_text :: "u64 \<Rightarrow> bytes \<Rightarrow> bytes" where
  "member_text i v = nameid2string i @ asc [CHR 0x22, CHR '':'', CHR 0x22] @ v @ [ch CHR 0x22]"

definition getjson :: "attrs \<Rightarrow> bytes" where
  "getjson m =
    foldl (\<lambda>s (i, v).
      let s1 = s @ (if s \<noteq> [] then asc [CHR '','', CHR 0x22] else asc [CHR 0x22])
      in if i \<noteq> 0 then s1 @ member_text i (attr_escape v) else s1) [] m"

definition getJsonObject :: "attrs \<Rightarrow> bytes" where
  "getJsonObject m =
    (let r = ch CHR ''{'' # concat (map (\<lambda>(i, v). ch CHR 0x22 # member_text i v @ asc '','') m)
     in butlast r @ (if m \<noteq> [] then asc ''}'' else []))"

lemma member_skipped:
  assumes "(name, pos1) = getnameid pos" "name \<noteq> 0"
  shows "storeobject pos1 = (ok, v, pos2) \<Longrightarrow> length pos2 < length pos" "(ok, v, pos2) = storeobject pos1 \<Longrightarrow> length pos2 < length pos"
  using member_shorter(2) [OF assms] by (auto dest: sym)

function fromjson_loop :: "attrs \<Rightarrow> bytes \<Rightarrow> attrs" where
  "fromjson_loop m pos =
    (let (name, pos1) = getnameid pos in
     if name = 0 then m
     else case storeobject pos1 of (ok, v, pos2) \<Rightarrow>
       if ok then fromjson_loop (map_set name (unescape (the v)) m) pos2 else map_update name [] (\<lambda>v. v) m)"
  by pat_completeness auto
termination
  by (relation "measure (\<lambda>(m, pos). length pos)") (auto dest: member_skipped)

declare fromjson_loop.simps [simp del]

definition fromjson :: "bytes option \<Rightarrow> attrs \<Rightarrow> attrs" where
  "fromjson buf m = (case buf of None \<Rightarrow> m | Some b \<Rightarrow> fromjson_loop m (c_str b))"

text \<open>The members of an object and the position at its end, or nothing when a value cannot be read.\<close>

function object_loop :: "attrs \<Rightarrow> bytes \<Rightarrow> (attrs \<times> bytes) option" where
  "object_loop m pos =
    (let (name, pos1) = getnameid pos in
     if name = 0 then Some (m, pos1)
     else case storeobject pos1 of (ok, v, pos2) \<Rightarrow> if ok then object_loop (map_set name (the v) m) pos2 else None)"
  by pat_completeness auto
termination
  by (relation "measure (\<lambda>(m, pos). length pos)") (auto dest: member_skipped)

declare object_loop.simps [simp del]

text \<open>The whole is nothing when leaving the object does not end.\<close>

definition fromjsonObject :: "bytes \<Rightarrow> attrs option" where
  "fromjsonObject buf =
    (let (ok, pos) = enterobject (c_str buf) in
     if \<not> ok then Some []
     else case object_loop [] pos of
       None \<Rightarrow> Some []
     | Some (m, pos1) \<Rightarrow> map_option (\<lambda>(left, _). if left then m else []) (leaveobject pos1))"

text \<open>The text of the member \<open>childId\<close> up to the first closing brace.\<close>

function find_child :: "u64 \<Rightarrow> bytes \<Rightarrow> attrs" where
  "find_child childId pos =
    (let (name, pos1) = getnameid pos in
     if name = 0 then []
     else if name \<noteq> childId then find_child childId (snd (snd (storeobject pos1)))
     else let t = takeWhile (\<lambda>c. c \<noteq> ch CHR ''}'') pos1
       in if length t = length pos1 then [] else [(name, t @ asc ''}'')])"
  by pat_completeness auto
termination
  by (relation "measure (\<lambda>(i, pos). length pos)") (auto dest: member_shorter(2))

declare find_child.simps [simp del]

definition getComplexNestedJsonObject :: "bytes \<Rightarrow> bytes \<Rightarrow> attrs \<Rightarrow> attrs option" where
  "getComplexNestedJsonObject parentName childName m =
    (case map_find m (string2nameid parentName) of
       None \<Rightarrow> None
     | Some v \<Rightarrow> let aux = find_child (string2nameid childName) v in if aux = [] then None else Some aux)"

definition getNestedJsonObject :: "bytes \<Rightarrow> attrs \<Rightarrow> attrs option" where
  "getNestedJsonObject name m = map_option (\<lambda>v. fromjson (Some v) []) (map_find m (string2nameid name))"

text \<open>The new text of a nested field, if the updates change it.\<close>

definition nestedFieldFinalStr :: "attrs \<Rightarrow> attrs \<Rightarrow> bytes \<Rightarrow> bytes option option" where
  "nestedFieldFinalStr updates m field =
    (let nameId = string2nameid field in
     if \<not> hasUpdate nameId updates m \<or> (case getString field updates of None \<Rightarrow> [] | Some u \<Rightarrow> u) = [] then Some None
     else Option.bind (fromjsonObject (the (map_find updates nameId))) (\<lambda>upd.
       Option.bind (case map_find m nameId of None \<Rightarrow> Some [] | Some v \<Rightarrow> fromjsonObject v) (\<lambda>current.
         Some (Some (getJsonObject (applyUpdates upd current))))))"

fun final_strs :: "attrs \<Rightarrow> attrs \<Rightarrow> bytes list \<Rightarrow> bytes option list option" where
  "final_strs updates m [] = Some []"
| "final_strs updates m (k # ks) =
    Option.bind (nestedFieldFinalStr updates m k) (\<lambda>s. map_option (\<lambda>r. s # r) (final_strs updates m ks))"

definition applyUpdatesWithNestedFields :: "attrs \<Rightarrow> bytes list \<Rightarrow> attrs \<Rightarrow> attrs option" where
  "applyUpdatesWithNestedFields updates nestedFieldKeys m =
    map_option (\<lambda>fs. foldl (\<lambda>m (k, f). case f of None \<Rightarrow> m | Some s \<Rightarrow> map_set (string2nameid k) s m) (applyUpdates updates m) (zip nestedFieldKeys fs))
      (final_strs updates m nestedFieldKeys)"

section \<open>Names are read back\<close>

lemma name_bytes_id_rev: "name_bytes_id n = le_word (rev n)"
  by (induction n rule: rev_induct) (simp_all add: name_bytes_id_def le_word_Cons_add del: le_word.simps(2))

lemma nameid2string_bytes: "nameid2string i = filter (\<lambda>c. c \<noteq> 0) (rev (le_bytes 8 i))"
proof -
  have "w AND 0xff = take_bit 8 w" for w :: u64 by (simp add: take_bit_eq_mask mask_eq_exp_minus_1)
  then have m: "ucast (w AND 0xff :: u64) = (ucast w :: byte)" for w by (intro bit_word_eqI) (simp add: bit_simps)
  show ?thesis by (simp add: nameid2string_def m numeral_eq_Suc)
qed

text \<open>The identifiers that stand for a name: no zero byte inside.\<close>

definition name_ok :: "u64 \<Rightarrow> bool" where
  "name_ok i \<longleftrightarrow> i \<noteq> 0 \<and> name_bytes_id (nameid2string i) = i"

lemma name_ok_name: "n \<noteq> [] \<Longrightarrow> length n \<le> 8 \<Longrightarrow> 0 \<notin> set n \<Longrightarrow> nameid2string (name_bytes_id n) = n \<and> name_ok (name_bytes_id n)"
proof -
  assume n: "n \<noteq> []" "length n \<le> 8" "0 \<notin> set n"
  let ?r = "rev n @ replicate (8 - length n) 0"
  have z: "le_word (xs @ replicate k 0) = (le_word xs :: u64)" for xs k
    by (induction xs) (simp_all, induction k, simp_all)
  have "le_bytes (length ?r) (le_word ?r :: u64) = ?r" by (rule le_bytes_le_word) (use n in simp)
  then have "le_bytes 8 (name_bytes_id n) = ?r" using n(2) by (simp add: name_bytes_id_rev z)
  then have e: "nameid2string (name_bytes_id n) = n" using n(3) by (simp add: nameid2string_bytes filter_id_conv) (metis filter_id_conv)
  have "le_bytes 8 (0 :: u64) = replicate 8 0" by (simp add: numeral_eq_Suc)
  then have "name_bytes_id n \<noteq> 0" using e n(1) by (auto simp: nameid2string_bytes)
  then show ?thesis using e by (simp add: name_ok_def)
qed

lemma name_ok_bytes:
  assumes "name_ok i"
  shows "nameid2string i \<noteq> []" "length (nameid2string i) \<le> 8" "0 \<notin> set (nameid2string i)" "name_bytes_id (nameid2string i) = i"
  using assms length_filter_le [of "\<lambda>c. c \<noteq> 0" "rev (le_bytes 8 i)"]
  by (auto simp: name_ok_def nameid2string_bytes name_bytes_id_def)

section \<open>The binary format is read back\<close>

lemma attr_unserialize_put:
  assumes "name_ok i" "length v < 2 ^ 16"
  shows "attr_unserialize m (put_attr (i, v) @ r) = attr_unserialize (map_set i v m) r"
proof -
  let ?n = "nameid2string i"
  note n = name_ok_bytes [OF assms(1)]
  have l: "unat (of_nat (length ?n) :: byte) = length ?n" by (subst unat_of_nat) (use n(2) in simp)
  moreover have "length ?n > 0" using n(1) by simp
  ultimately have z: "(of_nat (length ?n) :: byte) \<noteq> 0" by (metis less_irrefl unsigned_0)
  have v: "unat (of_nat (length v) :: u16) = length v" by (subst unat_of_nat) (use assms(2) in simp)
  have "le_word (le_bytes 2 (of_nat (length v) :: u16)) = (of_nat (length v) :: u16)" by (rule le_word_le_bytes_full) simp
  then show ?thesis using l z v n(4) by (simp add: put_attr_def Let_def)
qed

lemma attr_unserialize_all:
  "list_all (\<lambda>(i, v). name_ok i \<and> length v < 2 ^ 16) es \<Longrightarrow>
   attr_unserialize m (concat (map put_attr es) @ 0 # r) = (fold (\<lambda>(k, v). map_set k v) es m, Some r)"
  by (induction es arbitrary: m) (auto simp: attr_unserialize_put split: prod.splits)

section \<open>JSON is read back\<close>

lemma escape_byte_low: "c < 128 \<Longrightarrow> escape_byte c = escape_char (uint c) c"
  by (auto simp: escape_byte_def escape_char_def word_less_def word_uint_eq_iff)

lemma escape_byte_high: "128 \<le> c \<Longrightarrow> escape_byte c = [c]"
  by (auto simp: escape_byte_def word_less_nat_alt word_le_nat_alt)

lemma unescape_escape_byte: "unescape (escape_byte c @ s) = c # unescape s"
proof (cases "c < 128")
  case True
  then show ?thesis by (simp add: escape_byte_low unescape_escape_char)
next
  case False
  then have "128 \<le> c" by simp
  then have "escape_byte c = [c]" "c \<noteq> ch CHR 0x5C" by (auto simp: escape_byte_high)
  then show ?thesis by (simp add: unescape_plain)
qed

lemma unescape_attr_escape: "unescape (attr_escape v) = v"
  by (induction v) (simp_all add: attr_escape_def unescape_escape_byte, simp add: unescape.simps)

lemma lchex_plain: "plain [lchex (drop_bit 4 c), lchex (c AND 0xf)]"
proof -
  have "drop_bit 4 c = take_bit 4 (drop_bit 4 c)" by (rule bit_word_eqI) (auto simp: bit_simps dest: bit_imp_le_length)
  moreover have "c AND 0xf = take_bit 4 c" by (simp add: take_bit_eq_mask mask_eq_exp_minus_1)
  ultimately have "ishex (lchex (drop_bit 4 c))" "ishex (lchex (c AND 0xf))" using hex_digit by metis+
  then show ?thesis by (auto simp: plain_def ishex_def is_digit_char_def)
qed

lemma scan_string_plain: "plain p \<Longrightarrow> scan_string False (p @ s) = scan_string False s"
  by (induction p) (simp_all add: plain_def)

lemma scan_escape_byte: "scan_string False (escape_byte c @ s) = scan_string False s \<and> 0 \<notin> set (escape_byte c)"
proof (cases "c < 32 \<and> c \<notin> {8, 9, 10, 12, 13}")
  case True
  then have "escape_byte c = ch CHR 0x5C # ch CHR ''u'' # (asc ''00'' @ [lchex (drop_bit 4 c), lchex (c AND 0xf)])" by (auto simp: escape_byte_def)
  moreover have "plain (asc ''00'' @ [lchex (drop_bit 4 c), lchex (c AND 0xf)])" using lchex_plain [of c] by (simp add: plain_def)
  ultimately show ?thesis using scan_string_plain [of "asc ''00'' @ [lchex (drop_bit 4 c), lchex (c AND 0xf)]" s] by (auto simp: plain_def)
next
  case False
  then show ?thesis by (auto simp: escape_byte_def)
qed

lemma scan_attr_escape: "scan_string False (attr_escape v @ s) = scan_string False s \<and> 0 \<notin> set (attr_escape v)"
  by (induction v) (simp_all add: attr_escape_def scan_escape_byte)

lemma str_ok_attr_escape: "str_ok (attr_escape v)"
  by (simp add: str_ok_def scan_attr_escape)

text \<open>Names that can stand in a JSON text: of ASCII characters other than the quote and the backslash.\<close>

definition json_name_ok :: "u64 \<Rightarrow> bool" where
  "json_name_ok i \<longleftrightarrow> name_ok i \<and> plain (nameid2string i) \<and> list_all (\<lambda>c. c < 128) (nameid2string i)"

lemma nameid_of_name: "plain n \<Longrightarrow> list_all (\<lambda>c. c < 128) n \<Longrightarrow> fst (nameid_of i n) = foldl (\<lambda>i c. push_bit 8 i + ucast c) i n"
proof (induction n arbitrary: i)
  case (Cons c n)
  then have "(scast c :: u64) = ucast c" by (intro scast_ascii) (simp add: word_less_def)
  then show ?case using Cons by (simp add: plain_def)
qed simp

text \<open>A member as it is written, and what reading it gives.\<close>

definition member_json :: "u64 \<Rightarrow> bytes \<Rightarrow> bytes" where
  "member_json i v = ch CHR 0x22 # member_text i v"

lemma read_member_json:
  assumes "json_name_ok i" "str_ok v" "ends_number r" "pre = [] \<or> pre = [ch CHR '','']"
  shows "getnameid (pre @ member_json i v @ r) = (i, quote_str v @ r)" "storeobject (quote_str v @ r) = (True, Some v, r)"
proof -
  have n: "plain (nameid2string i)" "fst (nameid_of 0 (nameid2string i)) = i"
    using assms(1) nameid_of_name [of "nameid2string i" 0] by (simp_all add: json_name_ok_def name_ok_def name_bytes_id_def)
  have "member_json i v @ r = named (nameid2string i) @ quote_str v @ r"
    using c_str_plain [OF n(1)] by (simp add: member_json_def member_text_def named_def quote_str_def)
  then show "getnameid (pre @ member_json i v @ r) = (i, quote_str v @ r)"
    using getnameid_named [OF n(1) _ _ assms(4), of "quote_str v @ r"] n(2) by (simp add: quote_str_def)
  show "storeobject (quote_str v @ r) = (True, Some v, r)" using storeobject_jprint [of "JStr v" r] assms(2,3) by (simp add: jcontent_def)
qed

text \<open>The members after the first, with what ends the text.\<close>

definition members_left :: "bytes \<Rightarrow> attrs \<Rightarrow> bytes" where
  "members_left e m = concat (map (\<lambda>(i, v). ch CHR '','' # member_json i v) m) @ e"

lemma members_left_simps: "members_left e [] = e" "members_left e ((i, v) # m) = [ch CHR '',''] @ member_json i v @ members_left e m"
  by (simp_all add: members_left_def)

lemma ends_members_left: "ends_number e \<Longrightarrow> ends_number (members_left e m)"
  by (cases m) (auto simp: members_left_def ends_number_def in_number_def is_digit_char_def)

lemma getjson_members:
  assumes "list_all (\<lambda>(i, v). i \<noteq> 0) m"
  shows "getjson m = (case m of [] \<Rightarrow> [] | (i, v) # m' \<Rightarrow> member_json i (attr_escape v) @ members_left [] (map (\<lambda>(i, v). (i, attr_escape v)) m'))"
proof -
  have "foldl (\<lambda>s (i, v). let s1 = s @ (if s \<noteq> [] then asc [CHR '','', CHR 0x22] else asc [CHR 0x22])
      in if i \<noteq> 0 then s1 @ member_text i (attr_escape v) else s1) s m = s @ members_left [] (map (\<lambda>(i, v). (i, attr_escape v)) m)"
    if "s \<noteq> []" "list_all (\<lambda>(i, v). i \<noteq> 0) m" for s and m :: attrs
    using that by (induction m arbitrary: s) (auto simp: members_left_def member_json_def Let_def)
  then show ?thesis using assms by (cases m) (auto simp: getjson_def member_json_def Let_def)
qed

lemma fromjson_loop_member:
  assumes "json_name_ok i" "str_ok v" "ends_number r" "pre = [] \<or> pre = [ch CHR '','']"
  shows "fromjson_loop m (pre @ member_json i v @ r) = fromjson_loop (map_set i (unescape v) m) r"
  using read_member_json [OF assms] assms(1) by (simp add: fromjson_loop.simps [of m "pre @ member_json i v @ r"] json_name_ok_def name_ok_def)

lemma fromjson_loop_end: "fromjson_loop m [] = m"
proof -
  have "getnameid [] = (0, [])" by (simp add: getnameid_def getNameidSkipNull.simps read_nameid_def after_separator_def)
  then show ?thesis by (simp add: fromjson_loop.simps)
qed

lemma fromjson_loop_members:
  "list_all (\<lambda>(i, v). json_name_ok i) es \<Longrightarrow>
   fromjson_loop m (members_left [] (map (\<lambda>(i, v). (i, attr_escape v)) es)) = fold (\<lambda>(k, v). map_set k v) es m"
proof (induction es arbitrary: m)
  case (Cons e es)
  obtain i v where e: "e = (i, v)" by (cases e)
  have "ends_number (members_left [] (map (\<lambda>(i, v). (i, attr_escape v)) es))" by (rule ends_members_left) (simp add: ends_number_def)
  from fromjson_loop_member [OF _ str_ok_attr_escape [of v] this, of i "[ch CHR '','']"] show ?case
    using Cons by (simp add: e members_left_simps unescape_attr_escape)
qed (simp add: members_left_def fromjson_loop_end)

lemma no_nul_members: "list_all (\<lambda>(i, v). json_name_ok i \<and> 0 \<notin> set v) m \<Longrightarrow> 0 \<notin> set e \<Longrightarrow> 0 \<notin> set (members_left e m)"
  by (induction m) (auto simp: members_left_def member_json_def member_text_def json_name_ok_def dest: name_ok_bytes(3))

lemma c_str_id: "0 \<notin> set s \<Longrightarrow> c_str s = s"
  by (auto simp: c_str_def takeWhile_eq_all_conv)

lemma no_nul_member: "json_name_ok i \<Longrightarrow> 0 \<notin> set v \<Longrightarrow> 0 \<notin> set (member_json i v)"
  by (auto simp: member_json_def member_text_def json_name_ok_def dest: name_ok_bytes(3))

lemma fromjson_getjson:
  assumes "map_wf m" "list_all (\<lambda>(i, v). json_name_ok i) m"
  shows "fromjson (Some (getjson m)) [] = m"
proof (cases m)
  case Nil
  then show ?thesis by (simp add: fromjson_def getjson_def c_str_def fromjson_loop_end)
next
  case (Cons e es)
  obtain i v where e: "e = (i, v)" by (cases e)
  let ?es = "map (\<lambda>(i, v). (i, attr_escape v)) es"
  have n: "json_name_ok i" "list_all (\<lambda>(i, v). json_name_ok i) es" "list_all (\<lambda>(i, v). i \<noteq> 0) m"
    using assms(2) Cons e by (auto simp: list_all_iff json_name_ok_def name_ok_def)
  have g: "getjson m = member_json i (attr_escape v) @ members_left [] ?es" using getjson_members [OF n(3)] Cons e by simp
  have "0 \<notin> set (members_left [] ?es)" by (rule no_nul_members) (use n(2) scan_attr_escape in \<open>auto simp: list_all_iff\<close>)
  then have "c_str (getjson m) = getjson m" using no_nul_member [OF n(1)] scan_attr_escape [of v] unfolding g by (intro c_str_id) auto
  moreover have "ends_number (members_left [] ?es)" by (rule ends_members_left) (simp add: ends_number_def)
  from fromjson_loop_member [OF n(1) str_ok_attr_escape [of v] this, of "[]" "[]"]
  have "fromjson_loop [] (getjson m) = fold (\<lambda>(k, v). map_set k v) es (map_set i v [])"
    unfolding g using fromjson_loop_members [OF n(2)] by (simp add: unescape_attr_escape)
  moreover have "fold (\<lambda>(k, v). map_set k v) es (map_set i v []) = m" using map_rebuild [OF assms(1)] Cons e by simp
  ultimately show ?thesis by (simp add: fromjson_def)
qed

section \<open>Objects are read back\<close>

lemma object_loop_member:
  assumes "json_name_ok i" "str_ok v" "ends_number r" "pre = [] \<or> pre = [ch CHR '','']"
  shows "object_loop m (pre @ member_json i v @ r) = object_loop (map_set i v m) r"
  using read_member_json [OF assms] assms(1) by (simp add: object_loop.simps [of m "pre @ member_json i v @ r"] json_name_ok_def name_ok_def)

lemma object_end: "object_loop m (asc ''}'') = Some (m, asc ''}'')" "leaveobject (asc ''}'') = Some (True, [])" "ends_number (asc ''}'')"
proof -
  have "getnameid (asc ''}'') = (0, asc ''}'')" by (simp add: getnameid_def getNameidSkipNull.simps read_nameid_def after_separator_def)
  then show "object_loop m (asc ''}'') = Some (m, asc ''}'')" by (simp add: object_loop.simps)
  show "leaveobject (asc ''}'') = Some (True, [])" by (simp add: leaveobject.simps is_digit_char_def)
qed (simp add: ends_number_def in_number_def is_digit_char_def)

lemma object_loop_members:
  "list_all (\<lambda>(i, v). json_name_ok i \<and> str_ok v) es \<Longrightarrow>
   object_loop m (members_left (asc ''}'') es) = Some (fold (\<lambda>(k, v). map_set k v) es m, asc ''}'')"
proof (induction es arbitrary: m)
  case (Cons e es)
  obtain i v where e: "e = (i, v)" by (cases e)
  from object_loop_member [OF _ _ ends_members_left [OF object_end(3), of es], of i v "[ch CHR '','']"] show ?case
    using Cons by (simp add: e members_left_simps del: list.map)
next
  case Nil
  then show ?case using object_end(1) by (simp add: members_left_simps(1) del: list.map)
qed

lemma str_ok_no_nul: "str_ok v \<Longrightarrow> 0 \<notin> set v"
proof -
  have "scan_string e (v @ [ch CHR 0x22]) = Some [ch CHR 0x22] \<Longrightarrow> 0 \<notin> set v" for e
    by (induction v arbitrary: e) (auto split: if_splits)
  then show "str_ok v \<Longrightarrow> 0 \<notin> set v" by (auto simp: str_ok_def)
qed

lemma getJsonObject_members:
  "getJsonObject ((i, v) # m) = ch CHR ''{'' # member_json i v @ members_left (asc ''}'') m"
proof -
  have c: "concat (map (\<lambda>(i, v). ch CHR 0x22 # member_text i v @ asc '','') ((i, v) # m)) = member_json i v @ members_left [] m @ asc '',''" for i v
    by (induction m arbitrary: i v) (auto simp: members_left_def member_json_def)
  have "butlast (ch CHR ''{'' # member_json i v @ members_left [] m @ asc '','') = ch CHR ''{'' # member_json i v @ members_left [] m"
    by (simp add: butlast_append)
  then show ?thesis unfolding getJsonObject_def Let_def c by (simp add: members_left_def)
qed

definition object_ok :: "attrs \<Rightarrow> bool" where
  "object_ok m \<longleftrightarrow> map_wf m \<and> list_all (\<lambda>(i, v). json_name_ok i \<and> str_ok v) m"

lemma fromjsonObject_getJsonObject:
  assumes "object_ok m"
  shows "fromjsonObject (getJsonObject m) = Some m"
proof (cases m)
  case Nil
  then show ?thesis by (simp add: fromjsonObject_def getJsonObject_def c_str_def enterobject_def)
next
  case (Cons e es)
  obtain i v where e: "e = (i, v)" by (cases e)
  have n: "json_name_ok i" "str_ok v" "list_all (\<lambda>(i, v). json_name_ok i \<and> str_ok v) es" "map_wf m"
    using assms Cons e by (auto simp: object_ok_def)
  have g: "getJsonObject m = ch CHR ''{'' # member_json i v @ members_left (asc ''}'') es" using Cons e getJsonObject_members by simp
  have "0 \<notin> set (members_left (asc ''}'') es)" by (rule no_nul_members) (use n(3) str_ok_no_nul in \<open>auto simp: list_all_iff\<close>)
  then have "c_str (getJsonObject m) = getJsonObject m" using no_nul_member [OF n(1) str_ok_no_nul [OF n(2)]] unfolding g by (intro c_str_id) auto
  moreover have "enterobject (getJsonObject m) = (True, member_json i v @ members_left (asc ''}'') es)" unfolding g by (simp add: enterobject_def)
  moreover have "object_loop [] (member_json i v @ members_left (asc ''}'') es) = Some (m, asc ''}'')"
    using object_loop_member [OF n(1,2) ends_members_left [OF object_end(3), of es], of "[]" "[]"] object_loop_members [OF n(3)] map_rebuild [OF n(4)] Cons e
    by (simp del: list.map)
  ultimately show ?thesis using object_end(2) by (simp add: fromjsonObject_def del: list.map)
qed

section \<open>Updates\<close>

lemma map_wf_map_erase: "map_wf m \<Longrightarrow> map_wf (map_erase i m)"
  by (simp add: map_erase_def map_wf_filter)

definition updated :: "attrs \<Rightarrow> attrs \<Rightarrow> u64 \<Rightarrow> bytes option" where
  "updated updates m i = (case map_find updates i of None \<Rightarrow> map_find m i | Some v \<Rightarrow> if v = [] then None else Some v)"

lemma applyUpdates_find: "map_wf updates \<Longrightarrow> map_wf m \<Longrightarrow> map_wf (applyUpdates updates m) \<and> map_find (applyUpdates updates m) i = updated updates m i"
proof (induction updates arbitrary: m)
  case (Cons e es)
  obtain j v where e: "e = (j, v)" by (cases e)
  let ?m = "if v = [] then map_erase j m else map_set j v m"
  have w: "map_wf es" "map_find es j = None" "map_wf ?m"
    using Cons.prems map_find_None_lt [of es j] by (auto simp: e map_wf_Cons map_wf_map_erase map_wf_map_set)
  have "applyUpdates (e # es) m = applyUpdates es ?m" by (simp add: applyUpdates_def e)
  moreover have "map_find ((j, v) # es) i = (if i = j then Some v else map_find es i)" by (simp add: map_find_def)
  ultimately show ?case using Cons.IH [OF w(1,3)] w(2) Cons.prems(2)
    by (auto simp: e updated_def map_find_map_set map_find_map_erase split: option.split)
qed (simp add: applyUpdates_def updated_def map_find_def)

lemma getJsonObject_nonempty: "m \<noteq> [] \<Longrightarrow> getJsonObject m \<noteq> []"
  by (cases m) (auto simp: getJsonObject_members)

section \<open>Properties\<close>

text \<open>
  C35: attributes survive both of their formats.  What the binary format of the cache and the JSON format of the server hold
  of a set of attributes is read back as that set, for values of any bytes, with the binary reader left exactly behind it.
\<close>

theorem attributes_roundtrip:
  assumes "map_wf m" "list_all (\<lambda>(i, v). name_ok i \<and> length v < 2 ^ 16) m"
  shows "attr_unserialize [] (attr_serialize [] m @ r) = (m, Some r)
    \<and> (list_all (\<lambda>(i, v). json_name_ok i) m \<longrightarrow> fromjson (Some (getjson m)) [] = m)"
  using attr_unserialize_all [OF assms(2), of "[]" r] fromjson_getjson [OF assms(1)] map_rebuild [OF assms(1)] by (simp add: attr_serialize_def)

definition sample_attrs :: attrs where
  "sample_attrs = [(name_bytes_id (asc ''n''), asc [CHR 0x22, CHR 0x5C, CHR 0x00, CHR 0x0A, CHR 0xFF]), (name_bytes_id (asc ''fav''), asc ''1'')]"

lemma sample_name: "name_ok (name_bytes_id (asc ''n''))" "name_ok (name_bytes_id (asc ''fav''))"
  "nameid2string (name_bytes_id (asc ''n'')) = asc ''n''" "nameid2string (name_bytes_id (asc ''fav'')) = asc ''fav''"
  using name_ok_name [of "asc ''n''"] name_ok_name [of "asc ''fav''"] by simp_all

lemma sample_attrs_ok: "map_wf sample_attrs" "list_all (\<lambda>(i, v). name_ok i \<and> length v < 2 ^ 16) sample_attrs" "list_all (\<lambda>(i, v). json_name_ok i) sample_attrs"
proof -
  show "map_wf sample_attrs" by (simp add: sample_attrs_def map_wf_def name_bytes_id_def)
  show "list_all (\<lambda>(i, v). name_ok i \<and> length v < 2 ^ 16) sample_attrs" using sample_name(1,2) by (simp add: sample_attrs_def)
  show "list_all (\<lambda>(i, v). json_name_ok i) sample_attrs" 
    using sample_name unfolding sample_attrs_def json_name_ok_def by (simp add: plain_def)
qed

theorem attributes_roundtrip_witness:
  "attr_unserialize [] (attr_serialize [] sample_attrs @ [7]) = (sample_attrs, Some [7]) \<and> fromjson (Some (getjson sample_attrs)) [] = sample_attrs"
  using attributes_roundtrip [OF sample_attrs_ok(1,2), of "[7]"] sample_attrs_ok(3) by simp

text \<open>
  C36: updating a nested field merges it.  The new text of the field is that of its old members with the updates applied, every other
  attribute is the updated one, or gone if updated to nothing, or the old one if not mentioned; and the members inside the field are
  updated by the same law.
\<close>

theorem nested_update:
  assumes "map_wf m" "map_wf updates" "object_ok old" "object_ok new" "new \<noteq> []" "old \<noteq> new"
    "getString field m = (if old = [] then None else Some (getJsonObject old))" "getString field updates = Some (getJsonObject new)"
  shows "\<exists>m'. applyUpdatesWithNestedFields updates [field] m = Some m'
    \<and> getString field m' = Some (getJsonObject (applyUpdates new old))
    \<and> (\<forall>i. i \<noteq> string2nameid field \<longrightarrow> map_find m' i = updated updates m i)
    \<and> map_find (applyUpdates new old) j = updated new old j"
proof -
  let ?f = "string2nameid field"
  have f: "map_find updates ?f = Some (getJsonObject new)" "getJsonObject new \<noteq> []"
    "map_find m ?f = (if old = [] then None else Some (getJsonObject old))"
    using assms(5,7,8) getJsonObject_nonempty by (simp_all add: getString_def)
  have r: "fromjsonObject (getJsonObject old) = Some old" "fromjsonObject (getJsonObject new) = Some new"
    using assms(3,4) fromjsonObject_getJsonObject by auto
  then have "getJsonObject old \<noteq> getJsonObject new" using assms(6) by (metis option.inject)
  then have "nestedFieldFinalStr updates m field = Some (Some (getJsonObject (applyUpdates new old)))"
    using f r by (auto simp: nestedFieldFinalStr_def hasUpdate_def getString_def Let_def)
  then have a: "applyUpdatesWithNestedFields updates [field] m = Some (map_set ?f (getJsonObject (applyUpdates new old)) (applyUpdates updates m))"
    by (simp add: applyUpdatesWithNestedFields_def)
  have w: "map_wf (applyUpdates updates m)" "\<And>i. map_find (applyUpdates updates m) i = updated updates m i"
    using applyUpdates_find [OF assms(2,1)] by auto
  have "map_find (applyUpdates new old) j = updated new old j" using applyUpdates_find assms(3,4) by (auto simp: object_ok_def)
  then show ?thesis using a w by (simp add: getString_def map_find_map_set)
qed

definition sample_old :: attrs where
  "sample_old = [(name_bytes_id (asc ''n''), asc ''a''), (name_bytes_id (asc ''fav''), asc ''1'')]"

definition sample_new :: attrs where
  "sample_new = [(name_bytes_id (asc ''n''), asc ''b'')]"

lemma sample_objects: "object_ok sample_old" "object_ok sample_new"
proof -
  have j: "json_name_ok (name_bytes_id (asc ''n''))" "json_name_ok (name_bytes_id (asc ''fav''))"
    using sample_name unfolding json_name_ok_def by (simp_all add: plain_def)
  have "str_ok (asc ''a'')" "str_ok (asc ''b'')" "str_ok (asc ''1'')" by (simp_all add: str_ok_def)
  then show "object_ok sample_old" "object_ok sample_new" using j
    by (simp_all add: object_ok_def sample_old_def sample_new_def map_wf_def) (simp add: name_bytes_id_def)
qed

theorem nested_update_witness:
  "\<exists>m'. applyUpdatesWithNestedFields [(string2nameid (asc ''pa''), getJsonObject sample_new)] [asc ''pa''] [(string2nameid (asc ''pa''), getJsonObject sample_old)] = Some m'
    \<and> getString (asc ''pa'') m' = Some (getJsonObject (applyUpdates sample_new sample_old))"
proof -
  have "map_wf [(string2nameid (asc ''pa''), v)]" for v :: bytes by (simp add: map_wf_def)
  moreover have "getString (asc ''pa'') [(string2nameid (asc ''pa''), v)] = Some v" for v by (simp add: getString_def map_find_def)
  moreover have "sample_new \<noteq> []" "sample_old \<noteq> []" "sample_old \<noteq> sample_new" by (simp_all add: sample_new_def sample_old_def)
  ultimately show ?thesis
    using nested_update [OF _ _ sample_objects, of "[(string2nameid (asc ''pa''), getJsonObject sample_old)]" "[(string2nameid (asc ''pa''), getJsonObject sample_new)]" "asc ''pa''"]
    by (metis (no_types, lifting))
qed

end
