(* ===== verification/Mega_Tlv.thy ===== *)
theory Mega_Tlv
  imports Mega_Containers
begin

text \<open>
  The records of user attributes (\<^verbatim>\<open>src/tlv.cpp\<close>): a map from names to values, written as a container of
  type-length-value records, plain or encrypted; and, of \<^verbatim>\<open>src/crypto/cryptopp.cpp\<close>, the authenticated modes of
  \<^verbatim>\<open>SymmCipher\<close> the containers use.  The cryptographic library's authenticated encryption is an argument (a record
  \<open>aead\<close>).  \<^verbatim>\<open>Utils::utf8toUnicode\<close> of \<^verbatim>\<open>src/utils.cpp\<close> undoes an old encoding bug.  The lemmas: what a
  container of records is read back as, in the clear and encrypted under every setting, also when it was written with
  the bug.
\<close>

section \<open>Authenticated encryption\<close>

text \<open>
  What the library's decryption filter does: give the plaintext, or throw, for a tag that does not match or for
  any other reason.
\<close>

datatype aead_result = AeadOk bytes | HashVerificationFailed | AeadException

text \<open>
  The library under a key: encryption (nothing when it throws) and decryption in CCM and in GCM mode, for a length of the
  tag and an initialisation vector.
\<close>

record aead =
  ccm_e :: "nat \<Rightarrow> bytes \<Rightarrow> bytes \<Rightarrow> bytes option"
  ccm_d :: "nat \<Rightarrow> bytes \<Rightarrow> bytes \<Rightarrow> aead_result"
  gcm_e :: "nat \<Rightarrow> bytes \<Rightarrow> bytes \<Rightarrow> bytes option"
  gcm_d :: "nat \<Rightarrow> bytes \<Rightarrow> bytes \<Rightarrow> aead_result"

text \<open>The output is appended to \<open>result\<close>; the first component is the returned flag.\<close>

definition ccm_encrypt :: "aead \<Rightarrow> bytes \<Rightarrow> bytes \<Rightarrow> nat \<Rightarrow> bytes \<Rightarrow> bool \<times> bytes" where
  "ccm_encrypt key data iv taglen result =
    (if taglen = 16 \<or> taglen = 8
     then case ccm_e key taglen iv data of None \<Rightarrow> (False, result) | Some c \<Rightarrow> (True, result @ c)
     else (False, result))"

text \<open>Decryption in CCM mode catches only a tag that does not match: nothing stands for another exception, which escapes.\<close>

definition ccm_decrypt :: "aead \<Rightarrow> bytes \<Rightarrow> bytes \<Rightarrow> nat \<Rightarrow> bytes \<Rightarrow> (bool \<times> bytes) option" where
  "ccm_decrypt key data iv taglen result =
    (if taglen = 16 \<or> taglen = 8
     then case ccm_d key taglen iv data of
         AeadOk p \<Rightarrow> Some (True, result @ p)
       | HashVerificationFailed \<Rightarrow> Some (False, [])
       | AeadException \<Rightarrow> None
     else Some (False, result))"

definition gcm_encrypt :: "aead \<Rightarrow> bytes \<Rightarrow> bytes \<Rightarrow> nat \<Rightarrow> bytes \<Rightarrow> bool \<times> bytes" where
  "gcm_encrypt key data iv taglen result =
    (case gcm_e key taglen iv data of None \<Rightarrow> (False, result) | Some c \<Rightarrow> (True, result @ c))"

definition gcm_decrypt :: "aead \<Rightarrow> bytes \<Rightarrow> bytes \<Rightarrow> nat \<Rightarrow> bytes \<Rightarrow> bool \<times> bytes" where
  "gcm_decrypt key data iv taglen result =
    (case gcm_d key taglen iv data of AeadOk p \<Rightarrow> (True, result @ p) | _ \<Rightarrow> (False, []))"

section \<open>Settings\<close>

datatype encryptionsetting_t = AES_CCM_12_16 | AES_CCM_10_16 | AES_CCM_10_08
  | AES_GCM_12_16_BROKEN | AES_GCM_10_08_BROKEN | AES_GCM_12_16 | AES_GCM_10_08

fun setting_value :: "encryptionsetting_t \<Rightarrow> int" where
  "setting_value AES_CCM_12_16 = 0x00"
| "setting_value AES_CCM_10_16 = 0x01"
| "setting_value AES_CCM_10_08 = 0x02"
| "setting_value AES_GCM_12_16_BROKEN = 0x03"
| "setting_value AES_GCM_10_08_BROKEN = 0x04"
| "setting_value AES_GCM_12_16 = 0x10"
| "setting_value AES_GCM_10_08 = 0x11"

datatype encryptionmode_t = AES_MODE_UNKNOWN | AES_MODE_CCM | AES_MODE_GCM

definition is_mode :: "int \<Rightarrow> encryptionsetting_t list \<Rightarrow> bool" where
  "is_mode mode ss \<longleftrightarrow> mode \<in> set (map setting_value ss)"

definition getTaglen :: "int \<Rightarrow> nat" where
  "getTaglen mode =
    (if is_mode mode [AES_CCM_10_16, AES_CCM_12_16, AES_GCM_12_16_BROKEN, AES_GCM_12_16] then 16
     else if is_mode mode [AES_CCM_10_08, AES_GCM_10_08_BROKEN, AES_GCM_10_08] then 8
     else 0)"

definition getIvlen :: "int \<Rightarrow> nat" where
  "getIvlen mode =
    (if is_mode mode [AES_CCM_12_16, AES_GCM_12_16_BROKEN, AES_GCM_12_16] then 12
     else if is_mode mode [AES_CCM_10_08, AES_GCM_10_08_BROKEN, AES_CCM_10_16, AES_GCM_10_08] then 10
     else 0)"

definition getMode :: "int \<Rightarrow> encryptionmode_t" where
  "getMode mode =
    (if is_mode mode [AES_CCM_12_16, AES_GCM_12_16_BROKEN, AES_CCM_10_16, AES_CCM_10_08, AES_GCM_10_08_BROKEN] then AES_MODE_CCM
     else if is_mode mode [AES_GCM_12_16, AES_GCM_10_08] then AES_MODE_GCM
     else AES_MODE_UNKNOWN)"

section \<open>Records\<close>

type_synonym TLV_map = "(bytes, bytes) smap"

definition tlv_get :: "bytes \<Rightarrow> TLV_map \<Rightarrow> bytes option" where
  "tlv_get type tlv = map_find tlv type"

definition getKeys :: "TLV_map \<Rightarrow> bytes list" where
  "getKeys tlv = map fst tlv"

definition tlv_set :: "bytes \<Rightarrow> bytes \<Rightarrow> TLV_map \<Rightarrow> TLV_map" where
  "tlv_set type value tlv = map_set type value tlv"

definition tlv_reset :: "bytes \<Rightarrow> TLV_map \<Rightarrow> TLV_map" where
  "tlv_reset type tlv = map_erase type tlv"

text \<open>A record: its name with the final zero, the length (at most what two bytes hold) and the value.\<close>

definition put_record :: "bytes \<Rightarrow> bytes \<Rightarrow> bytes" where
  "put_record type value =
    (let len = min (length value) 0xFFFF
     in type @ [0, word_of_nat (len div 256), word_of_nat (len mod 256)] @ value)"

definition tlvRecordsToContainer :: "TLV_map \<Rightarrow> bytes" where
  "tlvRecordsToContainer tlv = foldl (\<lambda>result (type, value). result @ put_record type value) [] tlv"

definition maxSize :: nat where
  "maxSize = 1 + 2 + 0xFFFF"

text \<open>The records of the rest of a container, added to \<open>tlv\<close>.\<close>

function read_records :: "TLV_map \<Rightarrow> bytes \<Rightarrow> TLV_map option" where
  "read_records tlv data =
    (if data = [] then Some tlv
     else let type = takeWhile (\<lambda>c. c \<noteq> 0) data in
       if length type = length data \<or> length type + 3 > length data then None
       else let rest = drop (length type + 1) data;
           valuelen = unat (rest ! 0) * 256 + unat (rest ! 1);
           rest1 = drop 2 rest
         in if valuelen > length rest1 then None
            else read_records (tlv_set type (take valuelen rest1) tlv) (drop valuelen rest1))"
  by pat_completeness auto
termination
  by (relation "measure (\<lambda>(tlv, data). length data)") auto

declare read_records.simps [simp del]

definition containerToTLVrecords :: "bytes \<Rightarrow> TLV_map option" where
  "containerToTLVrecords data =
    (if data = [] then None
     else if length data \<ge> maxSize \<and> hd data = 0 then Some (tlv_set [] (drop 3 data) [])
     else read_records [] data)"

section \<open>Old containers\<close>

fun utf8_loop :: "bytes \<Rightarrow> bytes \<Rightarrow> bytes option" where
  "utf8_loop res [] = Some res"
| "utf8_loop res (cp1 # src) =
    (if cp1 < 0x80 then utf8_loop (res @ [cp1]) src
     else case src of
         [] \<Rightarrow> None
       | cp2 # src1 \<Rightarrow>
           if (cp1 = 0xC2 \<or> cp1 = 0xC3) \<and> cp2 \<ge> 0x80 \<and> cp2 \<le> 0xBF
           then utf8_loop (res @ [ucast ((push_bit 6 (ucast (cp1 AND 0x1F)) + ucast (cp2 AND 0x3F) :: u32) AND 0xFF)]) src1
           else None)"

definition utf8toUnicode :: "bytes \<Rightarrow> bytes option" where
  "utf8toUnicode src = utf8_loop [] src"

section \<open>Encrypted containers\<close>

text \<open>
  The vector is what the random generator gives.  Nothing stands for the null result.
\<close>

definition recordsToEncrypted :: "aead \<Rightarrow> bytes \<Rightarrow> encryptionsetting_t \<Rightarrow> TLV_map \<Rightarrow> bytes option" where
  "recordsToEncrypted key iv encSetting tlv =
    (let mode = setting_value encSetting; ivlen = getIvlen mode; taglen = getTaglen mode; encMode = getMode mode in
     if ivlen = 0 \<or> taglen = 0 \<or> encMode = AES_MODE_UNKNOWN then None
     else let container = tlvRecordsToContainer tlv;
         (ok, cipherText) =
           (if encMode = AES_MODE_CCM then ccm_encrypt key container iv taglen []
            else if encMode = AES_MODE_GCM then gcm_encrypt key container iv taglen []
            else (True, []))
       in if ok then Some (word_of_int mode # iv @ cipherText) else None)"

text \<open>
  Reading one: the outer nothing is an exception that escapes, the inner one the null result.  The lengths are
  those of 32 bits the code computes.
\<close>

definition decode_clear :: "bytes \<Rightarrow> nat \<Rightarrow> TLV_map option" where
  "decode_clear clearText clearTextLen =
    (if clearText = [] then Some []
     else case containerToTLVrecords clearText of
         Some tlv \<Rightarrow> Some tlv
       | None \<Rightarrow> Option.bind (utf8toUnicode (take clearTextLen clearText)) containerToTLVrecords)"

definition encryptedToRecords :: "aead \<Rightarrow> bytes \<Rightarrow> TLV_map option option" where
  "encryptedToRecords key data =
    (if data = [] then Some None
     else let mode = sint (hd data); ivlen = getIvlen mode; taglen = getTaglen mode; encMode = getMode mode in
       if encMode = AES_MODE_UNKNOWN \<or> ivlen = 0 \<or> taglen = 0 \<or> length data < 1 + ivlen + taglen then Some None
       else let iv = take ivlen (drop 1 data);
           cipherTextLen = (length data - (1 + ivlen)) mod 2 ^ 32;
           cipherText = take cipherTextLen (drop (1 + ivlen) data);
           clearTextLen = (cipherTextLen + 2 ^ 32 - taglen) mod 2 ^ 32
         in map_option (\<lambda>(decrypted, clearText). if decrypted then decode_clear clearText clearTextLen else None)
              (if encMode = AES_MODE_CCM then ccm_decrypt key cipherText iv taglen []
               else Some (gcm_decrypt key cipherText iv taglen [])))"

text \<open>The entry points: an encrypted container is written in the default setting.\<close>

definition containerToRecords :: "aead \<Rightarrow> bytes \<Rightarrow> TLV_map option option" where
  "containerToRecords key container = encryptedToRecords key container"

definition recordsToContainer :: "aead \<Rightarrow> bytes \<Rightarrow> TLV_map \<Rightarrow> bytes option" where
  "recordsToContainer key iv records = recordsToEncrypted key iv AES_GCM_12_16 records"

section \<open>Records are read back\<close>

lemma tlvRecordsToContainer_concat: "tlvRecordsToContainer tlv = concat (map (\<lambda>(type, value). put_record type value) tlv)"
proof -
  have "foldl (\<lambda>result (type, value). result @ put_record type value) r tlv = r @ concat (map (\<lambda>(type, value). put_record type value) tlv)" for r
    by (induction tlv arbitrary: r) auto
  then show ?thesis by (simp add: tlvRecordsToContainer_def)
qed

text \<open>A record that fits the format: a name without a zero and a value whose length fits two bytes.\<close>

definition record_ok :: "bytes \<Rightarrow> bytes \<Rightarrow> bool" where
  "record_ok type value \<longleftrightarrow> 0 \<notin> set type \<and> length value \<le> 0xFFFF"

lemma length_bytes:
  assumes "n \<le> 0xFFFF"
  shows "unat (word_of_nat (n div 256) :: byte) * 256 + unat (word_of_nat (n mod 256) :: byte) = n"
proof -
  have "n div 256 < 256" "n mod 256 < 256" using assms by auto
  then have "unat (word_of_nat (n div 256) :: byte) = n div 256" "unat (word_of_nat (n mod 256) :: byte) = n mod 256"
    by (simp_all add: unat_of_nat)
  then show ?thesis by simp
qed

lemma read_records_put:
  assumes "record_ok type value"
  shows "read_records tlv (put_record type value @ r) = read_records (tlv_set type value tlv) r"
proof -
  let ?n = "length value"
  have n: "min ?n 0xFFFF = ?n" and z: "\<And>c. c \<in> set type \<Longrightarrow> c \<noteq> 0" using assms by (auto simp: record_ok_def)
  have p: "put_record type value @ r = type @ 0 # word_of_nat (?n div 256) # word_of_nat (?n mod 256) # value @ r"
    using n by (simp add: put_record_def Let_def)
  have "takeWhile (\<lambda>c. c \<noteq> 0) (type @ 0 # s) = type" for s :: bytes
    using z by (simp add: takeWhile_append2)
  then show ?thesis unfolding p using length_bytes [of ?n] assms
    by (subst read_records.simps) (simp add: Let_def record_ok_def)
qed

lemma read_records_all:
  "list_all (\<lambda>(type, value). record_ok type value) m \<Longrightarrow>
   read_records tlv (tlvRecordsToContainer m) = Some (fold (\<lambda>(k, v). map_set k v) m tlv)"
proof (induction m arbitrary: tlv)
  case Nil
  then show ?case by (simp add: tlvRecordsToContainer_concat read_records.simps)
next
  case (Cons e m)
  then show ?case using read_records_put [of "fst e" "snd e" tlv "tlvRecordsToContainer m"]
    by (cases e) (simp add: tlvRecordsToContainer_concat tlv_set_def)
qed

text \<open>
  The maps the format can hold: one value of any length under the empty name, or records that fit, where a first record with the
  empty name does not come with more than the largest single record.
\<close>

definition records_ok :: "TLV_map \<Rightarrow> bool" where
  "records_ok m \<longleftrightarrow> map_wf m \<and>
    ((\<exists>v. m = [([], v)]) \<or>
     list_all (\<lambda>(type, value). record_ok type value) m \<and> ([] \<in> fst ` set m \<longrightarrow> length (tlvRecordsToContainer m) < maxSize))"

lemma containerToTLVrecords_put:
  assumes "records_ok m" "m \<noteq> []"
  shows "containerToTLVrecords (tlvRecordsToContainer m) = Some m"
proof (cases "\<exists>v. m = [([], v)] \<and> 0xFFFF \<le> length v")
  case True
  then obtain v where v: "m = [([], v)]" "0xFFFF \<le> length v" by blast
  then show ?thesis
    by (simp add: containerToTLVrecords_def tlvRecordsToContainer_def put_record_def Let_def maxSize_def tlv_set_def)
next
  case False
  then have ok: "list_all (\<lambda>(type, value). record_ok type value) m" and wf: "map_wf m"
    using assms by (auto simp: records_ok_def record_ok_def)
  obtain k v m' where m: "m = (k, v) # m'" using assms(2) by (cases m) auto
  have c: "tlvRecordsToContainer m = put_record k v @ tlvRecordsToContainer m'" by (simp add: m tlvRecordsToContainer_concat)
  have ne: "tlvRecordsToContainer m \<noteq> []" unfolding c by (simp add: put_record_def Let_def)
  have "\<not> (length (tlvRecordsToContainer m) \<ge> maxSize \<and> hd (tlvRecordsToContainer m) = 0)"
  proof (cases k)
    case Nil
    then show ?thesis using assms(1) False m
      by (auto simp: records_ok_def maxSize_def tlvRecordsToContainer_def put_record_def Let_def)
  next
    case (Cons a k')
    then have "hd (tlvRecordsToContainer m) = a" unfolding c by (simp add: put_record_def Let_def)
    then show ?thesis using ok m Cons by (auto simp: record_ok_def)
  qed
  then have "containerToTLVrecords (tlvRecordsToContainer m) = read_records [] (tlvRecordsToContainer m)"
    using ne unfolding containerToTLVrecords_def by (simp only: if_False)
  then show ?thesis using read_records_all [OF ok, of "[]"] map_rebuild [OF wf] by simp
qed

text \<open>A container that begins with the empty name and reaches the size is taken for one record.\<close>

lemma empty_name_swallows:
  assumes "maxSize \<le> length (tlvRecordsToContainer (([], v) # m))"
  shows "\<exists>w. containerToTLVrecords (tlvRecordsToContainer (([], v) # m)) = Some [([], w)]"
  using assms by (auto simp: containerToTLVrecords_def tlvRecordsToContainer_concat put_record_def Let_def tlv_set_def)

section \<open>The old encoding is undone\<close>

text \<open>The encoding the bug applied: every byte as a code point in UTF-8.\<close>

definition utf8_of :: "byte \<Rightarrow> bytes" where
  "utf8_of c = (if c < 0x80 then [c] else [0xC0 OR drop_bit 6 c, 0x80 OR (c AND 0x3F)])"

lemma ascii_bit: "(c :: byte) < 0x80 \<longleftrightarrow> \<not> bit c 7"
proof -
  have "unat c < 256" using unsigned_less [of c, where ?'a = nat] by simp
  then have "unat c div 128 = (if 128 \<le> unat c then 1 else 0)" by (simp add: div_nat_eqI)
  then have o: "odd (unat c div 128) \<longleftrightarrow> 128 \<le> unat c" by simp
  have "bit c 7 \<longleftrightarrow> bit (unat c) 7" by (simp add: bit_unsigned_iff)
  also have "\<dots> \<longleftrightarrow> odd (unat c div 128)" by (simp add: bit_iff_odd)
  finally show ?thesis using o by (simp add: word_less_nat_alt not_le)
qed

lemma utf8_lead: "bit c 7 \<Longrightarrow> 0xC0 OR drop_bit 6 c = (if bit c 6 then 0xC3 else 0xC2 :: byte)"
  by (rule byte_eqI) (simp_all add: bit_simps)

lemma utf8_follow: "0x80 \<le> 0x80 OR (c AND 0x3F :: byte)" "0x80 OR (c AND 0x3F) \<le> (0xBF :: byte)"
proof -
  have "0x80 OR (c AND 0x3F) = (0x80 OR (c AND 0x3F)) AND (0xBF :: byte)" by (rule byte_eqI) (simp_all add: bit_simps)
  then show "0x80 OR (c AND 0x3F) \<le> (0xBF :: byte)" by (metis word_and_le1)
  show "0x80 \<le> 0x80 OR (c AND 0x3F :: byte)" unfolding not_less [symmetric] ascii_bit by (simp add: bit_simps)
qed

lemma utf8_value:
  assumes "bit (c :: byte) 7"
  shows "ucast ((push_bit 6 (ucast ((0xC0 OR drop_bit 6 c) AND 0x1F)) + ucast ((0x80 OR (c AND 0x3F)) AND 0x3F) :: u32) AND 0xFF) = c"
proof -
  have t: "(0x80 OR (c AND 0x3F)) AND 0x3F = take_bit 6 c" by (rule byte_eqI) (simp_all add: bit_simps)
  have "push_bit 6 (ucast ((0xC0 OR drop_bit 6 c) AND 0x1F)) + ucast (take_bit 6 c)
      = (push_bit 6 (ucast ((0xC0 OR drop_bit 6 c) AND 0x1F)) OR ucast (take_bit 6 c) :: u32)"
    by (rule disjunctive_add) (auto simp: bit_simps)
  moreover have "ucast ((push_bit 6 (ucast ((0xC0 OR drop_bit 6 c) AND 0x1F)) OR ucast (take_bit 6 c) :: u32) AND 0xFF) = c"
    by (rule byte_eqI) (simp_all add: bit_simps assms)
  ultimately show ?thesis unfolding t by simp
qed

lemma utf8_loop_two:
  assumes "\<not> cp1 < 0x80" "cp1 = 0xC2 \<or> cp1 = 0xC3" "0x80 \<le> cp2" "cp2 \<le> 0xBF"
    "ucast ((push_bit 6 (ucast (cp1 AND 0x1F)) + ucast (cp2 AND 0x3F) :: u32) AND 0xFF) = c"
  shows "utf8_loop res (cp1 # cp2 # r) = utf8_loop (res @ [c]) r"
  by (subst utf8_loop.simps(2)) (simp only: assms list.case if_False if_True simp_thms)

lemma utf8_loop_step: "utf8_loop res (utf8_of c @ r) = utf8_loop (res @ [c]) r"
proof (cases "c < 0x80")
  case False
  then have b: "bit c 7" by (simp add: ascii_bit)
  then have l: "0xC0 OR drop_bit 6 c = 0xC2 \<or> 0xC0 OR drop_bit 6 c = 0xC3" using utf8_lead by presburger
  have "\<not> 0xC0 OR drop_bit 6 c < 0x80" using l by (elim disjE) simp_all
  then show ?thesis using utf8_loop_two [OF _ l utf8_follow utf8_value [OF b]] False by (simp add: utf8_of_def)
qed (simp add: utf8_of_def)

lemma utf8_loop_utf8_of: "utf8_loop res (concat (map utf8_of cs)) = Some (res @ cs)"
  by (induction cs arbitrary: res) (simp_all add: utf8_loop_step)

lemma utf8toUnicode_utf8_of: "utf8toUnicode (concat (map utf8_of cs)) = Some cs"
  by (simp add: utf8toUnicode_def utf8_loop_utf8_of)

section \<open>Encrypted containers are read back\<close>

text \<open>
  What authenticated encryption promises: decrypting what was encrypted under the same vector gives the plaintext, and the
  ciphertext is longer by the tag.
\<close>

definition aead_ok :: "aead \<Rightarrow> bool" where
  "aead_ok key \<longleftrightarrow>
    (\<forall>tag iv p c. ccm_e key tag iv p = Some c \<longrightarrow> ccm_d key tag iv c = AeadOk p \<and> length c = length p + tag) \<and>
    (\<forall>tag iv p c. gcm_e key tag iv p = Some c \<longrightarrow> gcm_d key tag iv c = AeadOk p \<and> length c = length p + tag)"

lemma aead_okD:
  "aead_ok key \<Longrightarrow> ccm_e key tag iv p = Some c \<Longrightarrow> ccm_d key tag iv c = AeadOk p \<and> length c = length p + tag"
  "aead_ok key \<Longrightarrow> gcm_e key tag iv p = Some c \<Longrightarrow> gcm_d key tag iv c = AeadOk p \<and> length c = length p + tag"
  unfolding aead_ok_def by blast+

lemma ccm_encrypt_decrypt:
  assumes "aead_ok key" "ccm_encrypt key p iv tag [] = (True, c)"
  shows "ccm_decrypt key c iv tag [] = Some (True, p) \<and> length c = length p + tag"
proof -
  have "ccm_e key tag iv p = Some c" "tag = 16 \<or> tag = 8"
    using assms(2) by (simp_all add: ccm_encrypt_def split: if_splits option.splits)
  then show ?thesis using aead_okD(1) [OF assms(1)] by (simp add: ccm_decrypt_def)
qed

lemma gcm_encrypt_decrypt:
  assumes "aead_ok key" "gcm_encrypt key p iv tag [] = (True, c)"
  shows "gcm_decrypt key c iv tag [] = (True, p) \<and> length c = length p + tag"
proof -
  have "gcm_e key tag iv p = Some c" using assms(2) by (simp add: gcm_encrypt_def split: option.splits)
  then show ?thesis using aead_okD(2) [OF assms(1)] by (simp add: gcm_decrypt_def)
qed

lemma settings:
  "getMode (setting_value e) \<noteq> AES_MODE_UNKNOWN" "getIvlen (setting_value e) \<noteq> 0" "getTaglen (setting_value e) \<noteq> 0"
  "getTaglen (setting_value e) \<le> 16" "sint (word_of_int (setting_value e) :: byte) = setting_value e"
  by (cases e; simp add: getMode_def getIvlen_def getTaglen_def is_mode_def)+

lemma read_container:
  assumes "length iv = getIvlen (setting_value e)" "length c = length p + getTaglen (setting_value e)" "length c < 2 ^ 32"
    "if getMode (setting_value e) = AES_MODE_CCM then ccm_decrypt key c iv (getTaglen (setting_value e)) [] = Some (True, p)
     else gcm_decrypt key c iv (getTaglen (setting_value e)) [] = (True, p)"
  shows "encryptedToRecords key (word_of_int (setting_value e) # iv @ c) = Some (decode_clear p (length p))"
proof -
  have "(length c + 2 ^ 32 - getTaglen (setting_value e)) mod 2 ^ 32 = length p" using assms(2,3) by simp
  then show ?thesis using assms settings [of e]
    by (auto simp: encryptedToRecords_def Let_def split: if_splits)
qed

lemma encrypt_then_read:
  assumes "aead_ok key" "length iv = getIvlen (setting_value e)" "length p + 16 < 2 ^ 32"
    "(if getMode (setting_value e) = AES_MODE_CCM then ccm_encrypt key p iv (getTaglen (setting_value e)) []
      else gcm_encrypt key p iv (getTaglen (setting_value e)) []) = (True, c)"
  shows "encryptedToRecords key (word_of_int (setting_value e) # iv @ c) = Some (decode_clear p (length p))"
proof (rule read_container [OF assms(2)])
  show "length c = length p + getTaglen (setting_value e)"
    using ccm_encrypt_decrypt [OF assms(1)] gcm_encrypt_decrypt [OF assms(1)] assms(4) by (auto split: if_splits)
  then show "length c < 2 ^ 32" using assms(3) settings(4) [of e] by simp
  show "if getMode (setting_value e) = AES_MODE_CCM then ccm_decrypt key c iv (getTaglen (setting_value e)) [] = Some (True, p)
     else gcm_decrypt key c iv (getTaglen (setting_value e)) [] = (True, p)"
    using ccm_encrypt_decrypt [OF assms(1)] gcm_encrypt_decrypt [OF assms(1)] assms(4) by (auto split: if_splits)
qed

lemma recordsToEncrypted_eq:
  assumes "recordsToEncrypted key iv e m = Some d"
  shows "\<exists>c. d = word_of_int (setting_value e) # iv @ c \<and>
    (if getMode (setting_value e) = AES_MODE_CCM then ccm_encrypt key (tlvRecordsToContainer m) iv (getTaglen (setting_value e)) []
     else gcm_encrypt key (tlvRecordsToContainer m) iv (getTaglen (setting_value e)) []) = (True, c)"
proof (cases "getMode (setting_value e)")
  case AES_MODE_UNKNOWN
  then show ?thesis using settings(1) by simp
qed (use assms settings [of e] in \<open>auto simp: recordsToEncrypted_def Let_def split: prod.splits if_splits\<close>)

lemma decode_clear_put: "records_ok m \<Longrightarrow> decode_clear (tlvRecordsToContainer m) n = Some m"
proof (cases "m = []")
  case False
  assume "records_ok m"
  moreover have "tlvRecordsToContainer m \<noteq> []"
    using False by (cases m) (auto simp: tlvRecordsToContainer_concat put_record_def Let_def)
  ultimately show ?thesis using containerToTLVrecords_put False by (simp add: decode_clear_def)
qed (simp add: decode_clear_def tlvRecordsToContainer_def)

text \<open>
  A container written with the old bug, which encoded every byte in UTF-8, is read as the records it should have held, when it
  is not itself a sequence of records.
\<close>

lemma legacy_container:
  assumes "aead_ok key" "length iv = getIvlen (setting_value e)" "records_ok m" "m \<noteq> []" "containerToTLVrecords p = None"
    "p = concat (map utf8_of (tlvRecordsToContainer m))" "length p + 16 < 2 ^ 32"
    "(if getMode (setting_value e) = AES_MODE_CCM then ccm_encrypt key p iv (getTaglen (setting_value e)) []
      else gcm_encrypt key p iv (getTaglen (setting_value e)) []) = (True, c)"
  shows "encryptedToRecords key (word_of_int (setting_value e) # iv @ c) = Some (Some m)"
proof -
  have u: "utf8toUnicode p = Some (tlvRecordsToContainer m)" unfolding assms(6) by (rule utf8toUnicode_utf8_of)
  have "tlvRecordsToContainer m \<noteq> []" using containerToTLVrecords_put [OF assms(3,4)] by (auto simp: containerToTLVrecords_def)
  then have "p \<noteq> []" using u by (auto simp: utf8toUnicode_def)
  then have "decode_clear p (length p) = Some m"
    using assms(5) u containerToTLVrecords_put [OF assms(3,4)] by (simp add: decode_clear_def)
  then show ?thesis using encrypt_then_read [OF assms(1,2,7,8)] by simp
qed

section \<open>Properties\<close>

text \<open>
  C37: an attribute's container gives its records back.  Under an authenticated cipher that decrypts what it encrypted, every container
  written, in any of the seven settings, is read as the records it was written from, the empty map and a single
  unnamed value of any length included.
\<close>

theorem tlv_container_roundtrip:
  assumes "aead_ok key" "length iv = getIvlen (setting_value e)" "records_ok m" "length (tlvRecordsToContainer m) + 16 < 2 ^ 32"
    "recordsToEncrypted key iv e m = Some d"
  shows "encryptedToRecords key d = Some (Some m)"
  using recordsToEncrypted_eq [OF assms(5)] encrypt_then_read [OF assms(1,2,4)] decode_clear_put [OF assms(3)] by auto

text \<open>A cipher that only appends a tag of zeros meets the hypothesis.\<close>

definition sample_aead :: aead where
  "sample_aead = \<lparr>ccm_e = \<lambda>t iv p. Some (p @ replicate t 0), ccm_d = \<lambda>t iv c. AeadOk (take (length c - t) c),
    gcm_e = \<lambda>t iv p. Some (p @ replicate t 0), gcm_d = \<lambda>t iv c. AeadOk (take (length c - t) c)\<rparr>"

definition sample_records :: TLV_map where
  "sample_records = [(asc ''a'', [0, 200]), (asc ''b'', [])]"

theorem tlv_container_roundtrip_witness:
  "encryptedToRecords sample_aead (the (recordsToEncrypted sample_aead (replicate 12 7) AES_GCM_12_16 sample_records)) = Some (Some sample_records)"
proof -
  have "aead_ok sample_aead" by (auto simp: aead_ok_def sample_aead_def)
  moreover have "length (replicate 12 7) = getIvlen (setting_value AES_GCM_12_16)" by (simp add: getIvlen_def is_mode_def)
  moreover have "records_ok sample_records" by (simp add: records_ok_def sample_records_def map_wf_def record_ok_def)
  moreover have "length (tlvRecordsToContainer sample_records) + 16 < 2 ^ 32"
    by (simp add: sample_records_def tlvRecordsToContainer_def put_record_def)
  moreover have "recordsToEncrypted sample_aead (replicate 12 7) AES_GCM_12_16 sample_records \<noteq> None"
    by (simp add: recordsToEncrypted_def Let_def getIvlen_def getTaglen_def getMode_def is_mode_def gcm_encrypt_def sample_aead_def)
  ultimately show ?thesis using tlv_container_roundtrip by (metis option.exhaust_sel)
qed

end
