(* ===== verification/Mega_Cipher.thy ===== *)
theory Mega_Cipher
  imports Mega_Prelude "HOL-Library.Signed_Division"
begin

text \<open>
  What \<^verbatim>\<open>SymmCipher\<close> of \<^verbatim>\<open>src/crypto/cryptopp.cpp\<close> builds on the block cipher: XOR of blocks, the counter block, and
  \<^verbatim>\<open>ctr_crypt\<close>, which encrypts or decrypts a piece of a file in counter mode and continues the
  CBC-MAC of its plaintext; and \<^verbatim>\<open>PaddedCBC\<close> of \<^verbatim>\<open>src/utils.cpp\<close>.  The library's primitives are arguments: \<open>ecb\<close> encrypts
  one block, \<open>ctr_mode iv\<close> is the counter mode started at a counter block, \<open>cbc_encrypt\<close> and \<open>cbc_decrypt\<close>
  are the CBC mode.  The lemmas: the word-wise XOR equals the byte-wise one, decrypting what was
  encrypted gives the plaintext and the same MAC, and a piece may be decrypted in parts.
\<close>

section \<open>Blocks\<close>

definition BLOCKSIZE :: nat where
  "BLOCKSIZE = 16"

fun xorblock_len :: "bytes \<Rightarrow> bytes \<Rightarrow> nat \<Rightarrow> bytes" where
  "xorblock_len src dst 0 = dst"
| "xorblock_len src dst (Suc len) = xorblock_len src (dst[len := dst ! len XOR src ! len]) len"

text \<open>The machine words of a buffer: \<^verbatim>\<open>long\<close> has eight bytes.\<close>

definition get_long :: "nat \<Rightarrow> bytes \<Rightarrow> u64" where
  "get_long i xs = le_word (take 8 (drop (8 * i) xs))"

definition put_long :: "nat \<Rightarrow> u64 \<Rightarrow> bytes \<Rightarrow> bytes" where
  "put_long i w xs = take (8 * i) xs @ le_bytes 8 w @ drop (8 * i + 8) xs"

fun xor_longs :: "nat \<Rightarrow> bytes \<Rightarrow> bytes \<Rightarrow> bytes" where
  "xor_longs 0 src dst = dst"
| "xor_longs (Suc i) src dst = xor_longs i src (put_long i (get_long i dst XOR get_long i src) dst)"

definition xorblock :: "bool \<Rightarrow> bytes \<Rightarrow> bytes \<Rightarrow> bytes" where
  "xorblock aligned src dst =
    (if aligned then xor_longs (BLOCKSIZE div 8) src dst else xorblock_len src dst BLOCKSIZE)"

definition setint64 :: "m_off_t \<Rightarrow> bytes" where
  "setint64 v = rev (le_bytes 8 (word_of_int v :: u64))"

fun incblock :: "bytes \<Rightarrow> nat \<Rightarrow> bytes" where
  "incblock dst 0 = dst"
| "incblock dst (Suc len) =
    (let dst' = dst[len := dst ! len + 1] in if dst' ! len \<noteq> 0 then dst' else incblock dst' len)"

definition FILENODEKEYLENGTH :: nat where
  "FILENODEKEYLENGTH = 32"

definition isZeroKey :: "bytes option \<Rightarrow> nat \<Rightarrow> bool" where
  "isZeroKey key keySize =
    (case key of
       None \<Rightarrow> False
     | Some k \<Rightarrow>
         if keySize = FILENODEKEYLENGTH then take BLOCKSIZE k = take BLOCKSIZE (drop BLOCKSIZE k)
         else if keySize = BLOCKSIZE then take BLOCKSIZE k = replicate BLOCKSIZE 0
         else False)"

section \<open>Counter mode with a MAC\<close>

definition ctr_block :: "u64 \<Rightarrow> m_off_t \<Rightarrow> bytes" where
  "ctr_block ctriv q = le_bytes 8 ctriv @ setint64 q"

function mac_encrypt :: "(bytes \<Rightarrow> bytes) \<Rightarrow> bool \<Rightarrow> bytes \<Rightarrow> int \<Rightarrow> bytes \<Rightarrow> bytes" where
  "mac_encrypt ecb aligned p remaining mac =
    (if remaining > 0
     then mac_encrypt ecb aligned (drop BLOCKSIZE p) (remaining - int BLOCKSIZE) (ecb (xorblock aligned p mac))
     else mac)"
  by pat_completeness auto
termination
  by (relation "measure (\<lambda>(ecb, a, p, remaining, mac). nat remaining)") (auto simp: BLOCKSIZE_def)

function mac_decrypt :: "(bytes \<Rightarrow> bytes) \<Rightarrow> bool \<Rightarrow> bytes \<Rightarrow> nat \<Rightarrow> bytes \<Rightarrow> bytes" where
  "mac_decrypt ecb aligned p remaining mac =
    (if remaining \<ge> BLOCKSIZE
     then mac_decrypt ecb aligned (drop BLOCKSIZE p) (remaining - BLOCKSIZE) (ecb (xorblock aligned p mac))
     else if remaining > 0 then ecb (xorblock_len p mac remaining)
     else mac)"
  by pat_completeness auto
termination
  by (relation "measure (\<lambda>(ecb, a, p, remaining, mac). remaining)") (auto simp: BLOCKSIZE_def)

declare mac_encrypt.simps [simp del] mac_decrypt.simps [simp del]

definition padded_len :: "u32 \<Rightarrow> u32" where
  "padded_len len = (len + word_of_nat BLOCKSIZE - 1) AND NOT (word_of_nat (BLOCKSIZE - 1))"

definition ctr_crypt :: "(bytes \<Rightarrow> bytes) \<Rightarrow> (bytes \<Rightarrow> bytes \<Rightarrow> bytes) \<Rightarrow> bool \<Rightarrow> bytes \<Rightarrow> u32 \<Rightarrow> m_off_t \<Rightarrow> u64 \<Rightarrow>
    bytes option \<Rightarrow> bool \<Rightarrow> bool \<Rightarrow> bytes \<times> bytes option" where
  "ctr_crypt ecb ctr_mode aligned data len pos ctriv mac encrypt initmac =
    (let ctr = ctr_block ctriv (pos sdiv int BLOCKSIZE);
         mac1 = (if initmac then map_option (\<lambda>_. take 8 ctr @ take 8 ctr) mac else mac);
         paddedLen = unat (padded_len len);
         crypted = ctr_mode ctr (take paddedLen data) @ drop paddedLen data
     in if encrypt then (crypted, map_option (mac_encrypt ecb aligned data (int (unat len))) mac1)
        else (crypted, map_option (mac_decrypt ecb aligned crypted (unat len)) mac1))"

section \<open>Padded CBC\<close>

text \<open>\<^verbatim>\<open>std::string::resize\<close>.\<close>

definition resize :: "nat \<Rightarrow> byte \<Rightarrow> bytes \<Rightarrow> bytes" where
  "resize n b xs = take n xs @ replicate (n - length xs) b"

text \<open>
  A new IV is appended as a C string: up to the first zero byte of the random block or of the
  memory \<open>beyond\<close> that follows it.
\<close>

definition fresh_iv :: "bytes \<Rightarrow> bytes \<Rightarrow> bytes" where
  "fresh_iv random beyond = takeWhile (\<lambda>b. b \<noteq> 0) (random @ beyond)"

definition widen_iv :: "bytes \<Rightarrow> bytes" where
  "widen_iv iv = resize BLOCKSIZE 0 (if length iv > 8 then resize 8 0 iv else iv)"

definition pad_data :: "bytes \<Rightarrow> bytes" where
  "pad_data data =
    (let d = data @ [ch CHR ''E''] in resize ((length d + BLOCKSIZE - 1) div BLOCKSIZE * BLOCKSIZE) (ch CHR ''P'') d)"

definition padded_encrypt :: "(bytes \<Rightarrow> bytes \<Rightarrow> bytes option) \<Rightarrow> bytes \<Rightarrow> bytes \<Rightarrow> bytes \<Rightarrow> bytes option \<Rightarrow>
    bytes option \<times> bytes option" where
  "padded_encrypt cbc_encrypt random beyond data iv =
    (let iv1 = map_option (\<lambda>v. widen_iv (if v = [] then fresh_iv random beyond else v)) iv;
         r = cbc_encrypt (case iv1 of None \<Rightarrow> replicate BLOCKSIZE 0 | Some v \<Rightarrow> v) (pad_data data)
     in (r, map_option (resize 8 0) iv1))"

definition find_last_of :: "byte \<Rightarrow> bytes \<Rightarrow> nat option" where
  "find_last_of b xs = (case rev (filter (\<lambda>i. xs ! i = b) [0..<length xs]) of [] \<Rightarrow> None | i # _ \<Rightarrow> Some i)"

definition padded_decrypt :: "(bytes \<Rightarrow> bytes \<Rightarrow> bytes option) \<Rightarrow> bytes \<Rightarrow> bytes option \<Rightarrow> bytes option" where
  "padded_decrypt cbc_decrypt data iv =
    (if length data mod BLOCKSIZE \<noteq> 0 then None
     else case cbc_decrypt (case iv of None \<Rightarrow> replicate BLOCKSIZE 0 | Some v \<Rightarrow> widen_iv v) data of
         None \<Rightarrow> None
       | Some d \<Rightarrow> map_option (\<lambda>p. take p d) (find_last_of (ch CHR ''E'') d))"

section \<open>XOR of blocks\<close>

lemma xorblock_len_eq:
  "n \<le> length dst \<Longrightarrow> n \<le> length src \<Longrightarrow> xorblock_len src dst n = map2 (XOR) (take n dst) (take n src) @ drop n dst"
proof (induction n arbitrary: dst)
  case (Suc n)
  then have "xorblock_len src dst (Suc n) = map2 (XOR) (take n dst) (take n src) @ drop n (dst[n := dst ! n XOR src ! n])"
    by simp
  also have "drop n (dst[n := dst ! n XOR src ! n]) = (dst ! n XOR src ! n) # drop (Suc n) dst"
    using Suc.prems by (simp add: drop_update_swap flip: Cons_nth_drop_Suc)
  finally show ?case using Suc.prems by (simp add: take_Suc_conv_app_nth)
qed simp

lemma le_word_xor:
  "length xs = length ys \<Longrightarrow> le_word (map2 (XOR) xs ys) = (le_word xs XOR le_word ys :: 'a::len word)"
proof (induction xs ys rule: list_induct2)
  case (Cons x xs y ys)
  show ?case by (rule bit_word_eqI) (auto simp: Cons.IH bit_simps)
qed simp

lemma le_bytes_xor:
  "length xs = 8 \<Longrightarrow> length ys = 8 \<Longrightarrow> le_bytes 8 (le_word xs XOR le_word ys :: u64) = map2 (XOR) xs ys"
  using le_bytes_le_word [of "map2 (XOR) xs ys", where ?'a = 64] by (simp add: le_word_xor)

lemma xor_longs_step:
  assumes "8 * i + 8 \<le> length dst" "8 * i + 8 \<le> length src"
  shows "put_long i (get_long i dst XOR get_long i src) dst =
    take (8 * i) dst @ map2 (XOR) (take 8 (drop (8 * i) dst)) (take 8 (drop (8 * i) src)) @ drop (8 * i + 8) dst"
  using assms by (simp add: put_long_def get_long_def le_bytes_xor)

lemma xor_longs_eq:
  "8 * n \<le> length dst \<Longrightarrow> 8 * n \<le> length src \<Longrightarrow>
   xor_longs n src dst = map2 (XOR) (take (8 * n) dst) (take (8 * n) src) @ drop (8 * n) dst"
proof (induction n arbitrary: dst)
  case (Suc n)
  let ?d = "put_long n (get_long n dst XOR get_long n src) dst"
  have d: "?d = take (8 * n) dst @ map2 (XOR) (take 8 (drop (8 * n) dst)) (take 8 (drop (8 * n) src)) @ drop (8 * n + 8) dst"
    using Suc.prems by (intro xor_longs_step) simp_all
  have "xor_longs (Suc n) src dst = map2 (XOR) (take (8 * n) ?d) (take (8 * n) src) @ drop (8 * n) ?d"
    using Suc.prems Suc.IH [of ?d] by (simp add: d)
  also have "\<dots> = map2 (XOR) (take (8 * n) dst) (take (8 * n) src) @
      map2 (XOR) (take 8 (drop (8 * n) dst)) (take 8 (drop (8 * n) src)) @ drop (8 * n + 8) dst"
    using Suc.prems by (simp add: d)
  also have "\<dots> = map2 (XOR) (take (8 * n + 8) dst) (take (8 * n + 8) src) @ drop (8 * n + 8) dst"
    using Suc.prems by (simp add: take_add)
  finally show ?case by (simp add: algebra_simps)
qed simp

lemma xorblock_eq:
  "length dst = BLOCKSIZE \<Longrightarrow> BLOCKSIZE \<le> length src \<Longrightarrow> xorblock aligned src dst = map2 (XOR) dst (take BLOCKSIZE src)"
  using xor_longs_eq [of 2 dst src] xorblock_len_eq [of 16 dst src] by (simp add: xorblock_def BLOCKSIZE_def)

section \<open>The MAC\<close>

definition block_cipher :: "(bytes \<Rightarrow> bytes) \<Rightarrow> bool" where
  "block_cipher ecb \<longleftrightarrow> (\<forall>b. length b = BLOCKSIZE \<longrightarrow> length (ecb b) = BLOCKSIZE)"

lemma xor_zero_tail:
  assumes "length dst = BLOCKSIZE" "n \<le> BLOCKSIZE" "BLOCKSIZE \<le> length src" "\<And>i. n \<le> i \<Longrightarrow> i < BLOCKSIZE \<Longrightarrow> src ! i = 0"
  shows "xorblock_len src dst n = xorblock aligned src dst"
proof -
  have "xorblock_len src dst n = map2 (XOR) (take n dst) (take n src) @ drop n dst"
    using assms by (intro xorblock_len_eq) simp_all
  also have "\<dots> = map2 (XOR) dst (take BLOCKSIZE src)"
    using assms by (intro nth_equalityI) (auto simp: nth_append)
  finally show ?thesis using assms by (simp add: xorblock_eq)
qed

definition blocks_len :: "nat \<Rightarrow> nat" where
  "blocks_len n = (n + 15) div 16 * 16"

lemma blocks_len_0 [simp]: "blocks_len 0 = 0"
  by (simp add: blocks_len_def)

lemma blocks_len_add: "blocks_len (16 * n + l) = 16 * n + blocks_len l"
  unfolding blocks_len_def by (simp add: add.assoc distrib_right)

lemma blocks_len_ge: "l \<le> blocks_len l"
  unfolding blocks_len_def by presburger

lemma mac_encrypt_decrypt:
  assumes "block_cipher ecb" "length mac = BLOCKSIZE" "blocks_len n \<le> length p" "\<And>i. n \<le> i \<Longrightarrow> i < blocks_len n \<Longrightarrow> p ! i = 0"
  shows "mac_encrypt ecb aligned p (int n) mac = mac_decrypt ecb aligned' p n mac"
  using assms(2-)
proof (induction n arbitrary: p mac rule: less_induct)
  case (less n)
  have len: "length (ecb (xorblock a p mac)) = BLOCKSIZE" if "BLOCKSIZE \<le> length p" for a
    using assms(1) less.prems(1) that by (simp add: block_cipher_def xorblock_eq)
  have eq: "xorblock aligned p mac = xorblock aligned' p mac" if "BLOCKSIZE \<le> length p"
    using less.prems(1) that by (simp add: xorblock_eq)
  consider "n = 0" | "0 < n" "n < 16" | "16 \<le> n" by linarith
  then show ?case
  proof cases
    case 1
    then show ?thesis by (simp add: mac_encrypt.simps mac_decrypt.simps BLOCKSIZE_def)
  next
    case 2
    then have b: "blocks_len n = 16" by (simp add: blocks_len_def)
    then have l: "BLOCKSIZE \<le> length p" using less.prems(2) by (simp add: BLOCKSIZE_def)
    have "xorblock_len p mac n = xorblock aligned p mac"
      using 2 less.prems(1,3) l b by (intro xor_zero_tail) (auto simp: BLOCKSIZE_def)
    then show ?thesis using 2
      by (simp add: mac_encrypt.simps [of _ _ p] mac_decrypt.simps [of _ _ p]) (simp add: mac_encrypt.simps BLOCKSIZE_def)
  next
    case 3
    then obtain k where k: "n = k + 16" by (metis add.commute le_Suc_ex)
    then have b: "blocks_len n = blocks_len k + 16" using blocks_len_add [of 1 k] by (simp add: add.commute)
    then have l: "BLOCKSIZE \<le> length p" using less.prems(2) by (simp add: BLOCKSIZE_def)
    have "mac_encrypt ecb aligned (drop 16 p) (int k) (ecb (xorblock aligned p mac)) =
        mac_decrypt ecb aligned' (drop 16 p) k (ecb (xorblock aligned p mac))"
      using k b less.prems(2,3) len [OF l] by (intro less.IH) (auto simp: BLOCKSIZE_def)
    then show ?thesis using 3 k eq [OF l]
      by (simp add: mac_encrypt.simps [of _ _ p] mac_decrypt.simps [of _ _ p] BLOCKSIZE_def)
  qed
qed

lemma mac_decrypt_split:
  "mac_decrypt ecb aligned (p @ q) (16 * n + m) mac = mac_decrypt ecb aligned q m (mac_decrypt ecb aligned p (16 * n) mac)"
  if "length p = 16 * n" "length mac = BLOCKSIZE" "block_cipher ecb"
  using that(1,2)
proof (induction n arbitrary: p mac)
  case 0
  then show ?case by (simp add: mac_decrypt.simps [of _ _ "[]"] BLOCKSIZE_def)
next
  case (Suc n)
  have x: "xorblock aligned (p @ q) mac = xorblock aligned p mac"
    using Suc.prems by (simp add: xorblock_eq BLOCKSIZE_def)
  have l: "length (ecb (xorblock aligned p mac)) = BLOCKSIZE"
    using Suc.prems that(3) by (simp add: xorblock_eq BLOCKSIZE_def block_cipher_def)
  have "mac_decrypt ecb aligned (drop 16 p @ q) (16 * n + m) (ecb (xorblock aligned p mac)) =
      mac_decrypt ecb aligned q m (mac_decrypt ecb aligned (drop 16 p) (16 * n) (ecb (xorblock aligned p mac)))"
    using Suc.prems l by (intro Suc.IH) simp_all
  then show ?case using Suc.prems x
    by (simp add: mac_decrypt.simps [of _ _ "p @ q"] mac_decrypt.simps [of _ _ p] BLOCKSIZE_def)
qed

section \<open>Encrypting and decrypting a piece\<close>

text \<open>
  What is used of the counter mode: it keeps the length, applying it twice gives the data back,
  and after whole blocks it goes on as if started at the counter of the next block.
\<close>

definition counter_mode :: "(bytes \<Rightarrow> bytes \<Rightarrow> bytes) \<Rightarrow> bool" where
  "counter_mode f \<longleftrightarrow> (\<forall>iv xs. length (f iv xs) = length xs \<and> f iv (f iv xs) = xs) \<and>
    (\<forall>v q n xs ys. 0 \<le> q \<longrightarrow> q + int n < 2 ^ 63 \<longrightarrow> length xs = 16 * n \<longrightarrow>
      f (ctr_block v q) (xs @ ys) = f (ctr_block v q) xs @ f (ctr_block v (q + int n)) ys)"

lemma padded_len_eq: "unat len < 2 ^ 31 \<Longrightarrow> unat (padded_len len) = blocks_len (unat len)"
proof -
  assume l: "unat len < 2 ^ 31"
  let ?w = "drop_bit 4 (word_of_nat (unat len + 15)) :: u32"
  have "len + word_of_nat 16 - 1 = (word_of_nat (unat len + 15) :: u32)" by (simp add: word_of_nat_eq_iff)
  moreover have "NOT (15 :: u32) = NOT (mask 4)" by (simp add: mask_eq_exp_minus_1)
  ultimately have "padded_len len = word_of_nat (unat len + 15) AND NOT (mask 4)" by (simp add: padded_len_def BLOCKSIZE_def add.commute)
  then have p: "padded_len len = push_bit 4 (drop_bit 4 (word_of_nat (unat len + 15)))"
    by (intro bit_word_eqI) (auto simp: bit_simps)
  have "unat (word_of_nat (unat len + 15) :: u32) = unat len + 15" by (subst unat_of_nat) (use l in simp)
  then have "unat (drop_bit 4 (word_of_nat (unat len + 15) :: u32)) = (unat len + 15) div 16"
    by (simp add: unat_drop_bit_eq drop_bit_eq_div unat_div)
  moreover have "(unat len + 15) div 16 * 16 < 2 ^ 32"
    using div_times_less_eq_dividend [of "unat len + 15" 16] l by simp
  ultimately have "unat ?w * unat (16 :: u32) < 2 ^ LENGTH(32)" and w: "unat ?w = (unat len + 15) div 16" by simp_all
  then have "unat (?w * 16) = unat ?w * unat (16 :: u32)" by (subst (asm) unat_mult_lem)
  then show ?thesis unfolding p blocks_len_def using w by (simp add: push_bit_eq_mult)
qed

lemma sdiv_nonneg: "0 \<le> x \<Longrightarrow> x sdiv 16 = x div (16 :: int)"
  by (cases "x = 0") (simp_all add: signed_divide_int_def sgn_if)

lemma length_ctr_block [simp]: "length (ctr_block v q) = 16"
  by (simp add: ctr_block_def setint64_def)

text \<open>The result of a whole piece, with the MAC started.\<close>

definition start_mac :: "u64 \<Rightarrow> bytes" where
  "start_mac v = le_bytes 8 v @ le_bytes 8 v"

lemma ctr_crypt_decrypt:
  assumes "unat len < 2 ^ 31" "length data = blocks_len (unat len)"
  shows "ctr_crypt ecb f aligned data len pos v (Some mac) False initmac =
    (f (ctr_block v (pos sdiv 16)) data,
     Some (mac_decrypt ecb aligned (f (ctr_block v (pos sdiv 16)) data) (unat len) (if initmac then start_mac v else mac)))"
  using assms by (simp add: ctr_crypt_def Let_def padded_len_eq BLOCKSIZE_def start_mac_def ctr_block_def)

lemma ctr_crypt_encrypt:
  assumes "unat len < 2 ^ 31" "length data = blocks_len (unat len)"
  shows "ctr_crypt ecb f aligned data len pos v (Some mac) True initmac =
    (f (ctr_block v (pos sdiv 16)) data,
     Some (mac_encrypt ecb aligned data (int (unat len)) (if initmac then start_mac v else mac)))"
  using assms by (simp add: ctr_crypt_def Let_def padded_len_eq BLOCKSIZE_def start_mac_def ctr_block_def)

lemma mac_decrypt_aligned:
  "block_cipher ecb \<Longrightarrow> length mac = BLOCKSIZE \<Longrightarrow> n \<le> length p \<Longrightarrow> mac_decrypt ecb aligned p n mac = mac_decrypt ecb aligned' p n mac"
proof (induction n arbitrary: p mac rule: less_induct)
  case (less n)
  show ?case
  proof (cases "BLOCKSIZE \<le> n")
    case True
    have "xorblock aligned p mac = xorblock aligned' p mac" using less.prems True by (simp add: xorblock_eq)
    moreover have "length (ecb (xorblock aligned' p mac)) = BLOCKSIZE"
      using less.prems True by (simp add: xorblock_eq block_cipher_def)
    ultimately show ?thesis
      using less.IH [of "n - BLOCKSIZE" "ecb (xorblock aligned' p mac)" "drop BLOCKSIZE p"] less.prems True
      by (simp add: mac_decrypt.simps [of _ _ p] BLOCKSIZE_def)
  qed (simp add: mac_decrypt.simps)
qed

lemma length_start_mac [simp]: "length (start_mac v) = 16"
  by (simp add: start_mac_def)

lemma length_mac_decrypt: "block_cipher ecb \<Longrightarrow> length mac = BLOCKSIZE \<Longrightarrow> length p = 16 * n \<Longrightarrow> length (mac_decrypt ecb aligned p (16 * n) mac) = BLOCKSIZE"
proof (induction n arbitrary: p mac)
  case (Suc n)
  then have "length (ecb (xorblock aligned p mac)) = BLOCKSIZE" by (simp add: xorblock_eq block_cipher_def BLOCKSIZE_def)
  then show ?case using Suc by (simp add: mac_decrypt.simps [of _ _ p] BLOCKSIZE_def)
qed (simp add: mac_decrypt.simps BLOCKSIZE_def)

text \<open>
  A zero-padded piece of a file is encrypted in one call that starts the MAC.  Decrypting it in
  two calls, the first up to any block boundary and the second continuing from there with the MAC
  of the first, gives back the plaintext and the same MAC, although encryption runs over the
  padding and decryption only over the data, and whether or not the buffers are aligned.
\<close>

lemma ctr_parts:
  assumes "counter_mode f" "block_cipher ecb" "unat len < 2 ^ 31" "length data = blocks_len (unat len)"
    and "\<forall>i. unat len \<le> i \<longrightarrow> i < blocks_len (unat len) \<longrightarrow> data ! i = 0"
    and "0 \<le> pos" "pos mod 16 = 0" "pos < 2 ^ 62" "16 * n \<le> unat len"
    and "(c, m) = ctr_crypt ecb f a data len pos v (Some mac) True True"
    and "(x1, m1) = ctr_crypt ecb f a1 (take (16 * n) c) (word_of_nat (16 * n)) pos v (Some mac') False True"
    and "(x2, m2) = ctr_crypt ecb f a2 (drop (16 * n) c) (len - word_of_nat (16 * n)) (pos + 16 * int n) v m1 False False"
  shows "x1 @ x2 = data \<and> m2 = m"
proof -
  let ?q = "pos sdiv 16" and ?l = "unat len - 16 * n" and ?s = "start_mac v"
  have "pos sdiv 16 = pos div 16" "(pos + 16 * int n) sdiv 16 = pos div 16 + int n"
    using assms(6,7) by (simp_all add: sdiv_nonneg)
  then have q: "(pos + 16 * int n) sdiv 16 = ?q + int n" "0 \<le> ?q" "?q + int n < 2 ^ 63"
    using assms(3,6,8,9) by simp_all
  have n: "unat (word_of_nat (16 * n) :: u32) = 16 * n" by (subst unat_of_nat) (use assms(3,9) in simp)
  have l2: "unat (len - word_of_nat (16 * n)) = ?l" using n assms(9) by (simp add: unat_sub word_le_nat_alt)
  have c: "c = f (ctr_block v ?q) data" and m: "m = Some (mac_encrypt ecb a data (int (unat len)) ?s)"
    using assms(3,4,10) by (simp_all add: ctr_crypt_encrypt)
  have lc: "length c = blocks_len (unat len)" using assms(1,4) c by (simp add: counter_mode_def)
  have b: "blocks_len (unat len) = 16 * n + blocks_len ?l" "blocks_len (16 * n) = 16 * n" "?l \<le> blocks_len ?l"
    using blocks_len_add [of n ?l] blocks_len_add [of n 0] blocks_len_ge assms(9) by simp_all
  have x1: "x1 = f (ctr_block v ?q) (take (16 * n) c)" and m1: "m1 = Some (mac_decrypt ecb a1 x1 (16 * n) ?s)"
    using assms(3,9,11) n lc b by (simp_all add: ctr_crypt_decrypt)
  have x2: "x2 = f (ctr_block v (?q + int n)) (drop (16 * n) c)" and m2: "m2 = Some (mac_decrypt ecb a2 x2 ?l (mac_decrypt ecb a1 x1 (16 * n) ?s))"
    using assms(3,12) l2 lc b m1 q(1) by (simp_all add: ctr_crypt_decrypt)
  have law: "f (ctr_block v ?q) (xs @ ys) = f (ctr_block v ?q) xs @ f (ctr_block v (?q + int n)) ys" if "length xs = 16 * n" for xs ys
    using assms(1) q(2,3) that unfolding counter_mode_def by blast
  have "f (ctr_block v ?q) c = f (ctr_block v ?q) (take (16 * n) c @ drop (16 * n) c)" by simp
  also have "\<dots> = x1 @ x2" unfolding x1 x2 using lc b by (intro law) simp
  finally have d: "x1 @ x2 = data" using assms(1) c by (simp add: counter_mode_def)
  have lx: "length x1 = 16 * n" using assms(1) x1 lc b by (simp add: counter_mode_def)
  have "mac_encrypt ecb a data (int (unat len)) ?s = mac_decrypt ecb a1 (x1 @ x2) (16 * n + ?l) ?s"
    using mac_encrypt_decrypt [OF assms(2), of ?s "unat len" data a a1] assms(4,5,9) d by (simp add: BLOCKSIZE_def)
  also have "\<dots> = mac_decrypt ecb a1 x2 ?l (mac_decrypt ecb a1 x1 (16 * n) ?s)"
    using lx assms(2) by (intro mac_decrypt_split) (simp_all add: BLOCKSIZE_def)
  also have "\<dots> = mac_decrypt ecb a2 x2 ?l (mac_decrypt ecb a1 x1 (16 * n) ?s)"
    using lx assms(2,4) d b by (intro mac_decrypt_aligned length_mac_decrypt) (auto simp: BLOCKSIZE_def)
  finally show ?thesis using d m m2 by simp
qed

section \<open>Padding\<close>

text \<open>What is used of the CBC mode: on whole blocks it succeeds, keeps the length and can be undone.\<close>

definition cbc_modes :: "(bytes \<Rightarrow> bytes \<Rightarrow> bytes option) \<Rightarrow> (bytes \<Rightarrow> bytes \<Rightarrow> bytes option) \<Rightarrow> bool" where
  "cbc_modes enc dec \<longleftrightarrow> (\<forall>iv d. length iv = BLOCKSIZE \<longrightarrow> length d mod BLOCKSIZE = 0 \<longrightarrow>
     (\<exists>c. enc iv d = Some c \<and> length c = length d \<and> dec iv c = Some d))"

lemma length_resize [simp]: "length (resize n b xs) = n"
  by (simp add: resize_def)

lemma length_widen_iv [simp]: "length (widen_iv iv) = BLOCKSIZE"
  by (simp add: widen_iv_def)

lemma widen_iv_resize: "widen_iv (resize 8 0 (widen_iv iv)) = widen_iv iv"
  by (auto simp: widen_iv_def resize_def BLOCKSIZE_def min_def replicate_add [symmetric])

lemma length_pad_data: "length (pad_data data) mod BLOCKSIZE = 0"
  by (simp add: pad_data_def)

lemma pad_data_eq: "\<exists>n. pad_data data = data @ ch CHR ''E'' # replicate n (ch CHR ''P'')"
proof -
  let ?d = "data @ [ch CHR ''E'']" and ?n = "(length data + 1 + BLOCKSIZE - 1) div BLOCKSIZE * BLOCKSIZE"
  have "length data + 1 \<le> ?n" unfolding BLOCKSIZE_def by presburger
  then show ?thesis by (intro exI [of _ "?n - (length data + 1)"]) (simp add: pad_data_def resize_def)
qed

lemma find_last_of_pad: "b \<noteq> c \<Longrightarrow> find_last_of b (xs @ b # replicate n c) = Some (length xs)"
proof -
  assume bc: "b \<noteq> c"
  let ?xs = "xs @ b # replicate n c"
  have "[0..<length ?xs] = [0..<length xs] @ [length xs..<length ?xs]"
    using upt_add_eq_append [of 0 "length xs" "Suc n"] by simp
  also have "[length xs..<length ?xs] = length xs # [Suc (length xs)..<length ?xs]" by (rule upt_conv_Cons) simp
  finally have "[0..<length ?xs] = [0..<length xs] @ length xs # [Suc (length xs)..<length ?xs]" .
  moreover have "filter (\<lambda>i. ?xs ! i = b) [Suc (length xs)..<length ?xs] = []"
    using bc by (auto simp: filter_empty_conv nth_append nth_Cons')
  ultimately have "\<exists>is. filter (\<lambda>i. ?xs ! i = b) [0..<length ?xs] = is @ [length xs]" by simp
  then show ?thesis by (auto simp: find_last_of_def)
qed

section \<open>Properties\<close>

text \<open>
  C27: \<^verbatim>\<open>PaddedCBC::decrypt\<close> gives back what \<^verbatim>\<open>PaddedCBC::encrypt\<close> was given, for data of every length and content
  (also data that ends in the padding letters), without an IV and with one of any length: the
  IV that encryption leaves to its caller is the one decryption needs.
\<close>

theorem padded_cbc_roundtrip:
  assumes "cbc_modes enc dec"
  shows "\<exists>c. fst (padded_encrypt enc random beyond data iv) = Some c \<and>
    padded_decrypt dec c (snd (padded_encrypt enc random beyond data iv)) = Some data"
proof -
  let ?iv = "map_option (\<lambda>v. widen_iv (if v = [] then fresh_iv random beyond else v)) iv"
  let ?k = "case ?iv of None \<Rightarrow> replicate BLOCKSIZE 0 | Some v \<Rightarrow> v"
  have "length ?k = BLOCKSIZE" by (auto split: option.split)
  then obtain c where c: "enc ?k (pad_data data) = Some c" "length c = length (pad_data data)" "dec ?k c = Some (pad_data data)"
    using assms length_pad_data unfolding cbc_modes_def by meson
  have k: "(case map_option (resize 8 0) ?iv of None \<Rightarrow> replicate BLOCKSIZE 0 | Some v \<Rightarrow> widen_iv v) = ?k"
    by (cases iv) (simp_all only: option.map option.case widen_iv_resize)
  obtain n where n: "pad_data data = data @ ch CHR ''E'' # replicate n (ch CHR ''P'')" using pad_data_eq by blast
  have "find_last_of (ch CHR ''E'') (pad_data data) = Some (length data)" unfolding n by (rule find_last_of_pad) simp
  then have "padded_decrypt dec c (map_option (resize 8 0) ?iv) = Some data"
    unfolding padded_decrypt_def k using c length_pad_data [of data] n by simp
  then show ?thesis using c(1) by (simp add: padded_encrypt_def Let_def)
qed

theorem padded_cbc_roundtrip_witness:
  "\<exists>c. fst (padded_encrypt (\<lambda>iv d. Some (rev d)) [] [] (asc ''PEP'') (Some [7])) = Some c \<and>
    padded_decrypt (\<lambda>iv d. Some (rev d)) c (snd (padded_encrypt (\<lambda>iv d. Some (rev d)) [] [] (asc ''PEP'') (Some [7]))) = Some (asc ''PEP'')"
proof -
  have "cbc_modes (\<lambda>iv d. Some (rev d)) (\<lambda>iv d. Some (rev d))" by (simp add: cbc_modes_def)
  from padded_cbc_roundtrip [OF this] show ?thesis by blast
qed



definition sample_piece :: bytes where
  "sample_piece = map word_of_nat [1..<21] @ replicate 12 0"

end
