(* ===== verification/Mega_Chunks.thy ===== *)
theory Mega_Chunks
  imports Mega_Cipher Mega_Containers
begin

text \<open>
  How files are divided into chunks and how the chunks' MACs are kept while a transfer is under
  way: \<^verbatim>\<open>ChunkedHash\<close> and \<^verbatim>\<open>chunkmac_map\<close> of \<^verbatim>\<open>src/utils.cpp\<close>.  The map is a \<^verbatim>\<open>std::map\<close> from chunk starts to
  the chunk's MAC and how much of it is done; its first entry may stand for all the chunks up to
  it (\<^verbatim>\<open>isMacsmacSoFar\<close>).  File positions are signed 64-bit integers, here integers.  Loops that may not end are partial functions.
  The lemmas: the chunk boundaries, that a map is read back from the cache, and that
  consolidating the first entries ends and does not change the file's MAC.
\<close>

section \<open>Chunks\<close>

definition SEGSIZE :: int where
  "SEGSIZE = 131072"

fun floor_loop :: "int list \<Rightarrow> m_off_t \<Rightarrow> m_off_t \<Rightarrow> m_off_t" where
  "floor_loop [] cp p = ((p - cp) AND - (8 * SEGSIZE)) + cp"
| "floor_loop (i # is) cp p =
    (let np = cp + i * SEGSIZE in if p \<ge> cp \<and> p < np then cp else floor_loop is np p)"

definition chunkfloor :: "m_off_t \<Rightarrow> m_off_t" where
  "chunkfloor p = floor_loop [1, 2, 3, 4, 5, 6, 7, 8] 0 p"

fun ceil_loop :: "int list \<Rightarrow> m_off_t \<Rightarrow> m_off_t \<Rightarrow> m_off_t \<Rightarrow> m_off_t" where
  "ceil_loop [] cp p limit =
    (let np = ((p - cp) AND - (8 * SEGSIZE)) + cp + 8 * SEGSIZE in if limit < 0 \<or> np < limit then np else limit)"
| "ceil_loop (i # is) cp p limit =
    (let np = cp + i * SEGSIZE in
     if p \<ge> cp \<and> p < np then if limit < 0 \<or> np < limit then np else limit else ceil_loop is np p limit)"

definition chunkceil :: "m_off_t \<Rightarrow> m_off_t \<Rightarrow> m_off_t" where
  "chunkceil p limit = ceil_loop [1, 2, 3, 4, 5, 6, 7, 8] 0 p limit"

section \<open>The map\<close>

record chunk_mac =
  cmac :: bytes
  offset :: u32
  finished :: bool

record chunkmac_map =
  mMacMap :: "(m_off_t, chunk_mac) smap"
  macsmacSoFarPos :: m_off_t
  progresscontiguous :: m_off_t

definition new_chunk :: chunk_mac where
  "new_chunk = \<lparr>cmac = replicate BLOCKSIZE 0, offset = 0, finished = False\<rparr>"

definition notStarted :: "chunk_mac \<Rightarrow> bool" where
  "notStarted c \<longleftrightarrow> \<not> finished c \<and> offset c = 0"

definition isMacsmacSoFar :: "chunk_mac \<Rightarrow> bool" where
  "isMacsmacSoFar c \<longleftrightarrow> finished c \<and> offset c = - 1"

definition new_chunkmac_map :: chunkmac_map where
  "new_chunkmac_map = \<lparr>mMacMap = [], macsmacSoFarPos = - 1, progresscontiguous = 0\<rparr>"

definition chunkmacs_size :: "chunkmac_map \<Rightarrow> nat" where
  "chunkmacs_size m = length (mMacMap m)"

definition chunkmacs_clear :: "chunkmac_map \<Rightarrow> chunkmac_map" where
  "chunkmacs_clear m = m\<lparr>mMacMap := [], macsmacSoFarPos := - 1, progresscontiguous := 0\<rparr>"

text \<open>
  The cache format copies the objects as they are in memory; the three bytes of padding at the
  end of each have no value of their own and are an argument.
\<close>

definition put_chunk :: "bytes \<Rightarrow> m_off_t \<times> chunk_mac \<Rightarrow> bytes" where
  "put_chunk padding e = le_bytes 8 (word_of_int (fst e) :: u64) @ cmac (snd e) @ le_bytes 4 (offset (snd e)) @
     [if finished (snd e) then 1 else 0] @ padding"

definition chunkmacs_serialize :: "bytes \<Rightarrow> chunkmac_map \<Rightarrow> bytes" where
  "chunkmacs_serialize padding m =
    le_bytes 2 (word_of_nat (chunkmacs_size m) :: u16) @ concat (map (put_chunk padding) (mMacMap m))"

definition get_chunk :: "bytes \<Rightarrow> m_off_t \<times> chunk_mac" where
  "get_chunk bs = (sint (le_word (take 8 bs) :: u64),
     \<lparr>cmac = take 16 (drop 8 bs), offset = le_word (take 4 (drop 24 bs)), finished = (bs ! 28 \<noteq> 0)\<rparr>)"

fun get_chunks :: "nat \<Rightarrow> bytes \<Rightarrow> chunkmac_map \<Rightarrow> chunkmac_map \<times> bytes" where
  "get_chunks 0 bs m = (m, bs)"
| "get_chunks (Suc n) bs m =
    (let (pos, c) = get_chunk bs; m' = m\<lparr>mMacMap := map_set pos c (mMacMap m)\<rparr>
     in get_chunks n (drop 32 bs) (if isMacsmacSoFar c then m'\<lparr>macsmacSoFarPos := pos\<rparr> else m'))"

definition chunkmacs_unserialize :: "bytes \<Rightarrow> chunkmac_map \<Rightarrow> (chunkmac_map \<times> bytes) option" where
  "chunkmacs_unserialize bs m =
    (if length bs < 2 then None
     else let ll = unat (le_word (take 2 bs) :: u16) in
       if length bs < ll * 32 + 2 then None else Some (get_chunks ll (drop 2 bs) m))"

section \<open>Progress\<close>

text \<open>The loop's variables: \<^verbatim>\<open>chunkpos\<close>, \<^verbatim>\<open>progresscompleted\<close>, the sum over partial chunks and \<^verbatim>\<open>macsmacSoFarPos\<close>.\<close>

fun progress_loop :: "m_off_t \<Rightarrow> (m_off_t \<times> chunk_mac) list \<Rightarrow> m_off_t \<times> m_off_t \<times> m_off_t \<times> m_off_t \<Rightarrow>
    m_off_t \<times> m_off_t \<times> m_off_t \<times> m_off_t" where
  "progress_loop fsize [] s = s"
| "progress_loop fsize ((k, c) # es) (chunkpos, done, partial, sofar) =
    (let end = chunkceil k fsize in
     progress_loop fsize es
      (if isMacsmacSoFar c then (end, end, partial, k)
       else if chunkpos = k \<and> finished c then (end, end, partial, sofar)
       else if finished c then (chunkpos, done + (end - chunkfloor k), partial, sofar)
       else (chunkpos, done + uint (offset c), partial + uint (offset c), sofar)))"

definition setProgressContiguous :: "m_off_t \<Rightarrow> chunkmac_map \<Rightarrow> chunkmac_map" where
  "setProgressContiguous p m = m\<lparr>progresscontiguous := p\<rparr>"

definition calcprogress :: "m_off_t \<Rightarrow> m_off_t \<Rightarrow> chunkmac_map \<Rightarrow> m_off_t \<times> m_off_t \<times> m_off_t \<times> chunkmac_map" where
  "calcprogress fsize sumOfPartialChunks m =
    (let (chunkpos, done, partial, sofar) = progress_loop fsize (mMacMap m) (0, 0, sumOfPartialChunks, macsmacSoFarPos m)
     in (chunkpos, done, partial, setProgressContiguous chunkpos (m\<lparr>macsmacSoFarPos := sofar\<rparr>)))"

definition finishedAt :: "chunkmac_map \<Rightarrow> m_off_t \<Rightarrow> bool" where
  "finishedAt m pos \<longleftrightarrow> (case map_find (mMacMap m) pos of None \<Rightarrow> False | Some c \<Rightarrow> finished c)"

partial_function (option) updateContiguousProgress :: "m_off_t \<Rightarrow> chunkmac_map \<Rightarrow> chunkmac_map option" where
  "updateContiguousProgress fileSize m =
    (if finishedAt m (progresscontiguous m)
     then updateContiguousProgress fileSize (setProgressContiguous (chunkceil (progresscontiguous m) fileSize) m)
     else Some m)"

partial_function (option) nextUnprocessedPosFrom :: "chunkmac_map \<Rightarrow> m_off_t \<Rightarrow> m_off_t option" where
  "nextUnprocessedPosFrom m pos =
    (case map_find (mMacMap m) (chunkfloor pos) of
       None \<Rightarrow> Some pos
     | Some c \<Rightarrow> if finished c then nextUnprocessedPosFrom m (chunkceil pos (- 1)) else Some (pos + uint (offset c)))"

partial_function (option) expandUnprocessedPiece :: "chunkmac_map \<Rightarrow> m_off_t \<Rightarrow> m_off_t \<Rightarrow> m_off_t \<Rightarrow> m_off_t \<Rightarrow> m_off_t option" where
  "expandUnprocessedPiece m pos npos fileSize maxReqSize =
    (if npos < fileSize \<and> npos - pos < maxReqSize \<and>
        (case map_find (mMacMap m) npos of None \<Rightarrow> True | Some c \<Rightarrow> notStarted c)
     then expandUnprocessedPiece m pos (chunkceil npos fileSize) fileSize maxReqSize
     else Some npos)"

fun gap_loop :: "chunkmac_map \<Rightarrow> m_off_t \<Rightarrow> (m_off_t \<times> chunk_mac) list \<Rightarrow> bool \<Rightarrow> bool" where
  "gap_loop m fileSize [] sawUnfinished = False"
| "gap_loop m fileSize ((k, c) # es) saw0 =
    (let sawUnfinished = (if \<not> finished c then True else saw0);
         nextpos = chunkceil k fileSize;
         expected = map_find (mMacMap m) nextpos
     in if sawUnfinished \<and> (case expected of None \<Rightarrow> False | Some e \<Rightarrow> finished e) then True
        else gap_loop m fileSize es
          (if (case es of [] \<Rightarrow> expected \<noteq> None | (k', _) # _ \<Rightarrow> expected = None \<or> k' \<noteq> nextpos) then True else sawUnfinished))"

definition hasUnfinishedGap :: "chunkmac_map \<Rightarrow> m_off_t \<Rightarrow> bool" where
  "hasUnfinishedGap m fileSize = gap_loop m fileSize (mMacMap m) False"

section \<open>Encryption and decryption\<close>

definition chunk_ctr_encrypt :: "(bytes \<Rightarrow> bytes) \<Rightarrow> (bytes \<Rightarrow> bytes \<Rightarrow> bytes) \<Rightarrow> bool \<Rightarrow> m_off_t \<Rightarrow> bytes \<Rightarrow> u32 \<Rightarrow> m_off_t \<Rightarrow> u64 \<Rightarrow>
    bool \<Rightarrow> chunkmac_map \<Rightarrow> bytes \<times> chunkmac_map" where
  "chunk_ctr_encrypt ecb ctr_mode aligned chunkid data chunksize startpos ctriv finishesChunk m =
    (let chunk = (case map_find (mMacMap m) chunkid of None \<Rightarrow> new_chunk | Some c \<Rightarrow> c);
         (data', mac) = ctr_crypt ecb ctr_mode aligned data chunksize startpos ctriv (Some (cmac chunk)) True True;
         chunk' = chunk\<lparr>cmac := the mac, offset := 0, finished := finishesChunk\<rparr>
     in (data', m\<lparr>mMacMap := map_set chunkid chunk' (mMacMap m)\<rparr>))"

definition chunk_ctr_decrypt :: "(bytes \<Rightarrow> bytes) \<Rightarrow> (bytes \<Rightarrow> bytes \<Rightarrow> bytes) \<Rightarrow> bool \<Rightarrow> m_off_t \<Rightarrow> bytes \<Rightarrow> u32 \<Rightarrow> m_off_t \<Rightarrow> u64 \<Rightarrow>
    bool \<Rightarrow> chunkmac_map \<Rightarrow> bytes \<times> chunkmac_map" where
  "chunk_ctr_decrypt ecb ctr_mode aligned chunkid data chunksize startpos ctriv finishesChunk m =
    (let chunk = (case map_find (mMacMap m) chunkid of None \<Rightarrow> new_chunk | Some c \<Rightarrow> c);
         (data', mac) = ctr_crypt ecb ctr_mode aligned data chunksize startpos ctriv (Some (cmac chunk)) False (notStarted chunk);
         chunk' = (if finishesChunk then chunk\<lparr>cmac := the mac, finished := True, offset := 0\<rparr>
                   else chunk\<lparr>cmac := the mac, finished := False, offset := offset chunk + chunksize\<rparr>)
     in (data', m\<lparr>mMacMap := map_set chunkid chunk' (mMacMap m)\<rparr>))"

section \<open>The file's MAC\<close>

text \<open>The four words of a block are folded to two.\<close>

definition fold_mac :: "bytes \<Rightarrow> u64" where
  "fold_mac mac =
    (let w = (\<lambda>i. le_word (take 4 (drop (4 * i) mac)) :: u32)
     in le_word (le_bytes 4 (w 0 XOR w 1) @ le_bytes 4 (w 2 XOR w 3)))"

definition add_mac :: "(bytes \<Rightarrow> bytes) \<Rightarrow> bool \<Rightarrow> m_off_t \<times> chunk_mac \<Rightarrow> bytes \<Rightarrow> bytes" where
  "add_mac ecb aligned e mac =
    (if isMacsmacSoFar (snd e) then cmac (snd e) else ecb (xorblock aligned (cmac (snd e)) mac))"

definition macsmac :: "(bytes \<Rightarrow> bytes) \<Rightarrow> bool \<Rightarrow> chunkmac_map \<Rightarrow> u64" where
  "macsmac ecb aligned m = fold_mac (fold (add_mac ecb aligned) (mMacMap m) (replicate BLOCKSIZE 0))"

partial_function (option) count_chunks :: "m_off_t \<Rightarrow> m_off_t \<Rightarrow> nat \<Rightarrow> nat option" where
  "count_chunks pos limit n = (if pos \<le> limit then count_chunks (chunkceil pos (- 1)) limit (Suc n) else Some n)"

fun gaps_loop :: "(bytes \<Rightarrow> bytes) \<Rightarrow> bool \<Rightarrow> nat \<times> nat \<times> nat \<times> nat \<Rightarrow> (m_off_t \<times> chunk_mac) list \<Rightarrow> nat \<Rightarrow> bytes \<Rightarrow> bytes option" where
  "gaps_loop ecb aligned g [] n mac = Some mac"
| "gaps_loop ecb aligned (g1, g2, g3, g4) (e # es) n mac =
    (if isMacsmacSoFar (snd e) then
       (case count_chunks 0 (fst e) n of None \<Rightarrow> None | Some n' \<Rightarrow> gaps_loop ecb aligned (g1, g2, g3, g4) es (Suc n') (cmac (snd e)))
     else if g1 \<le> n \<and> n < g2 \<or> g3 \<le> n \<and> n < g4 then gaps_loop ecb aligned (g1, g2, g3, g4) es (Suc n) mac
     else gaps_loop ecb aligned (g1, g2, g3, g4) es (Suc n) (ecb (xorblock aligned (cmac (snd e)) mac)))"

definition macsmac_gaps :: "(bytes \<Rightarrow> bytes) \<Rightarrow> bool \<Rightarrow> nat \<Rightarrow> nat \<Rightarrow> nat \<Rightarrow> nat \<Rightarrow> chunkmac_map \<Rightarrow> u64 option" where
  "macsmac_gaps ecb aligned g1 g2 g3 g4 m =
    map_option fold_mac (gaps_loop ecb aligned (g1, g2, g3, g4) (mMacMap m) 0 (replicate BLOCKSIZE 0))"

section \<open>Consolidation and copies\<close>

partial_function (option) updateMacsmacProgress :: "(bytes \<Rightarrow> bytes) \<Rightarrow> bool \<Rightarrow> chunkmac_map \<Rightarrow> chunkmac_map option" where
  "updateMacsmacProgress ecb aligned m =
    (if macsmacSoFarPos m + 1024 * 1024 * 5 < progresscontiguous m \<and> chunkmacs_size m > 32 * 3 + 5 then
       (case mMacMap m of
          (k, calcSoFar) # (k', next) # es \<Rightarrow>
            if isMacsmacSoFar calcSoFar then
              updateMacsmacProgress ecb aligned (m\<lparr>
                mMacMap := (k', next\<lparr>cmac := ecb (xorblock aligned (cmac next) (cmac calcSoFar)), offset := - 1\<rparr>) # es,
                macsmacSoFarPos := k'\<rparr>)
            else if k = 0 \<and> finishedAt m 0 then
              updateMacsmacProgress ecb aligned (m\<lparr>
                mMacMap := (k, calcSoFar\<lparr>cmac := ecb (xorblock aligned (cmac calcSoFar) (replicate BLOCKSIZE 0)), offset := - 1\<rparr>) # (k', next) # es,
                macsmacSoFarPos := 0\<rparr>)
            else updateMacsmacProgress ecb aligned m
        | _ \<Rightarrow> None)
     else Some m)"

text \<open>The confirmed chunks of an upload request; the request's own map is marked too.\<close>

definition finishedUploadChunks :: "chunkmac_map \<Rightarrow> chunkmac_map \<Rightarrow> chunkmac_map \<times> chunkmac_map" where
  "finishedUploadChunks macs m =
    (let es = map (\<lambda>(k, c). (k, c\<lparr>finished := True\<rparr>)) (mMacMap macs)
     in (macs\<lparr>mMacMap := es\<rparr>, m\<lparr>mMacMap := fold (\<lambda>(k, c). map_set k c) es (mMacMap m)\<rparr>))"

definition copyEntriesTo :: "chunkmac_map \<Rightarrow> chunkmac_map \<Rightarrow> chunkmac_map" where
  "copyEntriesTo m other = other\<lparr>mMacMap := fold (\<lambda>(k, c). map_set k c) (mMacMap m) (mMacMap other)\<rparr>"

definition RAIDLINE :: int where
  "RAIDLINE = 5 * 16"

partial_function (option) raidline_floor :: "m_off_t \<Rightarrow> m_off_t option" where
  "raidline_floor maxPos =
    (if maxPos > 0 \<and> maxPos mod RAIDLINE \<noteq> 0 then raidline_floor (chunkfloor (maxPos - maxPos mod RAIDLINE)) else Some maxPos)"

definition copyEntriesToUntilRaidlineBeforePos :: "m_off_t \<Rightarrow> chunkmac_map \<Rightarrow> chunkmac_map \<Rightarrow> (m_off_t \<times> chunkmac_map) option" where
  "copyEntriesToUntilRaidlineBeforePos pos m other =
    (case raidline_floor (chunkfloor pos) of
       None \<Rightarrow> None
     | Some maxPos \<Rightarrow>
         if maxPos = 0 then Some (0, other)
         else Some (maxPos, other\<lparr>mMacMap :=
           fold (\<lambda>(k, c). map_set k c) (takeWhile (\<lambda>(k, c). k < maxPos \<and> finished c) (mMacMap m)) (mMacMap other)\<rparr>))"

text \<open>Despite its name, \<^verbatim>\<open>copyEntryTo\<close> copies from \<open>other\<close>.\<close>

definition copyEntryTo :: "m_off_t \<Rightarrow> chunkmac_map \<Rightarrow> chunkmac_map \<Rightarrow> chunkmac_map \<times> chunkmac_map" where
  "copyEntryTo pos m other =
    (let c = (case map_find (mMacMap other) pos of None \<Rightarrow> new_chunk | Some c \<Rightarrow> c)
     in (m\<lparr>mMacMap := map_set pos c (mMacMap m)\<rparr>, other\<lparr>mMacMap := map_set pos c (mMacMap other)\<rparr>))"

definition chunkmacs_swap :: "chunkmac_map \<Rightarrow> chunkmac_map \<Rightarrow> chunkmac_map \<times> chunkmac_map" where
  "chunkmacs_swap m other =
    (m\<lparr>mMacMap := mMacMap other, macsmacSoFarPos := macsmacSoFarPos other, progresscontiguous := progresscontiguous other\<rparr>,
     other\<lparr>mMacMap := mMacMap m, macsmacSoFarPos := macsmacSoFarPos m, progresscontiguous := progresscontiguous m\<rparr>)"

declare updateContiguousProgress.simps [code] nextUnprocessedPosFrom.simps [code] expandUnprocessedPiece.simps [code]
  count_chunks.simps [code] updateMacsmacProgress.simps [code] raidline_floor.simps [code]

section \<open>The chunk boundaries\<close>

lemma and_chunk_mask: "x AND - 1048576 = x div 1048576 * (1048576 :: int)"
proof -
  have "(- 1048576 :: int) = NOT (mask 20)" by (simp add: mask_eq_exp_minus_1 not_int_def)
  moreover have "x AND NOT (mask 20) = push_bit 20 (drop_bit 20 x)" by (rule bit_eqI) (auto simp: bit_simps)
  ultimately show ?thesis by (simp add: push_bit_eq_mult drop_bit_eq_div)
qed

text \<open>The start of the \<open>k\<close>th chunk: the first eight chunks grow by one segment each, all later ones have eight.\<close>

definition chunk_start :: "nat \<Rightarrow> m_off_t" where
  "chunk_start k = SEGSIZE * (if k < 8 then int (k * (k + 1) div 2) else 36 + 8 * (int k - 8))"

lemma chunkfloor_cases:
  "chunkfloor p = (if p < 0 \<or> 4718592 \<le> p then (p - 4718592) div 1048576 * 1048576 + 4718592
    else if p < 131072 then 0 else if p < 393216 then 131072 else if p < 786432 then 393216
    else if p < 1310720 then 786432 else if p < 1966080 then 1310720 else if p < 2752512 then 1966080
    else if p < 3670016 then 2752512 else 3670016)"
  by (simp add: chunkfloor_def SEGSIZE_def and_chunk_mask Let_def)

lemma chunkceil_limit: "chunkceil p limit = (let np = chunkceil p (- 1) in if limit < 0 \<or> np < limit then np else limit)"
  by (simp add: chunkceil_def Let_def)

lemma chunkceil_cases:
  "chunkceil p (- 1) = (if p < 0 \<or> 4718592 \<le> p then (p - 4718592) div 1048576 * 1048576 + 5767168
    else if p < 131072 then 131072 else if p < 393216 then 393216 else if p < 786432 then 786432
    else if p < 1310720 then 1310720 else if p < 1966080 then 1966080 else if p < 2752512 then 2752512
    else if p < 3670016 then 3670016 else 4718592)"
  by (simp add: chunkceil_def SEGSIZE_def and_chunk_mask Let_def)

lemma chunk_start_small: "chunk_start 0 = 0" "chunk_start 1 = 131072" "chunk_start 2 = 393216" "chunk_start 3 = 786432"
  "chunk_start 4 = 1310720" "chunk_start 5 = 1966080" "chunk_start 6 = 2752512" "chunk_start 7 = 3670016"
  by (simp_all add: chunk_start_def SEGSIZE_def)

lemma chunk_start_large: "8 \<le> k \<Longrightarrow> chunk_start k = 4718592 + 1048576 * (int k - 8)"
  by (simp add: chunk_start_def SEGSIZE_def)

lemma chunk_of:
  assumes "chunk_start k \<le> p" "p < chunk_start (Suc k)"
  shows "chunkfloor p = chunk_start k \<and> chunkceil p (- 1) = chunk_start (Suc k)"
proof (cases "k < 8")
  case True
  then consider "k = 0" | "k = 1" | "k = 2" | "k = 3" | "k = 4" | "k = 5" | "k = 6" | "k = 7" by linarith
  then show ?thesis
    using assms by cases (simp_all add: chunk_start_def SEGSIZE_def chunkfloor_cases chunkceil_cases)
next
  case False
  then have "4718592 + 1048576 * (int k - 8) \<le> p" "p < 4718592 + 1048576 * (int k - 7)"
    using assms by (simp_all add: chunk_start_large)
  moreover from this have "(p - 4718592) div 1048576 = int k - 8"
    by (intro int_div_pos_eq [where r = "p - 4718592 - 1048576 * (int k - 8)"]) auto
  ultimately show ?thesis using False by (simp add: chunk_start_large chunkfloor_cases chunkceil_cases)
qed

lemma chunk_exists: "0 \<le> p \<Longrightarrow> \<exists>k. chunk_start k \<le> p \<and> p < chunk_start (Suc k)"
proof (cases "p < 4718592")
  case True
  assume "0 \<le> p"
  with True consider "p < 131072" | "131072 \<le> p" "p < 393216" | "393216 \<le> p" "p < 786432" | "786432 \<le> p" "p < 1310720"
    | "1310720 \<le> p" "p < 1966080" | "1966080 \<le> p" "p < 2752512" | "2752512 \<le> p" "p < 3670016" | "3670016 \<le> p"
    by linarith
  then show ?thesis
  proof cases
    case 1 then show ?thesis using \<open>0 \<le> p\<close> by (intro exI [of _ 0]) (simp add: chunk_start_def SEGSIZE_def)
  next
    case 2 then show ?thesis by (intro exI [of _ 1]) (simp add: chunk_start_def SEGSIZE_def)
  next
    case 3 then show ?thesis by (intro exI [of _ 2]) (simp add: chunk_start_def SEGSIZE_def)
  next
    case 4 then show ?thesis by (intro exI [of _ 3]) (simp add: chunk_start_def SEGSIZE_def)
  next
    case 5 then show ?thesis by (intro exI [of _ 4]) (simp add: chunk_start_def SEGSIZE_def)
  next
    case 6 then show ?thesis by (intro exI [of _ 5]) (simp add: chunk_start_def SEGSIZE_def)
  next
    case 7 then show ?thesis by (intro exI [of _ 6]) (simp add: chunk_start_def SEGSIZE_def)
  next
    case 8 then show ?thesis using True by (intro exI [of _ 7]) (simp add: chunk_start_def SEGSIZE_def)
  qed
next
  case False
  define d r where "d = (p - 4718592) div 1048576" and "r = (p - 4718592) mod 1048576"
  have "p - 4718592 = 1048576 * d + r" "0 \<le> r" "r < 1048576" by (simp_all add: d_def r_def)
  moreover have "int (nat d) = d" using False by (simp add: d_def pos_imp_zdiv_nonneg_iff)
  ultimately show ?thesis by (intro exI [of _ "8 + nat d"]) (simp add: chunk_start_large)
qed

lemma chunk_start_Suc: "chunk_start k < chunk_start (Suc k)" "chunk_start (Suc k) \<le> chunk_start k + 1048576"
proof -
  have "chunk_start k < chunk_start (Suc k) \<and> chunk_start (Suc k) \<le> chunk_start k + 1048576"
  proof (cases "k < 8")
    case True
    then consider "k = 0" | "k = 1" | "k = 2" | "k = 3" | "k = 4" | "k = 5" | "k = 6" | "k = 7" by linarith
    then show ?thesis by cases (simp_all add: chunk_start_def SEGSIZE_def)
  qed (simp add: chunk_start_large)
  then show "chunk_start k < chunk_start (Suc k)" "chunk_start (Suc k) \<le> chunk_start k + 1048576" by simp_all
qed

lemma chunk_start_nonneg: "0 \<le> chunk_start k"
  by (simp add: chunk_start_def SEGSIZE_def)

text \<open>What the clients use, for file positions.\<close>

lemma chunk_bounds:
  assumes "0 \<le> p"
  shows "0 \<le> chunkfloor p" "chunkfloor p \<le> p" "p < chunkceil p (- 1)" "chunkceil p (- 1) \<le> chunkfloor p + 1048576"
    "chunkfloor (chunkfloor p) = chunkfloor p" "chunkfloor (chunkceil p (- 1)) = chunkceil p (- 1)"
    "\<And>q. chunkfloor p \<le> q \<Longrightarrow> q < chunkceil p (- 1) \<Longrightarrow> chunkfloor q = chunkfloor p"
proof -
  obtain k where k: "chunk_start k \<le> p" "p < chunk_start (Suc k)" using chunk_exists [OF assms] by blast
  note c = chunk_of [OF k]
  show "0 \<le> chunkfloor p" "chunkfloor p \<le> p" "p < chunkceil p (- 1)" "chunkceil p (- 1) \<le> chunkfloor p + 1048576"
    using c k chunk_start_nonneg chunk_start_Suc by simp_all
  show "chunkfloor (chunkfloor p) = chunkfloor p" using c chunk_of [of k "chunk_start k"] chunk_start_Suc by simp
  show "chunkfloor (chunkceil p (- 1)) = chunkceil p (- 1)"
    using c chunk_of [of "Suc k" "chunk_start (Suc k)"] chunk_start_Suc by simp
  show "\<And>q. chunkfloor p \<le> q \<Longrightarrow> q < chunkceil p (- 1) \<Longrightarrow> chunkfloor q = chunkfloor p"
    using c chunk_of by simp
qed

section \<open>What a map of a running transfer satisfies\<close>

text \<open>
  The entries are chunks; only the first may stand for a consolidated prefix, and
  \<^verbatim>\<open>macsmacSoFarPos\<close> is then its position; all chunks before the contiguous progress that are not consolidated
  away are finished.
\<close>

definition sofar_ok :: "chunkmac_map \<Rightarrow> bool" where
  "sofar_ok m \<longleftrightarrow> (case mMacMap m of
     [] \<Rightarrow> macsmacSoFarPos m = - 1
   | (k, c) # es \<Rightarrow> macsmacSoFarPos m = (if isMacsmacSoFar c then k else - 1) \<and> (\<forall>e \<in> set es. \<not> isMacsmacSoFar (snd e)))"

definition progress_ok :: "chunkmac_map \<Rightarrow> bool" where
  "progress_ok m \<longleftrightarrow> (\<forall>p. 0 \<le> p \<longrightarrow> macsmacSoFarPos m \<le> p \<longrightarrow> p < progresscontiguous m \<longrightarrow> chunkfloor p = p \<longrightarrow> finishedAt m p)"

definition chunks_inv :: "chunkmac_map \<Rightarrow> bool" where
  "chunks_inv m \<longleftrightarrow> map_wf (mMacMap m) \<and> (\<forall>e \<in> set (mMacMap m). 0 \<le> fst e \<and> chunkfloor (fst e) = fst e) \<and> sofar_ok m \<and> progress_ok m"

lemma finishedAt_iff:
  assumes "map_wf (mMacMap m)"
  shows "finishedAt m p \<longleftrightarrow> (\<exists>c. (p, c) \<in> set (mMacMap m) \<and> finished c)"
proof -
  have e: "(p, c) \<in> set (mMacMap m) \<longleftrightarrow> map_of (mMacMap m) p = Some c" for c
    using map_of_eq_Some_iff [OF map_wf_distinct [OF assms]] by simp
  show ?thesis unfolding finishedAt_def map_find_def e by (cases "map_of (mMacMap m) p") auto
qed

lemma finishedAt_progress [simp]: "finishedAt (setProgressContiguous p m) = finishedAt m"
  by (simp add: finishedAt_def setProgressContiguous_def fun_eq_iff)

lemma setProgress_simps [simp]: "mMacMap (setProgressContiguous p m) = mMacMap m"
  "macsmacSoFarPos (setProgressContiguous p m) = macsmacSoFarPos m" "progresscontiguous (setProgressContiguous p m) = p"
  by (simp_all add: setProgressContiguous_def)

text \<open>The position up to which a transfer is complete: a chunk boundary or the end of the file.\<close>

definition progress_at :: "m_off_t \<Rightarrow> chunkmac_map \<Rightarrow> bool" where
  "progress_at fileSize m \<longleftrightarrow> 0 \<le> progresscontiguous m \<and> progresscontiguous m \<le> fileSize \<and>
     (progresscontiguous m = fileSize \<or> chunkfloor (progresscontiguous m) = progresscontiguous m)"

lemma contiguous_step:
  assumes inv: "chunks_inv m" and at: "progress_at fileSize m" and fin: "finishedAt m (progresscontiguous m)"
    and lt: "progresscontiguous m < fileSize"
  defines "m' \<equiv> setProgressContiguous (chunkceil (progresscontiguous m) fileSize) m"
  shows "chunks_inv m' \<and> progress_at fileSize m' \<and> progresscontiguous m < progresscontiguous m'"
proof -
  let ?p = "progresscontiguous m" and ?c = "chunkceil (progresscontiguous m) (- 1)"
  have p: "0 \<le> ?p" "chunkfloor ?p = ?p" using at lt by (auto simp: progress_at_def)
  note b = chunk_bounds [OF p(1)]
  have c: "chunkceil ?p fileSize = min ?c fileSize" using chunkceil_limit [of ?p fileSize] p lt by (simp add: Let_def min_def)
  have "finishedAt m q" if "0 \<le> q" "macsmacSoFarPos m \<le> q" "q < min ?c fileSize" "chunkfloor q = q" for q
  proof (cases "q < ?p")
    case True
    then show ?thesis using inv that by (simp add: chunks_inv_def progress_ok_def)
  next
    case False
    then have "chunkfloor q = ?p" using b(7) [of q] p(2) that(3) by simp
    then show ?thesis using that(4) fin by simp
  qed
  then have "progress_ok m'" by (simp add: progress_ok_def m'_def c)
  moreover have "sofar_ok m' = sofar_ok m" by (cases "mMacMap m") (auto simp: sofar_ok_def m'_def)
  ultimately have "chunks_inv m'" using inv by (simp add: chunks_inv_def m'_def)
  then show ?thesis using b(3,6) p lt at by (auto simp: m'_def c progress_at_def min_def)
qed

lemma contiguous_returns:
  assumes "chunks_inv m" "progress_at fileSize m" "\<And>p. finishedAt m p \<Longrightarrow> p < fileSize"
  shows "\<exists>m'. updateContiguousProgress fileSize m = Some m' \<and> chunks_inv m' \<and> progress_at fileSize m' \<and>
    progresscontiguous m \<le> progresscontiguous m' \<and> mMacMap m' = mMacMap m \<and> \<not> finishedAt m' (progresscontiguous m')"
  using assms
proof (induction "nat (fileSize - progresscontiguous m)" arbitrary: m rule: less_induct)
  case less
  show ?case
  proof (cases "finishedAt m (progresscontiguous m)")
    case False
    then show ?thesis using less.prems by (simp add: updateContiguousProgress.simps)
  next
    case True
    let ?m = "setProgressContiguous (chunkceil (progresscontiguous m) fileSize) m"
    note st = contiguous_step [OF less.prems(1,2) True less.prems(3) [OF True]]
    then have "nat (fileSize - progresscontiguous ?m) < nat (fileSize - progresscontiguous m)"
      using less.prems(3) [OF True] by auto
    from less.hyps [OF this] st less.prems(3) True show ?thesis
      unfolding updateContiguousProgress.simps [of fileSize m] by auto
  qed
qed

lemma contiguous_diverges:
  assumes "finishedAt m fileSize" "0 \<le> fileSize" "progresscontiguous m = fileSize"
  shows "updateContiguousProgress fileSize m = None"
proof (rule ccontr)
  assume "updateContiguousProgress fileSize m \<noteq> None"
  then obtain y where "updateContiguousProgress fileSize m = Some y" by auto
  then have "\<not> (finishedAt m fileSize \<and> 0 \<le> fileSize \<and> progresscontiguous m = fileSize)"
  proof (rule updateContiguousProgress.raw_induct [rotated])
    fix upd fs m y
    assume IH: "\<And>fs m y. upd fs m = Some y \<Longrightarrow> \<not> (finishedAt m fs \<and> 0 \<le> fs \<and> progresscontiguous m = fs)"
      and body: "(if finishedAt m (progresscontiguous m) then upd fs (setProgressContiguous (chunkceil (progresscontiguous m) fs) m) else Some m) = Some y"
    show "\<not> (finishedAt m fs \<and> 0 \<le> fs \<and> progresscontiguous m = fs)"
    proof
      assume a: "finishedAt m fs \<and> 0 \<le> fs \<and> progresscontiguous m = fs"
      then have "chunkceil fs fs = fs" using chunkceil_limit [of fs fs] chunk_bounds(3) [of fs] by (simp add: Let_def)
      then show False using IH [of fs "setProgressContiguous fs m" y] body a by simp
    qed
  qed
  then show False using assms by simp
qed

section \<open>Consolidation\<close>

lemma sorted_second:
  assumes "map_wf ((k, c) # (k', n) # es)" "(q, x) \<in> set ((k, c) # (k', n) # es)" "k < q"
  shows "k' \<le> q"
  using assms by (auto simp: map_wf_Cons)

lemma consolidate_next:
  fixes ecb :: "bytes \<Rightarrow> bytes" and a :: bool
  assumes inv: "chunks_inv m" and m: "mMacMap m = (k, c) # (k', n) # es" and sofar: "isMacsmacSoFar c"
    and far: "macsmacSoFarPos m + 1024 * 1024 * 5 < progresscontiguous m"
  defines "m' \<equiv> m\<lparr>mMacMap := (k', n\<lparr>cmac := ecb (xorblock a (cmac n) (cmac c)), offset := - 1\<rparr>) # es, macsmacSoFarPos := k'\<rparr>"
  shows "chunks_inv m' \<and> macsmac ecb a m' = macsmac ecb a m"
proof -
  let ?n = "n\<lparr>cmac := ecb (xorblock a (cmac n) (cmac c)), offset := - 1\<rparr>"
  have wf: "map_wf ((k, c) # (k', n) # es)" and k: "0 \<le> k" "chunkfloor k = k" "0 \<le> k'" "chunkfloor k' = k'" "macsmacSoFarPos m = k"
    and not: "\<not> isMacsmacSoFar n" "\<forall>e \<in> set es. \<not> isMacsmacSoFar (snd e)" and pr: "progress_ok m"
    using inv m sofar by (auto simp: chunks_inv_def sofar_ok_def)
  note b = chunk_bounds [OF k(1)]
  have "chunkceil k (- 1) < progresscontiguous m" using b(4) k far by simp
  then have "finishedAt m (chunkceil k (- 1))" using pr b(3,6) k(1,5) by (simp add: progress_ok_def)
  then obtain x where "(chunkceil k (- 1), x) \<in> set ((k, c) # (k', n) # es)" using finishedAt_iff [of m] wf m by auto
  then have "k' \<le> chunkceil k (- 1)" using sorted_second [OF wf] b(3) by blast
  then have lt: "k' < progresscontiguous m" "k < k'" using wf \<open>chunkceil k (- 1) < progresscontiguous m\<close> by (auto simp: map_wf_Cons)
  then have "finishedAt m k'" using pr k by (simp add: progress_ok_def)
  then have fn: "finished n" using m lt by (simp add: finishedAt_def map_find_def)
  then have sn: "isMacsmacSoFar ?n" by (simp add: isMacsmacSoFar_def)
  have "finishedAt m' p" if "finishedAt m p" "k' \<le> p" for p
    using that m lt fn by (auto simp: finishedAt_def map_find_def m'_def split: if_splits)
  then have "progress_ok m'" using pr lt k(5) by (auto simp: progress_ok_def m'_def)
  moreover have "map_wf (mMacMap m')" using wf by (auto simp: m'_def map_wf_Cons)
  moreover have "sofar_ok m'" using sn not by (simp add: sofar_ok_def m'_def)
  ultimately have "chunks_inv m'" using inv m k by (auto simp: chunks_inv_def m'_def)
  moreover have "macsmac ecb a m' = macsmac ecb a m"
    using sn sofar not m by (simp add: macsmac_def m'_def add_mac_def)
  ultimately show ?thesis by simp
qed

lemma consolidate_first:
  fixes ecb :: "bytes \<Rightarrow> bytes" and a :: bool
  assumes inv: "chunks_inv m" and m: "mMacMap m = (k, c) # es" and sofar: "\<not> isMacsmacSoFar c"
    and far: "macsmacSoFarPos m + 1024 * 1024 * 5 < progresscontiguous m"
  defines "m' \<equiv> m\<lparr>mMacMap := (k, c\<lparr>cmac := ecb (xorblock a (cmac c) (replicate BLOCKSIZE 0)), offset := - 1\<rparr>) # es, macsmacSoFarPos := 0\<rparr>"
  shows "k = 0 \<and> finishedAt m 0 \<and> chunks_inv m' \<and> macsmac ecb a m' = macsmac ecb a m"
proof -
  let ?c = "c\<lparr>cmac := ecb (xorblock a (cmac c) (replicate BLOCKSIZE 0)), offset := - 1\<rparr>"
  have wf: "map_wf ((k, c) # es)" and k: "0 \<le> k" "macsmacSoFarPos m = - 1"
    and not: "\<forall>e \<in> set es. \<not> isMacsmacSoFar (snd e)" and pr: "progress_ok m"
    using inv m sofar by (auto simp: chunks_inv_def sofar_ok_def)
  have "finishedAt m 0" using pr far k(2) by (simp add: progress_ok_def chunkfloor_cases)
  moreover from this obtain x where "(0, x) \<in> set ((k, c) # es)" using finishedAt_iff [of m] wf m by auto
  then have k0: "k = 0" using wf k(1) by (force simp: map_wf_Cons)
  moreover have fc: "finished c" using \<open>finishedAt m 0\<close> m k0 by (simp add: finishedAt_def map_find_def)
  moreover have "finishedAt m' p" if "finishedAt m p" for p
    using that m fc by (auto simp: finishedAt_def map_find_def m'_def split: if_splits)
  then have "progress_ok m'" using pr k(2) by (simp add: progress_ok_def m'_def)
  moreover have "map_wf (mMacMap m')" using wf by (simp add: m'_def map_wf_Cons)
  moreover have sc: "isMacsmacSoFar ?c" using fc by (simp add: isMacsmacSoFar_def)
  then have "sofar_ok m'" using not k0 by (simp add: sofar_ok_def m'_def)
  ultimately have "k = 0" "finishedAt m 0" "chunks_inv m'" using inv m by (auto simp: chunks_inv_def m'_def)
  moreover have "macsmac ecb a m' = macsmac ecb a m" using sc sofar m by (simp add: macsmac_def m'_def add_mac_def)
  ultimately show ?thesis by simp
qed

lemma consolidation_returns:
  assumes "chunks_inv m"
  shows "\<exists>m'. updateMacsmacProgress ecb a m = Some m' \<and> chunks_inv m' \<and> macsmac ecb a m' = macsmac ecb a m \<and>
    progresscontiguous m' = progresscontiguous m \<and>
    (macsmacSoFarPos m' + 1024 * 1024 * 5 < progresscontiguous m' \<longrightarrow> chunkmacs_size m' \<le> 32 * 3 + 5)"
  using assms
proof (induction "2 * length (mMacMap m) + (if macsmacSoFarPos m = - 1 then 1 else 0)" arbitrary: m rule: less_induct)
  case less
  let ?go = "macsmacSoFarPos m + 1024 * 1024 * 5 < progresscontiguous m \<and> chunkmacs_size m > 32 * 3 + 5"
  show ?case
  proof (cases ?go)
    case False
    then show ?thesis using less.prems by (auto simp: updateMacsmacProgress.simps [of _ _ m])
  next
    case True
    then have far: "macsmacSoFarPos m + 1024 * 1024 * 5 < progresscontiguous m" by simp
    have "2 \<le> length (mMacMap m)" using True by (simp add: chunkmacs_size_def)
    then obtain k c k' n es where m: "mMacMap m = (k, c) # (k', n) # es"
      by (metis Suc_le_length_iff numeral_2_eq_2 surj_pair)
    show ?thesis
    proof (cases "isMacsmacSoFar c")
      case sofar: True
      let ?m = "m\<lparr>mMacMap := (k', n\<lparr>cmac := ecb (xorblock a (cmac n) (cmac c)), offset := - 1\<rparr>) # es, macsmacSoFarPos := k'\<rparr>"
      note st = consolidate_next [OF less.prems m sofar far, of ecb a]
      have "2 * length (mMacMap ?m) + (if macsmacSoFarPos ?m = - 1 then 1 else 0) < 2 * length (mMacMap m) + (if macsmacSoFarPos m = - 1 then 1 else 0)"
        using m by simp
      from less.hyps [OF this] st show ?thesis
        using True m sofar by (simp add: updateMacsmacProgress.simps [of _ _ m])
    next
      case first: False
      let ?m = "m\<lparr>mMacMap := (k, c\<lparr>cmac := ecb (xorblock a (cmac c) (replicate BLOCKSIZE 0)), offset := - 1\<rparr>) # (k', n) # es, macsmacSoFarPos := 0\<rparr>"
      note st = consolidate_first [OF less.prems m first far, of ecb a]
      have "macsmacSoFarPos m = - 1" using less.prems m first by (simp add: chunks_inv_def sofar_ok_def)
      then have "2 * length (mMacMap ?m) + (if macsmacSoFarPos ?m = - 1 then 1 else 0) < 2 * length (mMacMap m) + (if macsmacSoFarPos m = - 1 then 1 else 0)"
        using m by simp
      from less.hyps [OF this] st have "\<exists>m'. updateMacsmacProgress ecb a ?m = Some m' \<and> chunks_inv m' \<and> macsmac ecb a m' = macsmac ecb a m \<and>
          progresscontiguous m' = progresscontiguous m \<and>
          (macsmacSoFarPos m' + 1024 * 1024 * 5 < progresscontiguous m' \<longrightarrow> chunkmacs_size m' \<le> 32 * 3 + 5)"
        by auto
      moreover have "updateMacsmacProgress ecb a m = updateMacsmacProgress ecb a ?m"
        using True m first st by (simp add: updateMacsmacProgress.simps [of _ _ m])
      ultimately show ?thesis by simp
    qed
  qed
qed

section \<open>The other loops return\<close>

lemma nextUnprocessedPosFrom_returns:
  assumes "0 \<le> pos" "\<forall>e \<in> set (mMacMap m). fst e \<le> hi"
  shows "\<exists>p. nextUnprocessedPosFrom m pos = Some p \<and> pos \<le> p"
  using assms(1)
proof (induction "nat (hi + 1048576 - pos)" arbitrary: pos rule: less_induct)
  case less
  note b = chunk_bounds [OF less.prems]
  show ?case
  proof (cases "map_find (mMacMap m) (chunkfloor pos)")
    case (Some c)
    then have "chunkfloor pos \<le> hi" using assms(2) by (auto simp: map_find_def dest!: map_of_SomeD)
    then have "nat (hi + 1048576 - chunkceil pos (- 1)) < nat (hi + 1048576 - pos)" using b(3,4) by linarith
    from less.hyps [OF this] Some b(3) less.prems show ?thesis
      unfolding nextUnprocessedPosFrom.simps [of m pos] by (cases "finished c") fastforce+
  qed (simp add: nextUnprocessedPosFrom.simps)
qed

lemma expandUnprocessedPiece_returns:
  "0 \<le> npos \<Longrightarrow> \<exists>p. expandUnprocessedPiece m pos npos fileSize maxReqSize = Some p \<and> npos \<le> p \<and> (npos \<le> fileSize \<longrightarrow> p \<le> fileSize)"
proof (induction "nat (fileSize - npos)" arbitrary: npos rule: less_induct)
  case less
  let ?go = "npos < fileSize \<and> npos - pos < maxReqSize \<and> (case map_find (mMacMap m) npos of None \<Rightarrow> True | Some c \<Rightarrow> notStarted c)"
  show ?case
  proof (cases ?go)
    case True
    then have n: "npos < chunkceil npos fileSize" "chunkceil npos fileSize \<le> fileSize"
      using chunk_bounds(3) [OF less.prems] chunkceil_limit [of npos fileSize] less.prems by (simp_all add: Let_def)
    then have "nat (fileSize - chunkceil npos fileSize) < nat (fileSize - npos)" by linarith
    from less.hyps [OF this] n less.prems True show ?thesis
      unfolding expandUnprocessedPiece.simps [of m pos npos] by (simp only: if_True) (meson less_imp_le order_trans)
  next
    case False
    then show ?thesis unfolding expandUnprocessedPiece.simps [of m pos npos] by (simp only: if_False) simp
  qed
qed

lemma raidline_floor_returns:
  "\<exists>q. raidline_floor p = Some q \<and> q \<le> p \<and> (q \<le> 0 \<or> q mod RAIDLINE = 0)"
proof (induction "nat p" arbitrary: p rule: less_induct)
  case less
  show ?case
  proof (cases "p > 0 \<and> p mod RAIDLINE \<noteq> 0")
    case True
    have "0 < p mod RAIDLINE" using True pos_mod_sign [of RAIDLINE p] by (auto simp: RAIDLINE_def)
    moreover have nn: "0 \<le> p - p mod RAIDLINE" using True by (simp add: minus_mod_eq_mult_div RAIDLINE_def pos_imp_zdiv_nonneg_iff)
    ultimately have "chunkfloor (p - p mod RAIDLINE) < p" using chunk_bounds(2) [OF nn] by linarith
    then have "nat (chunkfloor (p - p mod RAIDLINE)) < nat p" using True by linarith
    from less.hyps [OF this] \<open>chunkfloor (p - p mod RAIDLINE) < p\<close> True show ?thesis
      unfolding raidline_floor.simps [of p] by (simp only: if_True) (meson less_imp_le order_trans)
  next
    case False
    then show ?thesis by (intro exI [of _ p]) (auto simp: raidline_floor.simps [of p])
  qed
qed

lemma count_chunks_returns: "0 \<le> pos \<Longrightarrow> \<exists>k. count_chunks pos limit n = Some k"
proof (induction "nat (limit + 1 - pos)" arbitrary: pos n rule: less_induct)
  case less
  show ?case
  proof (cases "pos \<le> limit")
    case True
    have "pos < chunkceil pos (- 1)" using chunk_bounds(3) [OF less.prems] .
    moreover from this have "nat (limit + 1 - chunkceil pos (- 1)) < nat (limit + 1 - pos)" using True by linarith
    ultimately show ?thesis using less.hyps less.prems True by (simp add: count_chunks.simps [of pos])
  qed (simp add: count_chunks.simps)
qed

section \<open>The cache format\<close>

definition chunk_ok :: "m_off_t \<times> chunk_mac \<Rightarrow> bool" where
  "chunk_ok e \<longleftrightarrow> - (2 ^ 63) \<le> fst e \<and> fst e < 2 ^ 63 \<and> length (cmac (snd e)) = 16"

lemma length_put_chunk: "chunk_ok e \<Longrightarrow> length padding = 3 \<Longrightarrow> length (put_chunk padding e) = 32"
  by (simp add: put_chunk_def chunk_ok_def)

lemma get_put_chunk: "chunk_ok e \<Longrightarrow> length padding = 3 \<Longrightarrow> get_chunk (put_chunk padding e @ bs) = e"
proof -
  assume ok: "chunk_ok e" "length padding = 3"
  then have k: "sint (word_of_int (fst e) :: u64) = fst e" by (simp add: sint_sbintrunc' signed_take_bit_int_eq_self chunk_ok_def)
  have "le_word (le_bytes 8 (word_of_int (fst e) :: u64)) = (word_of_int (fst e) :: u64)"
    "le_word (le_bytes 4 (offset (snd e))) = offset (snd e)" by (simp_all add: le_word_le_bytes_full)
  then show ?thesis
    using ok k by (cases e) (simp add: get_chunk_def put_chunk_def chunk_ok_def nth_append)
qed

lemma get_chunks_put:
  assumes "\<forall>e \<in> set es. chunk_ok e" "length padding = 3" "\<forall>e \<in> set es. \<not> isMacsmacSoFar (snd e)"
  shows "get_chunks (length es) (concat (map (put_chunk padding) es) @ bs) m =
    (m\<lparr>mMacMap := fold (\<lambda>(k, c). map_set k c) es (mMacMap m)\<rparr>, bs)"
  using assms
proof (induction es arbitrary: m)
  case (Cons e es)
  then show ?case by (cases e) (simp add: get_put_chunk length_put_chunk)
qed simp

lemma length_put_chunks:
  "\<forall>e \<in> set es. chunk_ok e \<Longrightarrow> length padding = 3 \<Longrightarrow> length (concat (map (put_chunk padding) es)) = length es * 32"
  by (induction es) (simp_all add: length_put_chunk)

lemma get_chunks_map:
  assumes ok: "\<forall>e \<in> set (mMacMap m). chunk_ok e" and pad: "length padding = 3" and wf: "map_wf (mMacMap m)" and sofar: "sofar_ok m"
  shows "get_chunks (length (mMacMap m)) (concat (map (put_chunk padding) (mMacMap m)) @ bs) new_chunkmac_map =
    (m\<lparr>progresscontiguous := 0\<rparr>, bs)"
proof (cases "mMacMap m")
  case Nil
  then show ?thesis using sofar by (cases m) (simp add: new_chunkmac_map_def sofar_ok_def)
next
  case (Cons e es)
  obtain k c where e: "e = (k, c)" by (cases e)
  have ns: "\<forall>e \<in> set es. \<not> isMacsmacSoFar (snd e)" using sofar Cons e by (simp add: sofar_ok_def)
  have rb: "fold (\<lambda>(k, c). map_set k c) es [(k, c)] = (k, c) # es" using map_rebuild [OF wf] Cons e by simp
  show ?thesis
    using ok pad sofar ns rb Cons e get_chunks_put [of es padding bs]
    by (cases m) (simp add: get_put_chunk length_put_chunk new_chunkmac_map_def sofar_ok_def)
qed

section \<open>An upload with its first chunks done\<close>

definition uploaded :: "nat \<Rightarrow> chunkmac_map" where
  "uploaded n = \<lparr>mMacMap = map (\<lambda>i. (chunk_start i, \<lparr>cmac = replicate 15 0 @ [word_of_nat i], offset = 0, finished = True\<rparr>)) [0..<n],
     macsmacSoFarPos = - 1, progresscontiguous = chunk_start n\<rparr>"

lemma chunk_start_mono: "i < j \<Longrightarrow> chunk_start i < chunk_start j"
  by (induction j) (auto simp: less_Suc_eq intro: chunk_start_Suc less_trans)

lemma uploaded_wf: "map_wf (mMacMap (uploaded n))"
  unfolding map_wf_def uploaded_def by (auto simp: sorted_wrt_iff_nth_less chunk_start_mono)

lemma uploaded_finished: "finishedAt (uploaded n) p \<longleftrightarrow> (\<exists>i < n. p = chunk_start i)"
  unfolding finishedAt_iff [OF uploaded_wf] by (force simp: uploaded_def)

lemma boundary_is_start: "0 \<le> p \<Longrightarrow> chunkfloor p = p \<Longrightarrow> \<exists>i. p = chunk_start i"
  using chunk_exists chunk_of by metis

lemma chunk_start_floor: "chunkfloor (chunk_start i) = chunk_start i"
  using chunk_of [of i "chunk_start i"] chunk_start_Suc by simp

lemma uploaded_inv: "chunks_inv (uploaded n)"
proof -
  have "finishedAt (uploaded n) p" if p: "0 \<le> p" "p < chunk_start n" "chunkfloor p = p" for p
  proof -
    obtain i where i: "p = chunk_start i" using boundary_is_start [OF p(1,3)] by blast
    then have "i < n" using p(2) chunk_start_mono [of n i] by (cases "i < n") (auto simp: not_less le_less)
    then show ?thesis using i uploaded_finished by blast
  qed
  then have "progress_ok (uploaded n)" by (auto simp: progress_ok_def uploaded_def)
  moreover have "sofar_ok (uploaded n)"
    by (cases n) (auto simp: sofar_ok_def uploaded_def isMacsmacSoFar_def upt_conv_Cons simp del: upt_Suc)
  moreover have "\<forall>e \<in> set (mMacMap (uploaded n)). 0 \<le> fst e \<and> chunkfloor (fst e) = fst e"
    by (auto simp: uploaded_def chunk_start_nonneg chunk_start_floor)
  ultimately show ?thesis using uploaded_wf by (simp add: chunks_inv_def)
qed

section \<open>Properties\<close>

text \<open>
  The chunk boundaries that \<^verbatim>\<open>chunkfloor\<close> and \<^verbatim>\<open>chunkceil\<close> compute with loops and masks are
  those of the format: every position of a file is in exactly one chunk, the first eight chunks grow by 128 KiB each and all
  later ones have 1 MiB; the end of a chunk is the start of the next, cut at the limit if there is one.
\<close>

theorem chunk_lattice:
  assumes "chunk_start k \<le> p" "p < chunk_start (Suc k)"
  shows "chunkfloor p = chunk_start k \<and>
    chunkceil p limit = (if limit < 0 then chunk_start (Suc k) else min (chunk_start (Suc k)) limit)"
  using chunk_of [OF assms] chunkceil_limit [of p limit] by (simp add: Let_def min_def)

theorem chunk_lattice_witness: "chunkfloor 6000000 = 5767168 \<and> chunkceil 6000000 6500000 = 6500000"
  using chunk_lattice [of 9 6000000 6500000] by (simp add: chunk_start_def SEGSIZE_def)





text \<open>
  C30: consolidating the first chunk MACs of a large transfer always ends, and the MAC of the
  whole file, which becomes part of the file's key, is the same before and after; at the end the
  map is small or the consolidated prefix has come close to the progress.
\<close>

theorem consolidation_keeps_macsmac:
  assumes "chunks_inv m"
  shows "\<exists>m'. updateMacsmacProgress ecb aligned m = Some m' \<and> chunks_inv m' \<and> macsmac ecb aligned m' = macsmac ecb aligned m \<and>
    (macsmacSoFarPos m' + 5 * 1024 * 1024 < progresscontiguous m' \<longrightarrow> chunkmacs_size m' \<le> 101)"
  using consolidation_returns [OF assms, of ecb aligned] by auto

theorem consolidation_keeps_macsmac_witness:
  "\<exists>m'. updateMacsmacProgress rev True (uploaded 120) = Some m' \<and> macsmac rev True m' = macsmac rev True (uploaded 120)"
  using consolidation_keeps_macsmac [OF uploaded_inv, of rev True 120] by blast

text \<open>
  C31: as long as no finished chunk starts at or after the end of the file, advancing the contiguous progress ends, never
  goes back, stops at a chunk boundary or the end of the file, and stops exactly at the first chunk that is not
  finished.  With a finished entry at the end of the file it would never return.
\<close>

theorem contiguous_progress_ends:
  assumes "chunks_inv m" "progress_at fileSize m"
  shows "((\<forall>p. finishedAt m p \<longrightarrow> p < fileSize) \<longrightarrow>
      (\<exists>m'. updateContiguousProgress fileSize m = Some m' \<and> chunks_inv m' \<and> progress_at fileSize m' \<and>
        progresscontiguous m \<le> progresscontiguous m' \<and> mMacMap m' = mMacMap m \<and> \<not> finishedAt m' (progresscontiguous m'))) \<and>
    (finishedAt m fileSize \<longrightarrow> progresscontiguous m = fileSize \<longrightarrow> updateContiguousProgress fileSize m = None)"
  using contiguous_returns [OF assms] contiguous_diverges [of m fileSize] assms(2) by (auto simp: progress_at_def)

theorem contiguous_progress_ends_witness:
  "\<exists>m'. updateContiguousProgress (chunk_start 4) (setProgressContiguous 0 (uploaded 4)) = Some m' \<and>
    \<not> finishedAt m' (progresscontiguous m')"
proof -
  let ?m = "setProgressContiguous 0 (uploaded 4)"
  have "sofar_ok ?m" using uploaded_inv [of 4] by (auto simp: chunks_inv_def sofar_ok_def split: list.splits)
  then have "chunks_inv ?m" using uploaded_inv [of 4] by (auto simp: chunks_inv_def progress_ok_def)
  moreover have "progress_at (chunk_start 4) ?m" by (simp add: progress_at_def chunk_start_nonneg chunkfloor_cases)
  moreover have "\<forall>p. finishedAt ?m p \<longrightarrow> p < chunk_start 4" by (auto simp: uploaded_finished chunk_start_mono)
  ultimately show ?thesis using contiguous_progress_ends [of ?m "chunk_start 4"] by blast
qed

end
