(* ===== verification/Mega_Raid.thy ===== *)
theory Mega_Raid
  imports Mega_Chunks
begin

text \<open>
  Downloads from six servers (\<^verbatim>\<open>src/raid.cpp\<close>).  A file is striped over five parts in sectors of 16 bytes, a sixth
  part holds the parity.  \<^verbatim>\<open>RaidBufferManager\<close> collects the pieces that arrive on each connection, leaves one connection
  unused (its pieces carry no data), and combines the pieces to parts of the file, recovering the sectors of the
  unused one.  File positions are natural numbers here: they start at a position that is not negative and only grow.  The
  two derived classes, for transfers and for direct reads, are a parameter \<open>kind\<close>.  The lemmas: the parts' sizes and
  contents, that what is combined is the file, that nothing is left out, and that pieces on all connections are always enough
  to go on.
\<close>

section \<open>Sizes\<close>

definition RAIDPARTS :: nat where
  "RAIDPARTS = 6"

definition EFFECTIVE_RAIDPARTS :: nat where
  "EFFECTIVE_RAIDPARTS = 5"

definition RAIDSECTOR :: nat where
  "RAIDSECTOR = 16"

abbreviation LINE :: nat where
  "LINE \<equiv> nat RAIDLINE"

definition raidPartSize :: "nat \<Rightarrow> nat \<Rightarrow> nat" where
  "raidPartSize part filesize =
    (let r = filesize mod LINE;
         t = int r - int ((part - of_bool (part \<noteq> 0)) * RAIDSECTOR);
         t' = (if t < 0 then 0 else if t > int RAIDSECTOR then int RAIDSECTOR else t)
     in (filesize - r) div EFFECTIVE_RAIDPARTS + nat t')"

definition offsetToRaidLine :: "nat \<Rightarrow> nat" where
  "offsetToRaidLine off = off mod LINE"

section \<open>Servers that failed\<close>

text \<open>The position of the first occurrence, as \<^verbatim>\<open>std::string::find\<close>.\<close>

fun find_seq :: "bytes \<Rightarrow> bytes \<Rightarrow> nat option" where
  "find_seq pat [] = (if pat = [] then Some 0 else None)"
| "find_seq pat (c # cs) = (if take (length pat) (c # cs) = pat then Some 0 else map_option Suc (find_seq pat cs))"

definition server :: "bytes \<Rightarrow> bytes" where
  "server url =
    (case find_seq (asc ''://'') url of
       None \<Rightarrow> []
     | Some n \<Rightarrow> (case find_seq (asc ''/'') (drop (n + 3) url) of None \<Rightarrow> [] | Some m \<Rightarrow> take m (drop (n + 3) url)))"

type_synonym faulty = "(bytes, m_time_t) smap"

definition faulty_add :: "m_time_t \<Rightarrow> bytes \<Rightarrow> faulty \<Rightarrow> faulty" where
  "faulty_add now url fails = map_set (server url) now fails"

fun worst_loop :: "faulty \<Rightarrow> bytes list \<Rightarrow> nat \<Rightarrow> nat \<Rightarrow> m_time_t \<Rightarrow> nat" where
  "worst_loop fails urls 0 worstindex worsttime = worstindex"
| "worst_loop fails urls (Suc i) worstindex worsttime =
    (case map_find fails (server (urls ! i)) of
       None \<Rightarrow> worst_loop fails urls i worstindex worsttime
     | Some t \<Rightarrow> if t > worsttime then worst_loop fails urls i i t else worst_loop fails urls i worstindex worsttime)"

definition selectWorstServer :: "m_time_t \<Rightarrow> bytes list \<Rightarrow> faulty \<Rightarrow> nat \<times> faulty" where
  "selectWorstServer now urls fails =
    (if fails = [] then (RAIDPARTS, fails)
     else (worst_loop fails urls (length urls) RAIDPARTS (now - 10 * 3600), filter (\<lambda>(u, t). \<not> t < now - 10 * 3600) fails))"

section \<open>Pieces\<close>

text \<open>A buffer is null or some memory, of which the bytes from \<open>hstart\<close> to \<open>hend\<close> are in use.\<close>

record http_buf_t =
  hbuf :: "bytes option"
  hstart :: nat
  hend :: nat

definition datalen :: "http_buf_t \<Rightarrow> nat" where
  "datalen b = hend b - hstart b"

definition datastart :: "http_buf_t \<Rightarrow> bytes" where
  "datastart b = drop (hstart b) (the (hbuf b))"

definition isNull :: "http_buf_t \<Rightarrow> bool" where
  "isNull b \<longleftrightarrow> hbuf b = None"

record FilePiece =
  ppos :: nat
  pbuf :: http_buf_t
  pmacs :: chunkmac_map
  pfinalized :: bool

definition piece_of :: "nat \<Rightarrow> http_buf_t \<Rightarrow> FilePiece" where
  "piece_of p b = \<lparr>ppos = p, pbuf = b, pmacs = new_chunkmac_map, pfinalized = False\<rparr>"

definition empty_piece :: FilePiece where
  "empty_piece = piece_of 0 \<lparr>hbuf = None, hstart = 0, hend = 0\<rparr>"

text \<open>New memory, with room for one more block; what it holds before it is written does not matter, here it is zero.\<close>

definition new_piece :: "nat \<Rightarrow> nat \<Rightarrow> FilePiece" where
  "new_piece p len = piece_of p \<lparr>hbuf = Some (replicate (len + min BLOCKSIZE RAIDSECTOR) 0), hstart = 0, hend = len\<rparr>"

text \<open>\<^verbatim>\<open>memcpy\<close> of \<open>src\<close> to an offset of the memory of a buffer.\<close>

definition write_at :: "nat \<Rightarrow> bytes \<Rightarrow> bytes \<Rightarrow> bytes" where
  "write_at off src mem = take off mem @ src @ drop (off + length src) mem"

definition buf_write :: "nat \<Rightarrow> bytes \<Rightarrow> FilePiece \<Rightarrow> FilePiece" where
  "buf_write off src p = p\<lparr>pbuf := (pbuf p)\<lparr>hbuf := map_option (write_at (hstart (pbuf p) + off) src) (hbuf (pbuf p))\<rparr>\<rparr>"

section \<open>The manager\<close>

record raid_manager =
  is_raid :: bool
  is_newRaid :: bool
  raidKnown :: bool
  deliverlimitpos :: nat
  acquirelimitpos :: nat
  fullfilesize :: nat
  raidLinesPerChunk :: nat
  unusedRaidConnection :: nat
  tempurls :: "bytes list"
  connectionPaused :: "bool list"
  raidrequestpartpos :: "nat list"
  raidinputparts :: "FilePiece list list"
  asyncoutputbuffers :: "(nat, FilePiece option) smap"
  leftoverchunk :: FilePiece
  raidpartspos :: nat
  outputfilepos :: nat
  startfilepos :: nat
  resumewastedbytes :: nat
  raidHttpGetErrorCount :: "nat list"
  connectionStarted :: "bool list"
  mDisableAvoidSmallLastRequest :: bool
  requestpos :: nat

text \<open>\<open>requestpos\<close> is the position \<^verbatim>\<open>transfer->pos\<close> or \<^verbatim>\<open>directRead->nextrequestpos\<close> that the derived classes use for other files.\<close>

definition new_manager :: "nat \<Rightarrow> raid_manager" where
  "new_manager rpos = \<lparr>is_raid = False, is_newRaid = False, raidKnown = False, deliverlimitpos = 0, acquirelimitpos = 0,
    fullfilesize = 0, raidLinesPerChunk = 16 * 1024, unusedRaidConnection = 0, tempurls = [],
    connectionPaused = replicate RAIDPARTS False, raidrequestpartpos = replicate RAIDPARTS 0,
    raidinputparts = replicate RAIDPARTS [], asyncoutputbuffers = [], leftoverchunk = empty_piece, raidpartspos = 0,
    outputfilepos = 0, startfilepos = 0, resumewastedbytes = 0, raidHttpGetErrorCount = replicate RAIDPARTS 0,
    connectionStarted = replicate RAIDPARTS False, mDisableAvoidSmallLastRequest = False, requestpos = rpos\<rparr>"

definition lines_per_chunk :: "nat \<Rightarrow> nat" where
  "lines_per_chunk maxRequestSize =
    (let n = (maxRequestSize div (RAIDPARTS * 3 * RAIDSECTOR)) mod 2 ^ 32
     in max (min (n - n mod 1024) (256 * 1024)) (64 * 1024))"

definition setIsRaid :: "m_time_t \<Rightarrow> bytes list \<Rightarrow> nat \<Rightarrow> nat \<Rightarrow> nat \<Rightarrow> nat \<Rightarrow> bool \<Rightarrow> faulty \<Rightarrow> raid_manager \<Rightarrow> raid_manager \<times> faulty" where
  "setIsRaid now urls resumepos readtopos filesize maxRequestSize isNewRaid fails m =
    (let raid = (length urls = RAIDPARTS);
         up = readtopos + LINE - 1;
         m1 = m\<lparr>tempurls := urls, is_newRaid := is_newRaid m \<or> raid \<and> isNewRaid, is_raid := is_raid m \<or> raid \<and> \<not> isNewRaid,
           raidKnown := True, fullfilesize := filesize, deliverlimitpos := readtopos,
           acquirelimitpos := min (up - up mod LINE) filesize, outputfilepos := resumepos, startfilepos := resumepos\<rparr>
     in if \<not> is_raid m1 then (m1, fails)
        else let q = resumepos div EFFECTIVE_RAIDPARTS;
            rp = q - q mod RAIDSECTOR;
            wasted = resumepos - rp * EFFECTIVE_RAIDPARTS;
            (worst, fails') = selectWorstServer now urls fails
          in (m1\<lparr>raidpartspos := rp, resumewastedbytes := wasted, outputfilepos := resumepos - wasted,
                raidrequestpartpos := replicate RAIDPARTS rp, raidLinesPerChunk := lines_per_chunk maxRequestSize,
                unusedRaidConnection := worst\<rparr>, fails'))"

definition transferPos :: "nat \<Rightarrow> raid_manager \<Rightarrow> nat" where
  "transferPos connectionNum m = (if is_raid m then raidrequestpartpos m ! connectionNum else requestpos m)"

definition set_transferPos :: "nat \<Rightarrow> nat \<Rightarrow> raid_manager \<Rightarrow> raid_manager" where
  "set_transferPos connectionNum p m =
    (if is_raid m then m\<lparr>raidrequestpartpos := (raidrequestpartpos m)[connectionNum := p]\<rparr> else m\<lparr>requestpos := p\<rparr>)"

definition transferSize :: "nat \<Rightarrow> raid_manager \<Rightarrow> nat" where
  "transferSize connectionNum m =
    (if is_raid m then raidPartSize connectionNum (acquirelimitpos m) else fullfilesize m)"

text \<open>Where the next piece of a connection has to begin.\<close>

definition contiguouspos :: "nat \<Rightarrow> raid_manager \<Rightarrow> nat" where
  "contiguouspos connectionNum m =
    (let q = raidinputparts m ! connectionNum in if q = [] then raidpartspos m else ppos (last q) + datalen (pbuf (last q)))"

definition updateUrlsAndResetPos :: "bytes list \<Rightarrow> raid_manager \<Rightarrow> raid_manager" where
  "updateUrlsAndResetPos urls m =
    (if length (tempurls m) = length urls
     then let m1 = m\<lparr>tempurls := urls\<rparr>
       in if is_raid m1 then m1\<lparr>raidrequestpartpos := map (\<lambda>i. contiguouspos i m1) [0..<RAIDPARTS]\<rparr>
          else set_transferPos 0 (outputfilepos m1) m1
     else m)"

definition isUnusedRaidConection :: "nat \<Rightarrow> raid_manager \<Rightarrow> bool" where
  "isUnusedRaidConection connectionNum m \<longleftrightarrow> connectionNum = unusedRaidConnection m"

definition isRaidConnectionProgressBlocked :: "nat \<Rightarrow> raid_manager \<Rightarrow> bool" where
  "isRaidConnectionProgressBlocked connectionNum m \<longleftrightarrow> connectionPaused m ! connectionNum"

definition tempURL :: "nat \<Rightarrow> raid_manager \<Rightarrow> bytes" where
  "tempURL connectionNum m =
    (if is_raid m then tempurls m ! connectionNum else if tempurls m \<noteq> [] then hd (tempurls m) else [])"

definition resetPart :: "m_time_t \<Rightarrow> nat \<Rightarrow> faulty \<Rightarrow> raid_manager \<Rightarrow> raid_manager \<times> faulty" where
  "resetPart now connectionNum fails m =
    (set_transferPos connectionNum (raidpartspos m) m, faulty_add now (tempurls m ! connectionNum) fails)"

section \<open>The derived classes\<close>

text \<open>
  What direct reads need of the cipher: the library's primitives, whether the block is aligned for word access, and the counter's start.
  The mode of the direct read has the block's leading bytes in memory that is not initialised; here they are zero.
\<close>

record read_cipher =
  rc_ecb :: "bytes \<Rightarrow> bytes"
  rc_ctr_mode :: "bytes \<Rightarrow> bytes \<Rightarrow> bytes"
  rc_aligned :: bool
  rc_ctriv :: u64

datatype kind = TransferBuffer | DirectReadBuffer read_cipher

fun calcOutputChunkPos :: "kind \<Rightarrow> nat \<Rightarrow> nat" where
  "calcOutputChunkPos TransferBuffer acquiredpos = nat (chunkfloor (int acquiredpos))"
| "calcOutputChunkPos (DirectReadBuffer c) acquiredpos = acquiredpos"

definition direct_crypt :: "read_cipher \<Rightarrow> bytes \<Rightarrow> nat \<Rightarrow> nat \<Rightarrow> bytes" where
  "direct_crypt c data len pos =
    fst (ctr_crypt (rc_ecb c) (rc_ctr_mode c) (rc_aligned c) data (word_of_nat len) (int pos) (rc_ctriv c) None False True)"

fun finalize :: "kind \<Rightarrow> FilePiece \<Rightarrow> FilePiece" where
  "finalize TransferBuffer fp = fp"
| "finalize (DirectReadBuffer c) fp =
    (let r = ppos fp mod BLOCKSIZE; t = datalen (pbuf fp);
         l = (if r \<noteq> 0 then min (BLOCKSIZE - r) t else 0);
         fp1 = (if r \<noteq> 0
                then let block = write_at r (take l (datastart (pbuf fp))) (replicate BLOCKSIZE 0)
                  in buf_write 0 (take l (drop r (direct_crypt c block BLOCKSIZE (ppos fp - r)))) fp
                else fp)
     in if t > l then buf_write l (direct_crypt c (drop l (datastart (pbuf fp1))) (t - l) (ppos fp + l)) fp1 else fp1)"

section \<open>Pieces that arrive\<close>

definition submitBuffer :: "kind \<Rightarrow> nat \<Rightarrow> FilePiece \<Rightarrow> raid_manager \<Rightarrow> raid_manager" where
  "submitBuffer kind connectionNum piece m =
    (if is_raid m
     then let m1 = (if \<not> isNull (pbuf piece) then m\<lparr>raidHttpGetErrorCount := (raidHttpGetErrorCount m)[connectionNum := 0]\<rparr> else m)
       in if ppos piece = contiguouspos connectionNum m1
          then (set_transferPos connectionNum (ppos piece + datalen (pbuf piece)) m1)\<lparr>
            raidinputparts := (raidinputparts m1)[connectionNum := raidinputparts m1 ! connectionNum @ [piece]]\<rparr>
          else m1
     else m\<lparr>asyncoutputbuffers := map_set connectionNum (Some (finalize kind piece)) (asyncoutputbuffers m)\<rparr>)"

definition MIN_LAST_CHUNK :: nat where
  "MIN_LAST_CHUNK = 10 * 1024 * 1024"

definition MAX_LAST_CHUNK :: nat where
  "MAX_LAST_CHUNK = 16 * 1024 * 1024"

text \<open>The end of the next request: not so early that a small last request is left.\<close>

definition request_end :: "bool \<Rightarrow> nat \<Rightarrow> nat \<Rightarrow> nat \<Rightarrow> nat" where
  "request_end avoidSmall linesPerChunk curpos maxpos =
    (let npos = min (curpos + linesPerChunk * RAIDSECTOR * 5) maxpos;
         lastChunkSize = (if npos < maxpos then maxpos - npos else 0)
     in if avoidSmall \<and> lastChunkSize \<noteq> 0 \<and> lastChunkSize < MIN_LAST_CHUNK
        then let remainingSize = maxpos - curpos
          in if remainingSize \<ge> MAX_LAST_CHUNK then curpos + remainingSize div 2 div RAIDSECTOR * RAIDSECTOR else maxpos
        else npos)"

text \<open>
  The next request of a connection: its range, whether a piece without data was supplied for the unused connection, and whether the
  connection pauses.
\<close>

definition nextNPosForConnection :: "kind \<Rightarrow> nat \<Rightarrow> raid_manager \<Rightarrow> (nat \<times> nat) \<times> bool \<times> bool \<times> raid_manager" where
  "nextNPosForConnection kind c m =
    (if \<not> is_raid m then ((transferPos c m, deliverlimitpos m), False, False, m)
     else let curpos = transferPos c m; maxpos = transferSize c m in
       if curpos \<ge> raidpartspos m + 8 * raidLinesPerChunk m * RAIDSECTOR \<or>
          curpos > raidpartspos m + 4 * raidLinesPerChunk m * RAIDSECTOR \<and> connectionPaused m ! c
       then ((curpos, curpos), False, True, m\<lparr>connectionPaused := (connectionPaused m)[c := True]\<rparr>)
       else let m1 = m\<lparr>connectionPaused := (connectionPaused m)[c := False]\<rparr>;
           npos = request_end (\<not> mDisableAvoidSmallLastRequest m) (raidLinesPerChunk m) curpos maxpos
         in if unusedRaidConnection m = c \<and> npos > curpos
            then ((curpos, npos), True, False,
              set_transferPos c npos (submitBuffer kind c (piece_of curpos \<lparr>hbuf = None, hstart = 0, hend = npos - curpos\<rparr>) m1))
            else ((curpos, npos), False, False, m1))"

section \<open>Combining them\<close>

text \<open>The memory of the first piece of each connection, where it has any.\<close>

definition inputbufs :: "raid_manager \<Rightarrow> bytes option list" where
  "inputbufs m = map (\<lambda>q. case q of [] \<Rightarrow> None | p # _ \<Rightarrow> if isNull (pbuf p) then None else Some (datastart (pbuf p))) (raidinputparts m)"

definition sector_at :: "nat \<Rightarrow> bytes \<Rightarrow> bytes" where
  "sector_at off b = take RAIDSECTOR (drop off b)"

text \<open>The sectors of the connections in the list, from the first of them, combined by the two words of each.\<close>

fun recover_loop :: "bytes option list \<Rightarrow> nat \<Rightarrow> nat list \<Rightarrow> bytes option \<Rightarrow> bytes option" where
  "recover_loop bufs off [] dest = dest"
| "recover_loop bufs off (i # is) dest =
    recover_loop bufs off is
      (case bufs ! i of
         None \<Rightarrow> dest
       | Some b \<Rightarrow> (case dest of
           None \<Rightarrow> Some (sector_at off b)
         | Some d \<Rightarrow> Some (xor_longs 2 (sector_at off b) d)))"

definition recoverSectorFromParity :: "bytes option list \<Rightarrow> nat \<Rightarrow> bytes" where
  "recoverSectorFromParity bufs off =
    (case recover_loop bufs off (rev [0..<RAIDPARTS]) None of None \<Rightarrow> replicate RAIDSECTOR 0 | Some d \<Rightarrow> d)"

definition combined_sector :: "bytes option list \<Rightarrow> nat \<Rightarrow> nat \<Rightarrow> bytes" where
  "combined_sector bufs i j = (case bufs ! j of Some b \<Rightarrow> sector_at i b | None \<Rightarrow> recoverSectorFromParity bufs i)"

definition combine_pieces :: "nat \<Rightarrow> nat \<Rightarrow> nat \<Rightarrow> FilePiece \<Rightarrow> raid_manager \<Rightarrow> FilePiece" where
  "combine_pieces partslen bufflen filepos prev m =
    (let n = datalen (pbuf prev);
         result = new_piece filepos (bufflen + n);
         result1 = (if n > 0 then buf_write 0 (take n (datastart (pbuf prev))) result else result);
         lines = concat (map (\<lambda>k. concat (map (combined_sector (inputbufs m) (k * RAIDSECTOR)) [1..<RAIDPARTS])) [0..<partslen div RAIDSECTOR])
     in if partslen > 0 then buf_write n lines result1 else result1)"

text \<open>The bytes of the last line: as many of each part as there are.\<close>

fun xor_parts :: "raid_manager \<Rightarrow> nat \<Rightarrow> nat list \<Rightarrow> bytes \<Rightarrow> bytes" where
  "xor_parts m n [] dest = dest"
| "xor_parts m n (j # js) dest =
    xor_parts m n js
      (case raidinputparts m ! j of
         [] \<Rightarrow> dest
       | xs # _ \<Rightarrow> if isNull (pbuf xs) then dest else xorblock_len (datastart (pbuf xs)) dest (min n (datalen (pbuf xs))))"

fun combineLastRaidLine :: "raid_manager \<Rightarrow> nat \<Rightarrow> nat list \<Rightarrow> bytes" where
  "combineLastRaidLine m remainingbytes [] = []"
| "combineLastRaidLine m remainingbytes (i # is) =
    (if remainingbytes = 0 then []
     else case raidinputparts m ! i of
         [] \<Rightarrow> combineLastRaidLine m remainingbytes is
       | sector # _ \<Rightarrow>
           let n = min remainingbytes (datalen (pbuf sector))
           in (if \<not> isNull (pbuf sector) then take n (datastart (pbuf sector))
               else xor_parts m n (rev [0..<RAIDPARTS]) (replicate n 0)) @ combineLastRaidLine m (remainingbytes - n) is)"

definition roll_queue :: "nat \<Rightarrow> FilePiece list \<Rightarrow> FilePiece list" where
  "roll_queue n q =
    (case q of
       [] \<Rightarrow> []
     | p # ps \<Rightarrow>
         let p1 = p\<lparr>pbuf := (pbuf p)\<lparr>hstart := hstart (pbuf p) + n\<rparr>, ppos := ppos p + n\<rparr>
         in if hstart (pbuf p1) \<ge> hend (pbuf p1) then ps else p1 # ps)"

definition rollInputBuffers :: "nat \<Rightarrow> raid_manager \<Rightarrow> raid_manager" where
  "rollInputBuffers dataToDiscard m = m\<lparr>raidinputparts := map (roll_queue dataToDiscard) (raidinputparts m)\<rparr>"

definition front_len :: "FilePiece list \<Rightarrow> nat" where
  "front_len q = (case q of [] \<Rightarrow> 0 | p # _ \<Rightarrow> datalen (pbuf p))"

definition partslen_of :: "raid_manager \<Rightarrow> nat" where
  "partslen_of m =
    (let n = fold (\<lambda>i n. let q = raidinputparts m ! i in if q = [] then 0 else min n (front_len q)) (rev [0..<RAIDPARTS]) 0x10000000
     in n - n mod RAIDSECTOR)"

definition sumdatalen_of :: "raid_manager \<Rightarrow> nat" where
  "sumdatalen_of m = sum_list (map (\<lambda>i. front_len (raidinputparts m ! i)) [1..<RAIDPARTS])"

text \<open>What of the combined piece is handed out: not what precedes the point of the resumption, and nothing beyond the limit.\<close>

definition trim_output :: "raid_manager \<Rightarrow> FilePiece \<Rightarrow> FilePiece \<times> raid_manager" where
  "trim_output m p =
    (let n = min (datalen (pbuf p)) (resumewastedbytes m);
         p1 = p\<lparr>ppos := ppos p + n, pbuf := (pbuf p)\<lparr>hstart := hstart (pbuf p) + n\<rparr>\<rparr>;
         m1 = m\<lparr>resumewastedbytes := resumewastedbytes m - n\<rparr>;
         excess = min (ppos p1 + datalen (pbuf p1) - deliverlimitpos m) (datalen (pbuf p1))
     in (if ppos p1 + datalen (pbuf p1) > deliverlimitpos m then p1\<lparr>pbuf := (pbuf p1)\<lparr>hend := hend (pbuf p1) - excess\<rparr>\<rparr> else p1, m1))"

definition newdatafilepos :: "raid_manager \<Rightarrow> nat" where
  "newdatafilepos m = outputfilepos m + datalen (pbuf (leftoverchunk m))"

definition processToEnd :: "raid_manager \<Rightarrow> bool" where
  "processToEnd m \<longleftrightarrow> newdatafilepos m + sumdatalen_of m = acquirelimitpos m \<and>
    newdatafilepos m div EFFECTIVE_RAIDPARTS + front_len (raidinputparts m ! 0) = raidPartSize 0 (acquirelimitpos m)"

text \<open>The full lines leave the input queues, the carried piece is used up.\<close>

definition after_lines :: "nat \<Rightarrow> raid_manager \<Rightarrow> raid_manager" where
  "after_lines partslen m = (rollInputBuffers partslen m)\<lparr>raidpartspos := raidpartspos m + partslen,
    outputfilepos := outputfilepos m + partslen * EFFECTIVE_RAIDPARTS + datalen (pbuf (leftoverchunk m)), leftoverchunk := empty_piece\<rparr>"

text \<open>The last line is added at the end; before, what exceeds the chunk is carried to the next time.\<close>

definition finish_output :: "nat \<Rightarrow> bool \<Rightarrow> nat \<Rightarrow> nat \<Rightarrow> FilePiece \<Rightarrow> raid_manager \<Rightarrow> FilePiece \<times> raid_manager" where
  "finish_output macchunkpos toEnd rest dest outputrec m =
    (if toEnd \<and> rest > 0
     then (buf_write dest (combineLastRaidLine m rest [1..<RAIDPARTS]) outputrec, rollInputBuffers RAIDSECTOR m)
     else if \<not> toEnd \<and> outputfilepos m > macchunkpos
     then let excessdata = outputfilepos m - macchunkpos; len = datalen (pbuf outputrec)
       in (outputrec\<lparr>pbuf := (pbuf outputrec)\<lparr>hend := hend (pbuf outputrec) - excessdata\<rparr>\<rparr>,
         m\<lparr>leftoverchunk := buf_write 0 (take excessdata (drop (len - excessdata) (datastart (pbuf outputrec))))
               (new_piece (outputfilepos m - excessdata) excessdata),
            outputfilepos := outputfilepos m - excessdata\<rparr>)
     else (outputrec, m))"

definition combine_output :: "kind \<Rightarrow> raid_manager \<Rightarrow> FilePiece \<times> raid_manager" where
  "combine_output kind m =
    (let partslen = partslen_of m; sumdatalen = sumdatalen_of m; toEnd = processToEnd m;
         macchunkpos = calcOutputChunkPos kind (newdatafilepos m + partslen * EFFECTIVE_RAIDPARTS);
         buflen = (if toEnd then sumdatalen else partslen * EFFECTIVE_RAIDPARTS);
         outputrec = combine_pieces partslen buflen (outputfilepos m) (leftoverchunk m) m;
         dest = partslen * EFFECTIVE_RAIDPARTS + datalen (pbuf (leftoverchunk m));
         (outputrec', m') = finish_output macchunkpos toEnd (sumdatalen - partslen * EFFECTIVE_RAIDPARTS) dest outputrec (after_lines partslen m)
     in trim_output m' outputrec')"

definition combineRaidParts :: "kind \<Rightarrow> nat \<Rightarrow> raid_manager \<Rightarrow> raid_manager" where
  "combineRaidParts kind connectionNum m =
    (if partslen_of m > 0 \<or> processToEnd m
     then let (piece, m') = combine_output kind m
       in if datalen (pbuf piece) > 0
          then m'\<lparr>asyncoutputbuffers := map_set connectionNum (Some (finalize kind piece)) (asyncoutputbuffers m')\<rparr>
          else m'
     else m)"

text \<open>The piece to be written on a connection: combined now, if none waits.\<close>

definition getAsyncOutputBufferPointer :: "kind \<Rightarrow> nat \<Rightarrow> raid_manager \<Rightarrow> FilePiece option \<times> raid_manager" where
  "getAsyncOutputBufferPointer kind c m =
    (let waiting = (\<lambda>m. case map_find (asyncoutputbuffers m) c of None \<Rightarrow> None | Some p \<Rightarrow> p);
         m1 = (if is_raid m \<and> waiting m = None then combineRaidParts kind c m else m)
     in (waiting m1, m1))"

text \<open>A write that succeeded is counted by transfers: the piece's MACs and its length, for the transfer's own map and progress.\<close>

fun bufferWriteCompletedAction :: "kind \<Rightarrow> FilePiece \<Rightarrow> chunkmac_map \<times> nat \<Rightarrow> chunkmac_map \<times> nat" where
  "bufferWriteCompletedAction TransferBuffer r (macs, progresscompleted) =
    (copyEntriesTo (pmacs r) macs, progresscompleted + datalen (pbuf r))"
| "bufferWriteCompletedAction (DirectReadBuffer c) r w = w"

definition bufferWriteCompleted :: "kind \<Rightarrow> nat \<Rightarrow> bool \<Rightarrow> raid_manager \<times> chunkmac_map \<times> nat \<Rightarrow> raid_manager \<times> chunkmac_map \<times> nat" where
  "bufferWriteCompleted kind c success = (\<lambda>(m, w).
    case map_find (asyncoutputbuffers m) c of
      Some (Some p) \<Rightarrow> (m\<lparr>asyncoutputbuffers := map_set c None (asyncoutputbuffers m)\<rparr>,
        if success then bufferWriteCompletedAction kind p w else w)
    | _ \<Rightarrow> (m, w))"

section \<open>Connections that fail\<close>

definition RAID_ACTIVE_CHANNEL_FAIL_THRESHOLD :: nat where
  "RAID_ACTIVE_CHANNEL_FAIL_THRESHOLD = 5"

text \<open>A connection starts again where the parts are combined up to.\<close>

definition restart_connection :: "nat \<Rightarrow> raid_manager \<Rightarrow> raid_manager" where
  "restart_connection c m = m\<lparr>raidinputparts := (raidinputparts m)[c := []],
    raidrequestpartpos := (raidrequestpartpos m)[c := raidpartspos m]\<rparr>"

definition tryRaidHttpGetErrorRecovery :: "m_time_t \<Rightarrow> nat \<Rightarrow> bool \<Rightarrow> faulty \<Rightarrow> raid_manager \<Rightarrow> bool \<times> raid_manager \<times> faulty" where
  "tryRaidHttpGetErrorRecovery now e incrementErrors fails m =
    (let m1 = (if incrementErrors then m\<lparr>raidHttpGetErrorCount := (raidHttpGetErrorCount m)[e := raidHttpGetErrorCount m ! e + 1]\<rparr> else m);
         fails1 = faulty_add now (tempurls m ! e) fails;
         errorSum = sum_list (raidHttpGetErrorCount m1);
         highestErrors = fold max (raidHttpGetErrorCount m1) 0
     in if errorSum - highestErrors < RAID_ACTIVE_CHANNEL_FAIL_THRESHOLD
        then let m2 = (if unusedRaidConnection m1 < RAIDPARTS then restart_connection (unusedRaidConnection m1) m1 else m1)
          in (True, (restart_connection e m2)\<lparr>unusedRaidConnection := e\<rparr>, fails1)
        else (False, m1, fails1))"

text \<open>The slowest connection, once all the others have started, is left unused.\<close>

definition detectSlowestRaidConnection :: "nat \<Rightarrow> nat \<Rightarrow> raid_manager \<Rightarrow> bool \<times> nat \<times> raid_manager" where
  "detectSlowestRaidConnection this slowest m =
    (if is_raid m \<and> unusedRaidConnection m = RAIDPARTS
     then let m1 = m\<lparr>connectionStarted := (connectionStarted m)[this := True]\<rparr>;
         waiting = filter (\<lambda>j. \<not> connectionStarted m1 ! j) (rev [0..<RAIDPARTS]);
         slowest1 = (if waiting = [] then slowest else last waiting)
       in if length waiting = 1
          then (True, slowest1, m1\<lparr>unusedRaidConnection := slowest1,
            raidrequestpartpos := (raidrequestpartpos m1)[slowest1 := raidpartspos m1]\<rparr>)
          else (False, slowest1, m1)
     else (False, slowest, m))"

definition setUnusedRaidConnection :: "nat \<Rightarrow> raid_manager \<Rightarrow> bool \<times> raid_manager" where
  "setUnusedRaidConnection c m =
    (if is_raid m \<and> c < RAIDPARTS
     then let m1 = (if unusedRaidConnection m < RAIDPARTS then restart_connection (unusedRaidConnection m) m else m)
       in (True, (restart_connection c m1)\<lparr>unusedRaidConnection := c\<rparr>)
     else (False, m))"

definition raid_progress :: "raid_manager \<Rightarrow> nat" where
  "raid_progress m =
    sum_list (map (\<lambda>q. sum_list (map (\<lambda>p. if isNull (pbuf p) then 0 else datalen (pbuf p)) q)) (raidinputparts m)) +
    (if isNull (pbuf (leftoverchunk m)) then 0 else datalen (pbuf (leftoverchunk m)))"

section \<open>The striped file\<close>

text \<open>
  What the servers hold of a file: a data part the bytes of its sectors, the parity part the combination of the five data parts, a
  part's missing bytes counted as zero.
\<close>

definition file_pos :: "nat \<Rightarrow> nat \<Rightarrow> nat" where
  "file_pos j x = x div 16 * 80 + (j - 1) * 16 + x mod 16"

definition data_byte :: "bytes \<Rightarrow> nat \<Rightarrow> nat \<Rightarrow> byte" where
  "data_byte F j x = (if file_pos j x < length F then F ! file_pos j x else 0)"

definition part_byte :: "bytes \<Rightarrow> nat \<Rightarrow> nat \<Rightarrow> byte" where
  "part_byte F j x =
    (if j = 0 then data_byte F 1 x XOR data_byte F 2 x XOR data_byte F 3 x XOR data_byte F 4 x XOR data_byte F 5 x else data_byte F j x)"

definition part_slice :: "bytes \<Rightarrow> nat \<Rightarrow> nat \<Rightarrow> nat \<Rightarrow> bytes" where
  "part_slice F j a n = map (part_byte F j) [a..<a + n]"

definition fslice :: "bytes \<Rightarrow> nat \<Rightarrow> nat \<Rightarrow> bytes" where
  "fslice F a n = take n (drop a F)"

lemmas raid_sizes = RAIDPARTS_def EFFECTIVE_RAIDPARTS_def RAIDSECTOR_def RAIDLINE_def

lemma LINE_80 [simp]: "LINE = 80"
  by (simp add: RAIDLINE_def)

lemma clamp_sector: "nat (if int a - int b < 0 then 0 else if int a - int b > 16 then 16 else int a - int b) = min 16 (a - b)"
proof -
  have "int a - int b < 0 \<longleftrightarrow> a < b" "int a - int b > 16 \<longleftrightarrow> 16 + b < a" "nat (int a - int b) = a - b" by linarith+
  then show ?thesis by simp
qed

lemma raidPartSize_eq: "raidPartSize j A = A div 80 * 16 + min 16 (A mod 80 - (j - 1) * 16)"
proof -
  have "A - A mod 80 = (A div 80 * 16) * 5" by (simp add: minus_mod_eq_div_mult)
  then have "(A - A mod 80) div 5 = A div 80 * 16" by simp
  moreover have "j - of_bool (j \<noteq> 0) = j - 1" by simp
  ultimately show ?thesis using clamp_sector [of "A mod 80" "(j - 1) * 16"]
    unfolding raidPartSize_def LINE_80 RAIDSECTOR_def EFFECTIVE_RAIDPARTS_def Let_def by (simp only: of_nat_numeral)
qed

lemma raidPartSize_line: "r < 80 \<Longrightarrow> raidPartSize j (k * 80 + r) = k * 16 + min 16 (r - (j - 1) * 16)"
  by (simp add: raidPartSize_eq)

lemma file_pos_line: "b < 16 \<Longrightarrow> file_pos j (a * 16 + b) = a * 80 + (j - 1) * 16 + b"
  by (simp add: file_pos_def)

lemma quotient: "0 < n \<Longrightarrow> \<exists>k r. A = k * n + r \<and> r < (n :: nat)"
  by (metis div_mult_mod_eq mod_less_divisor)

lemma in_part:
  assumes "1 \<le> j" "j < 6"
  shows "x < raidPartSize j A \<longleftrightarrow> file_pos j x < A"
proof -
  obtain a b where x: "x = a * 16 + b" "b < 16" using quotient [of 16 x] by auto
  obtain k r where A: "A = k * 80 + r" "r < 80" using quotient [of 80 A] by auto
  define s where "s = (j - 1) * 16"
  have s: "s \<le> 64" using assms by (simp add: s_def)
  have p: "raidPartSize j A = k * 16 + min 16 (r - s)" "file_pos j x = a * 80 + s + b"
    unfolding x A s_def using raidPartSize_line [OF A(2)] file_pos_line [OF x(2)] by simp_all
  consider "Suc a \<le> k" | "a = k" | "Suc k \<le> a" by linarith
  then show ?thesis unfolding p unfolding x(1) A(1)
  proof cases
    case 1
    then have "a * 16 + 16 \<le> k * 16" "a * 80 + 80 \<le> k * 80" by linarith+
    then show "a * 16 + b < k * 16 + min 16 (r - s) \<longleftrightarrow> a * 80 + s + b < k * 80 + r" using x(2) s by linarith
  next
    case 2
    then show "a * 16 + b < k * 16 + min 16 (r - s) \<longleftrightarrow> a * 80 + s + b < k * 80 + r" using x(2) by auto
  next
    case 3
    then have "k * 16 + 16 \<le> a * 16" "k * 80 + 80 \<le> a * 80" by linarith+
    then show "a * 16 + b < k * 16 + min 16 (r - s) \<longleftrightarrow> a * 80 + s + b < k * 80 + r" using A(2) by linarith
  qed
qed

lemma parity_size: "raidPartSize 0 A = raidPartSize 1 A"
  by (simp add: raidPartSize_eq)

lemma line_sum: "r < 80 \<Longrightarrow> min 16 r + min 16 (r - 16) + min 16 (r - 32) + min 16 (r - 48) + min 16 (r - 64) = (r :: nat)"
  by linarith

lemma part_sizes_sum: "raidPartSize 1 A + raidPartSize 2 A + raidPartSize 3 A + raidPartSize 4 A + raidPartSize 5 A = A"
proof -
  obtain k r where A: "A = k * 80 + r" "r < 80" using quotient [of 80 A] by auto
  show ?thesis unfolding A(1) raidPartSize_line [OF A(2)] using line_sum [OF A(2)] by simp
qed

lemma length_part_slice [simp]: "length (part_slice F j a n) = n"
  by (simp add: part_slice_def)

lemma nth_part_slice [simp]: "i < n \<Longrightarrow> part_slice F j a n ! i = part_byte F j (a + i)"
  by (simp add: part_slice_def)

lemma drop_part_slice: "drop k (part_slice F j a n) = part_slice F j (a + k) (n - k)"
  by (rule nth_equalityI) (simp_all add: algebra_simps)

lemma take_part_slice: "take k (part_slice F j a n) = part_slice F j a (min k n)"
  by (rule nth_equalityI) simp_all

lemma part_slice_0 [simp]: "part_slice F j a 0 = []"
  by (simp add: part_slice_def)

lemma length_fslice: "a + n \<le> length F \<Longrightarrow> length (fslice F a n) = n"
  by (simp add: fslice_def)

lemma fslice_append: "fslice F a n @ fslice F (a + n) k = fslice F a (n + k)"
  by (simp add: fslice_def take_add add.commute [of n a])

lemma take_fslice: "take k (fslice F a n) = fslice F a (min k n)"
  by (simp add: fslice_def)

lemma drop_fslice: "drop k (fslice F a n) = fslice F (a + k) (n - k)"
  by (simp add: fslice_def drop_take algebra_simps)

lemma file_pos_sector: "16 dvd x \<Longrightarrow> i < 16 \<Longrightarrow> file_pos j (x + i) = 5 * x + (j - 1) * 16 + i"
  by (auto simp: file_pos_def elim!: dvdE)

text \<open>A piece of a data part within one line is a piece of the file.\<close>

lemma part_slice_sector:
  assumes "16 dvd x" "1 \<le> j" "n \<le> 16" "5 * x + (j - 1) * 16 + n \<le> length F"
  shows "part_slice F j x n = fslice F (5 * x + (j - 1) * 16) n"
proof (rule nth_equalityI)
  show "length (part_slice F j x n) = length (fslice F (5 * x + (j - 1) * 16) n)" using assms(4) by (simp add: fslice_def)
  fix i assume "i < length (part_slice F j x n)"
  then have i: "i < n" by simp
  then have "file_pos j (x + i) = 5 * x + (j - 1) * 16 + i" using file_pos_sector [OF assms(1)] assms(3) by simp
  then show "part_slice F j x n ! i = fslice F (5 * x + (j - 1) * 16) n ! i"
    using i assms(2,4) by (simp add: part_byte_def data_byte_def fslice_def)
qed

lemma five_sectors:
  assumes "16 dvd x" "5 * x + 80 \<le> length F"
  shows "concat (map (\<lambda>j. part_slice F j x 16) [1..<6]) = fslice F (5 * x) 80"
proof -
  have "part_slice F j x 16 = fslice F (5 * x + (j - 1) * 16) 16" if "1 \<le> j" "j \<le> 5" for j
    using part_slice_sector [OF assms(1) that(1), of 16 F] that assms(2) by simp
  moreover have "fslice F (5 * x) 80 = fslice F (5 * x) 16 @ fslice F (5 * x + 16) 16 @ fslice F (5 * x + 32) 16 @ fslice F (5 * x + 48) 16 @ fslice F (5 * x + 64) 16"
    using fslice_append [of F "5 * x" 16 64] fslice_append [of F "5 * x + 16" 16 48] fslice_append [of F "5 * x + 32" 16 32]
      fslice_append [of F "5 * x + 48" 16 16] by (simp add: add.assoc)
  ultimately show ?thesis by (simp add: upt_conv_Cons)
qed

lemma all_lines:
  assumes "16 dvd x" "5 * x + n * 80 \<le> length F"
  shows "concat (map (\<lambda>k. concat (map (\<lambda>j. part_slice F j (x + k * 16) 16) [1..<6])) [0..<n]) = fslice F (5 * x) (n * 80)"
  using assms(2)
proof (induction n)
  case 0
  then show ?case by (simp add: fslice_def)
next
  case (Suc n)
  have "concat (map (\<lambda>j. part_slice F j (x + n * 16) 16) [1..<6]) = fslice F (5 * x + n * 80) 80"
    using five_sectors [of "x + n * 16" F] assms(1) Suc.prems by (simp add: algebra_simps)
  then show ?case using Suc fslice_append [of F "5 * x" "n * 80" 80] by (simp add: add.commute)
qed

section \<open>A missing part is recovered\<close>

lemma parts_upt: "rev [0..<RAIDPARTS] = [5, 4, 3, 2, 1, 0]" "[1..<RAIDPARTS] = [1, 2, 3, 4, 5]"
  by (simp_all add: RAIDPARTS_def upt_conv_Cons)

lemma xor_longs_slice: "xor_longs 2 (part_slice F i x 16) (map f [x..<x + 16]) = map (\<lambda>y. f y XOR part_byte F i y) [x..<x + 16]"
  by (subst xor_longs_eq) (auto intro!: nth_equalityI)

lemma part_cases: "1 \<le> u \<Longrightarrow> u < RAIDPARTS \<Longrightarrow> u = 1 \<or> u = 2 \<or> u = 3 \<or> u = 4 \<or> u = 5"
  by (auto simp: RAIDPARTS_def)

text \<open>The other five parts combine to the missing one.\<close>

definition xor_others :: "bytes \<Rightarrow> nat \<Rightarrow> nat list \<Rightarrow> byte \<Rightarrow> nat \<Rightarrow> byte" where
  "xor_others F u is b y = foldl (XOR) b (map (\<lambda>i. part_byte F i y) (filter (\<lambda>i. i \<noteq> u) is))"

lemma xor_others_simps [simp]:
  "xor_others F u [] b y = b" "xor_others F u (i # is) b y = xor_others F u is (if i = u then b else b XOR part_byte F i y) y"
  by (simp_all add: xor_others_def)

lemma xor_others_all:
  assumes "1 \<le> u" "u < RAIDPARTS"
  shows "xor_others F u [5, 4, 3, 2, 1, 0] 0 y = part_byte F u y"
  using part_cases [OF assms] by (elim disjE) (simp_all add: part_byte_def; rule bit_eqI; auto simp: bit_xor_iff)+

lemma recover_loop_eq:
  assumes "\<And>i. i < RAIDPARTS \<Longrightarrow> i \<noteq> u \<Longrightarrow> \<exists>b. bufs ! i = Some b \<and> sector_at off b = part_slice F i x 16" "bufs ! u = None"
    and "list_all (\<lambda>i. i < RAIDPARTS) is"
  shows "recover_loop bufs off is (Some (map f [x..<x + 16])) = Some (map (\<lambda>y. xor_others F u is (f y) y) [x..<x + 16])"
  using assms(3)
proof (induction "is" arbitrary: f)
  case (Cons i "is")
  show ?case
  proof (cases "i = u")
    case False
    then obtain b where "bufs ! i = Some b" "sector_at off b = part_slice F i x 16" using assms(1) [of i] Cons.prems by auto
    then show ?thesis using Cons False xor_longs_slice by simp
  qed (use Cons assms(2) in simp)
qed simp

lemma recover_missing:
  assumes "\<And>i. i < RAIDPARTS \<Longrightarrow> i \<noteq> u \<Longrightarrow> \<exists>b. bufs ! i = Some b \<and> sector_at off b = part_slice F i x 16"
    and u: "1 \<le> u" "u < RAIDPARTS" "bufs ! u = None"
  shows "recoverSectorFromParity bufs off = part_slice F u x 16"
proof -
  have first: "recover_loop bufs off (i # is) None = Some (map (\<lambda>y. xor_others F u (i # is) 0 y) [x..<x + 16])"
    if "i < RAIDPARTS" "i \<noteq> u" "list_all (\<lambda>i. i < RAIDPARTS) is" for i "is"
    using assms(1) [OF that(1,2)] recover_loop_eq [OF assms(1) u(3) that(3), of "part_byte F i"] that(2) by (auto simp: part_slice_def)
  have "recover_loop bufs off [5, 4, 3, 2, 1, 0] None = Some (map (\<lambda>y. xor_others F u [5, 4, 3, 2, 1, 0] 0 y) [x..<x + 16])"
  proof (cases "u = 5")
    case True
    then show ?thesis using u(3) first [of 4 "[3, 2, 1, 0]"] by (simp add: RAIDPARTS_def)
  qed (use first [of 5 "[4, 3, 2, 1, 0]"] in \<open>simp add: RAIDPARTS_def\<close>)
  then show ?thesis unfolding xor_others_all [OF u(1,2)] by (simp add: recoverSectorFromParity_def parts_upt part_slice_def)
qed

section \<open>What the manager keeps\<close>

text \<open>
  The pieces on a connection follow each other from \<open>rp\<close>, hold the part's data or none, end at a sector or at the
  part's end, and are not empty.
\<close>

definition piece_ok :: "bytes \<Rightarrow> nat \<Rightarrow> nat \<Rightarrow> nat \<Rightarrow> FilePiece \<Rightarrow> bool" where
  "piece_ok F A j rp p \<longleftrightarrow>
    ppos p = rp \<and> 0 < datalen (pbuf p) \<and> datalen (pbuf p) < 0x10000000 \<and> rp + datalen (pbuf p) \<le> raidPartSize j A \<and>
    (16 dvd datalen (pbuf p) \<or> rp + datalen (pbuf p) = raidPartSize j A) \<and>
    (\<not> isNull (pbuf p) \<longrightarrow> take (datalen (pbuf p)) (datastart (pbuf p)) = part_slice F j rp (datalen (pbuf p)))"

fun pieces_ok :: "bytes \<Rightarrow> nat \<Rightarrow> nat \<Rightarrow> nat \<Rightarrow> FilePiece list \<Rightarrow> bool" where
  "pieces_ok F A j rp [] \<longleftrightarrow> True"
| "pieces_ok F A j rp (p # ps) \<longleftrightarrow> piece_ok F A j rp p \<and> pieces_ok F A j (rp + datalen (pbuf p)) ps"

definition queues_ok :: "bytes \<Rightarrow> raid_manager \<Rightarrow> bool" where
  "queues_ok F m \<longleftrightarrow> length (raidinputparts m) = RAIDPARTS \<and>
    (\<forall>j < RAIDPARTS. pieces_ok F (acquirelimitpos m) j (raidpartspos m) (raidinputparts m ! j) \<and>
      (j \<noteq> unusedRaidConnection m \<longrightarrow> (\<forall>p \<in> set (raidinputparts m ! j). \<not> isNull (pbuf p))))"

text \<open>A piece of the file.\<close>

definition file_piece :: "bytes \<Rightarrow> FilePiece \<Rightarrow> bool" where
  "file_piece F p \<longleftrightarrow> \<not> isNull (pbuf p) \<and> hstart (pbuf p) \<le> hend (pbuf p) \<and> ppos p + datalen (pbuf p) \<le> length F \<and>
    take (datalen (pbuf p)) (datastart (pbuf p)) = fslice F (ppos p) (datalen (pbuf p))"

definition limits_ok :: "bytes \<Rightarrow> raid_manager \<Rightarrow> bool" where
  "limits_ok F m \<longleftrightarrow> is_raid m \<and> fullfilesize m = length F \<and> deliverlimitpos m \<le> acquirelimitpos m \<and> acquirelimitpos m \<le> length F \<and>
    (80 dvd acquirelimitpos m \<or> acquirelimitpos m = length F) \<and>
    16 dvd raidpartspos m \<and> raidpartspos m * 5 \<le> acquirelimitpos m \<and> raidLinesPerChunk m \<le> 256 * 1024"

definition left_ok :: "bytes \<Rightarrow> raid_manager \<Rightarrow> bool" where
  "left_ok F m \<longleftrightarrow> newdatafilepos m = raidpartspos m * 5 \<and>
    (datalen (pbuf (leftoverchunk m)) > 0 \<longrightarrow> file_piece F (leftoverchunk m) \<and> ppos (leftoverchunk m) = outputfilepos m)"

lemma pieces_ok_front:
  "pieces_ok F A j rp q \<Longrightarrow> q \<noteq> [] \<Longrightarrow> piece_ok F A j rp (hd q) \<and> front_len q = datalen (pbuf (hd q))"
  by (cases q) (auto simp: front_len_def)

lemma front_bound: "pieces_ok F A j rp q \<Longrightarrow> q \<noteq> [] \<or> rp \<le> raidPartSize j A \<Longrightarrow> rp + front_len q \<le> raidPartSize j A"
  by (cases q) (auto simp: front_len_def piece_ok_def)

text \<open>The common length of the first pieces.\<close>

lemma partslen_fold:
  "fold (\<lambda>i n. let q = raidinputparts m ! i in if q = [] then 0 else min n (front_len q)) is n
    = fold (\<lambda>i n. min n (front_len (raidinputparts m ! i))) is n"
  by (intro fold_cong) (auto simp: Let_def front_len_def fun_eq_iff)

lemma fold_min:
  fixes f :: "nat \<Rightarrow> nat"
  shows "fold (\<lambda>i n. min n (f i)) is n \<le> n" "i \<in> set is \<Longrightarrow> fold (\<lambda>i n. min n (f i)) is n \<le> f i"
    "fold (\<lambda>i n. min n (f i)) is n = n \<or> (\<exists>i \<in> set is. fold (\<lambda>i n. min n (f i)) is n = f i)"
proof (induction "is" arbitrary: n)
  case (Cons a "is")
  {
    case 1
    then show ?case using Cons(1) [of "min n (f a)"] by simp
  next
    case 2
    then show ?case using Cons(1,2) [of "min n (f a)"] by (auto intro: order_trans)
  next
    case 3
    then show ?case using Cons(3) [of "min n (f a)"] by (auto simp: min_def)
  }
qed simp_all

definition shortest :: "raid_manager \<Rightarrow> nat" where
  "shortest m = fold (\<lambda>i n. min n (front_len (raidinputparts m ! i))) (rev [0..<RAIDPARTS]) 0x10000000"

lemma partslen_shortest: "partslen_of m = shortest m - shortest m mod 16"
  unfolding partslen_of_def shortest_def partslen_fold RAIDSECTOR_def by (simp only: Let_def)

lemma partslen_sectors: "16 dvd partslen_of m" "partslen_of m \<le> shortest m" "shortest m < partslen_of m + 16"
proof -
  obtain a b where s: "shortest m = a * 16 + b" "b < 16" using quotient [of 16 "shortest m"] by auto
  then have "partslen_of m = a * 16" by (simp add: partslen_shortest)
  then show "16 dvd partslen_of m" "partslen_of m \<le> shortest m" "shortest m < partslen_of m + 16" using s by simp_all
qed

lemma shortest_props:
  "j < RAIDPARTS \<Longrightarrow> shortest m \<le> front_len (raidinputparts m ! j)"
  "shortest m = 0x10000000 \<or> (\<exists>j < RAIDPARTS. shortest m = front_len (raidinputparts m ! j))"
proof -
  show "j < RAIDPARTS \<Longrightarrow> shortest m \<le> front_len (raidinputparts m ! j)" unfolding shortest_def by (rule fold_min(2)) simp
  show "shortest m = 0x10000000 \<or> (\<exists>j < RAIDPARTS. shortest m = front_len (raidinputparts m ! j))"
    using fold_min(3) [of "\<lambda>i. front_len (raidinputparts m ! i)" "rev [0..<RAIDPARTS]" "0x10000000"] unfolding shortest_def by auto
qed

lemma partslen_front:
  assumes "j < RAIDPARTS"
  shows "partslen_of m \<le> front_len (raidinputparts m ! j)" "partslen_of m > 0 \<Longrightarrow> raidinputparts m ! j \<noteq> []"
  using shortest_props(1) [OF assms, of m] partslen_sectors(2) [of m] by (auto simp: front_len_def split: list.splits)

section \<open>The full lines\<close>

lemma last_part_size: "raidPartSize 5 A < A div 80 * 16 + 16" "j < RAIDPARTS \<Longrightarrow> A div 80 * 16 \<le> raidPartSize j A"
proof -
  obtain k r where A: "A = k * 80 + r" "r < 80" using quotient [of 80 A] by auto
  then show "raidPartSize 5 A < A div 80 * 16 + 16" using raidPartSize_line [OF A(2), of 5 k] by simp
qed (simp add: raidPartSize_eq)

text \<open>Whole sectors of the last part are whole lines.\<close>

lemma whole_lines: "16 dvd n \<Longrightarrow> n \<le> raidPartSize 5 A \<Longrightarrow> n \<le> A div 80 * 16"
  using last_part_size(1) [of A] by (auto elim!: dvdE)

lemma lines_in_file: "n \<le> A div 80 * 16 \<Longrightarrow> n * 5 \<le> (A :: nat)"
  using div_times_less_eq_dividend [of A 80] by simp

lemma sector_of_piece:
  assumes "piece_ok F A j rp p" "\<not> isNull (pbuf p)" "k + 16 \<le> datalen (pbuf p)"
  shows "sector_at k (datastart (pbuf p)) = part_slice F j (rp + k) 16"
proof -
  let ?n = "datalen (pbuf p)"
  have "sector_at k (datastart (pbuf p)) = take 16 (drop k (take ?n (datastart (pbuf p))))"
    using assms(3) by (simp add: sector_at_def RAIDSECTOR_def drop_take min_def)
  also have "\<dots> = take 16 (drop k (part_slice F j rp ?n))" using assms(1,2) by (simp add: piece_ok_def)
  finally show ?thesis using assms(3) by (simp add: drop_part_slice take_part_slice)
qed

lemma combined_sector_eq:
  assumes q: "queues_ok F m" and k: "k + 16 \<le> partslen_of m" and j: "1 \<le> j" "j < RAIDPARTS"
  shows "combined_sector (inputbufs m) k j = part_slice F j (raidpartspos m + k) 16"
proof -
  let ?q = "\<lambda>i. raidinputparts m ! i"
  have front: "?q i \<noteq> []" "piece_ok F (acquirelimitpos m) i (raidpartspos m) (hd (?q i))" "k + 16 \<le> datalen (pbuf (hd (?q i)))" if "i < RAIDPARTS" for i
  proof -
    show "?q i \<noteq> []" using partslen_front(2) [OF that] k by simp
    moreover have "pieces_ok F (acquirelimitpos m) i (raidpartspos m) (?q i)" using q that by (simp add: queues_ok_def)
    ultimately show "piece_ok F (acquirelimitpos m) i (raidpartspos m) (hd (?q i))" "k + 16 \<le> datalen (pbuf (hd (?q i)))"
      using pieces_ok_front [of F _ i _ "?q i"] partslen_front(1) [OF that, of m] k by fastforce+
  qed
  have buf: "inputbufs m ! i = (if isNull (pbuf (hd (?q i))) then None else Some (datastart (pbuf (hd (?q i)))))" if "i < RAIDPARTS" for i
    using front(1) [OF that] q that by (cases "?q i") (auto simp: inputbufs_def queues_ok_def)
  have sec: "\<exists>b. inputbufs m ! i = Some b \<and> sector_at k b = part_slice F i (raidpartspos m + k) 16"
    if "i < RAIDPARTS" "\<not> isNull (pbuf (hd (?q i)))" for i
    using buf [OF that(1)] sector_of_piece [OF front(2) [OF that(1)] that(2) front(3) [OF that(1)]] that by auto
  have others: "\<not> isNull (pbuf (hd (?q i)))" if "i < RAIDPARTS" "i \<noteq> unusedRaidConnection m" for i
    using q that front(1) [OF that(1)] by (auto simp: queues_ok_def)
  show ?thesis
  proof (cases "isNull (pbuf (hd (?q j)))")
    case True
    then have u: "j = unusedRaidConnection m" using others j by auto
    have "recoverSectorFromParity (inputbufs m) k = part_slice F j (raidpartspos m + k) 16"
      by (rule recover_missing [OF _ j]) (use sec others u buf [OF j(2)] True in auto)
    then show ?thesis using buf [OF j(2)] True by (simp add: combined_sector_def)
  qed (use sec [OF j(2)] in \<open>auto simp: combined_sector_def\<close>)
qed

lemma length_write_at: "off + length src \<le> length mem \<Longrightarrow> length (write_at off src mem) = length mem"
  by (simp add: write_at_def)

text \<open>The combined piece: the carried bytes and the full lines are those of the file.\<close>

lemma combine_pieces_eq:
  assumes q: "queues_ok F m" "limits_ok F m" "left_ok F m" and b: "partslen_of m * 5 \<le> bufflen"
  defines "n \<equiv> datalen (pbuf (leftoverchunk m))"
  shows "\<exists>mem. combine_pieces (partslen_of m) bufflen (outputfilepos m) (leftoverchunk m) m
      = piece_of (outputfilepos m) \<lparr>hbuf = Some mem, hstart = 0, hend = bufflen + n\<rparr>
    \<and> length mem = bufflen + n + 16 \<and> take (n + partslen_of m * 5) mem = fslice F (outputfilepos m) (n + partslen_of m * 5)
    \<and> outputfilepos m + n + partslen_of m * 5 \<le> length F"
proof -
  let ?p = "partslen_of m" let ?rp = "raidpartspos m"
  have dv: "16 dvd ?p" "16 dvd ?rp" using partslen_sectors(1) q(2) by (auto simp: limits_ok_def)
  have end_ok: "(?rp + ?p) * 5 \<le> length F"
  proof (cases "?p = 0")
    case True
    then show ?thesis using q(2) by (simp add: limits_ok_def)
  next
    case False
    have "?rp + front_len (raidinputparts m ! 5) \<le> raidPartSize 5 (acquirelimitpos m)"
      using front_bound [of F _ 5 _ "raidinputparts m ! 5"] q(1) partslen_front(2) [of 5 m] False by (auto simp: queues_ok_def RAIDPARTS_def)
    then have "?rp + ?p \<le> raidPartSize 5 (acquirelimitpos m)" using partslen_front(1) [of 5 m] by (simp add: RAIDPARTS_def)
    then have "?rp + ?p \<le> acquirelimitpos m div 80 * 16" using whole_lines dv by simp
    then show ?thesis using lines_in_file q(2) by (fastforce simp: limits_ok_def)
  qed
  define lines where "lines = concat (map (\<lambda>k. concat (map (combined_sector (inputbufs m) (k * RAIDSECTOR)) [1..<RAIDPARTS])) [0..<?p div RAIDSECTOR])"
  have "lines = concat (map (\<lambda>k. concat (map (\<lambda>j. part_slice F j (?rp + k * 16) 16) [1..<6])) [0..<?p div 16])"
    unfolding lines_def using combined_sector_eq [OF q(1)] dv(1)
    by (intro arg_cong [where f = concat] map_cong refl) (auto simp: RAIDSECTOR_def RAIDPARTS_def elim!: dvdE)
  then have lines: "lines = fslice F (?rp * 5) (?p * 5)"
    using all_lines [OF dv(2), of "?p div 16" F] dv(1) end_ok by (auto simp: algebra_simps elim!: dvdE)
  then have ll: "length lines = ?p * 5" using end_ok by (simp add: length_fslice algebra_simps)
  let ?left = "take n (datastart (pbuf (leftoverchunk m)))"
  have left: "?left = fslice F (outputfilepos m) n" "outputfilepos m + n = ?rp * 5"
    using q(3) by (auto simp: left_ok_def newdatafilepos_def n_def file_piece_def fslice_def)
  then have len: "length ?left = n" using end_ok by (simp add: length_fslice algebra_simps)
  let ?mem0 = "replicate (bufflen + n + 16) (0 :: byte)"
  let ?mem = "write_at n lines (write_at 0 ?left ?mem0)"
  have "combine_pieces ?p bufflen (outputfilepos m) (leftoverchunk m) m = piece_of (outputfilepos m) \<lparr>hbuf = Some ?mem, hstart = 0, hend = bufflen + n\<rparr>"
    unfolding combine_pieces_def Let_def n_def [symmetric] lines_def [symmetric] using ll len
    by (auto simp: new_piece_def piece_of_def buf_write_def write_at_def RAIDSECTOR_def BLOCKSIZE_def)
  moreover have "length ?mem = bufflen + n + 16" using len ll b by (simp add: length_write_at)
  moreover have "take (n + ?p * 5) ?mem = ?left @ lines" using len ll b by (simp add: write_at_def)
  moreover have "?left @ lines = fslice F (outputfilepos m) (n + ?p * 5)" unfolding left lines by (simp add: left(2) [symmetric] fslice_append)
  moreover have "outputfilepos m + n + ?p * 5 \<le> length F" using left(2) end_ok by simp
  ultimately show ?thesis by metis
qed

section \<open>The queues move on\<close>

lemma roll_datalen: "datalen (b\<lparr>hstart := hstart b + n\<rparr>) = datalen b - n"
  by (simp add: datalen_def)

lemma roll_queue_ok:
  assumes "pieces_ok F A j rp q" "16 dvd n" "n \<le> front_len q"
  shows "pieces_ok F A j (rp + n) (roll_queue n q)" "\<forall>p \<in> set q. \<not> isNull (pbuf p) \<Longrightarrow> \<forall>p \<in> set (roll_queue n q). \<not> isNull (pbuf p)"
proof -
  show "\<forall>p \<in> set q. \<not> isNull (pbuf p) \<Longrightarrow> \<forall>p \<in> set (roll_queue n q). \<not> isNull (pbuf p)"
    by (cases q) (auto simp: roll_queue_def Let_def isNull_def)
  show "pieces_ok F A j (rp + n) (roll_queue n q)"
  proof (cases q)
    case (Cons p ps)
    define d where "d = datalen (pbuf p)"
    have p: "piece_ok F A j rp p" "pieces_ok F A j (rp + d) ps" "n \<le> d" using assms Cons by (auto simp: front_len_def d_def)
    let ?p = "p\<lparr>pbuf := (pbuf p)\<lparr>hstart := hstart (pbuf p) + n\<rparr>, ppos := ppos p + n\<rparr>"
    have fields: "ppos ?p = ppos p + n" "datalen (pbuf ?p) = d - n" "isNull (pbuf ?p) = isNull (pbuf p)" "datastart (pbuf ?p) = drop n (datastart (pbuf p))"
      by (simp_all add: roll_datalen d_def isNull_def datastart_def) (simp add: add.commute)
    have pd: "ppos p = rp" "0 < d" "rp + d \<le> raidPartSize j A" "16 dvd d \<or> rp + d = raidPartSize j A" "d < 0x10000000"
      "\<not> isNull (pbuf p) \<Longrightarrow> take d (datastart (pbuf p)) = part_slice F j rp d"
      using p(1) unfolding piece_ok_def d_def by auto
    have gone: "hend (pbuf p) \<le> hstart (pbuf p) + n \<longleftrightarrow> d = n" using pd(2) p(3) by (auto simp: d_def datalen_def)
    have data: "take (d - n) (drop n (datastart (pbuf p))) = part_slice F j (rp + n) (d - n)" if "\<not> isNull (pbuf p)"
      using pd(6) [OF that] by (simp add: drop_take [symmetric] drop_part_slice)
    have "16 dvd d - n \<or> rp + n + (d - n) = raidPartSize j A" using pd(4) p(3) assms(2) by (auto intro: dvd_diff_nat)
    then have "piece_ok F A j (rp + n) ?p" if "d \<noteq> n"
      unfolding piece_ok_def fields using that p(3) pd(1,3,5) data by simp
    moreover have "rp + n + (d - n) = rp + d" using p(3) by simp
    ultimately show ?thesis using p(2) fields(2) gone by (auto simp: Cons roll_queue_def Let_def)
  qed (simp add: roll_queue_def)
qed

lemma after_lines_simps [simp]:
  "raidpartspos (after_lines n m) = raidpartspos m + n" "acquirelimitpos (after_lines n m) = acquirelimitpos m"
  "deliverlimitpos (after_lines n m) = deliverlimitpos m" "fullfilesize (after_lines n m) = fullfilesize m"
  "is_raid (after_lines n m) = is_raid m" "unusedRaidConnection (after_lines n m) = unusedRaidConnection m"
  "outputfilepos (after_lines n m) = newdatafilepos m + n * 5" "leftoverchunk (after_lines n m) = empty_piece"
  "raidinputparts (after_lines n m) = map (roll_queue n) (raidinputparts m)" "resumewastedbytes (after_lines n m) = resumewastedbytes m"
  "startfilepos (after_lines n m) = startfilepos m" "raidLinesPerChunk (after_lines n m) = raidLinesPerChunk m" "asyncoutputbuffers (after_lines n m) = asyncoutputbuffers m"
  by (simp_all add: after_lines_def rollInputBuffers_def newdatafilepos_def EFFECTIVE_RAIDPARTS_def)

lemma after_lines_ok:
  assumes "queues_ok F m" "limits_ok F m" "left_ok F m"
  shows "queues_ok F (after_lines (partslen_of m) m)" "limits_ok F (after_lines (partslen_of m) m)" "left_ok F (after_lines (partslen_of m) m)"
proof -
  let ?n = "partslen_of m"
  have q: "pieces_ok F (acquirelimitpos m) j (raidpartspos m) (raidinputparts m ! j)"
      "j \<noteq> unusedRaidConnection m \<Longrightarrow> \<forall>p \<in> set (raidinputparts m ! j). \<not> isNull (pbuf p)" if "j < RAIDPARTS" for j
    using assms(1) that by (simp_all add: queues_ok_def)
  have "pieces_ok F (acquirelimitpos m) j (raidpartspos m + ?n) (roll_queue ?n (raidinputparts m ! j))"
      "j \<noteq> unusedRaidConnection m \<Longrightarrow> \<forall>p \<in> set (roll_queue ?n (raidinputparts m ! j)). \<not> isNull (pbuf p)" if "j < RAIDPARTS" for j
    using roll_queue_ok [OF q(1) [OF that] partslen_sectors(1) partslen_front(1) [OF that]] q(2) [OF that] by blast+
  then show "queues_ok F (after_lines ?n m)" using assms(1) by (simp add: queues_ok_def)
  have "(raidpartspos m + ?n) * 5 \<le> acquirelimitpos m"
  proof (cases "?n = 0")
    case False
    have five: "5 < RAIDPARTS" by (simp add: RAIDPARTS_def)
    have "raidpartspos m + front_len (raidinputparts m ! 5) \<le> raidPartSize 5 (acquirelimitpos m)"
      using front_bound [OF q(1) [OF five]] partslen_front(2) [OF five] False by simp
    then have "raidpartspos m + ?n \<le> raidPartSize 5 (acquirelimitpos m)" using partslen_front(1) [OF five, of m] by linarith
    moreover have "16 dvd raidpartspos m + ?n" using partslen_sectors(1) assms(2) by (simp add: limits_ok_def)
    ultimately show ?thesis by (intro lines_in_file whole_lines)
  qed (use assms(2) in \<open>simp add: limits_ok_def\<close>)
  then show "limits_ok F (after_lines ?n m)" using assms(2) partslen_sectors(1) by (simp add: limits_ok_def)
  show "left_ok F (after_lines ?n m)" using assms(3)
    by (simp add: left_ok_def newdatafilepos_def [of "after_lines ?n m"] empty_piece_def piece_of_def datalen_def)
qed

section \<open>The end of the file\<close>

text \<open>The first pieces of all connections reach the ends of the parts.\<close>

definition at_ends :: "raid_manager \<Rightarrow> bool" where
  "at_ends m \<longleftrightarrow> (\<forall>j < RAIDPARTS. raidpartspos m + front_len (raidinputparts m ! j) = raidPartSize j (acquirelimitpos m))"

lemma parts_begun: "limits_ok F m \<Longrightarrow> j < RAIDPARTS \<Longrightarrow> raidpartspos m \<le> raidPartSize j (acquirelimitpos m)"
proof -
  assume l: "limits_ok F m" and j: "j < RAIDPARTS"
  obtain a where a: "raidpartspos m = 16 * a" using l by (auto simp: limits_ok_def elim!: dvdE)
  have "a * 80 \<le> acquirelimitpos m" using l a by (simp add: limits_ok_def)
  then have "a \<le> acquirelimitpos m div 80" by (simp add: less_eq_div_iff_mult_less_eq)
  then show ?thesis using last_part_size(2) [OF j, of "acquirelimitpos m"] a by simp
qed

lemma queues_okD:
  assumes "queues_ok F m" "j < RAIDPARTS"
  shows "pieces_ok F (acquirelimitpos m) j (raidpartspos m) (raidinputparts m ! j)"
    "j \<noteq> unusedRaidConnection m \<Longrightarrow> \<forall>p \<in> set (raidinputparts m ! j). \<not> isNull (pbuf p)"
  using assms by (simp_all add: queues_ok_def)

lemma queue_front_bound:
  assumes "queues_ok F m" "limits_ok F m" "j < RAIDPARTS"
  shows "raidpartspos m + front_len (raidinputparts m ! j) \<le> raidPartSize j (acquirelimitpos m)"
  by (rule front_bound [OF queues_okD(1) [OF assms(1,3)]]) (use parts_begun [OF assms(2,3)] in simp)

lemma all_parts: "(\<forall>j < RAIDPARTS. P j) \<longleftrightarrow> P 0 \<and> P 1 \<and> P 2 \<and> P 3 \<and> P 4 \<and> P 5"
proof -
  have "j < RAIDPARTS \<longleftrightarrow> j = 0 \<or> j = 1 \<or> j = 2 \<or> j = 3 \<or> j = 4 \<or> j = 5" for j by (auto simp: RAIDPARTS_def)
  then show ?thesis by auto
qed

lemma processToEnd_at_ends:
  assumes "queues_ok F m" "limits_ok F m" "left_ok F m"
  shows "processToEnd m \<longleftrightarrow> at_ends m"
proof -
  let ?A = "acquirelimitpos m" let ?rp = "raidpartspos m" let ?f = "\<lambda>j. front_len (raidinputparts m ! j)"
  have le: "?rp + ?f 0 \<le> raidPartSize 0 ?A" "?rp + ?f 1 \<le> raidPartSize 1 ?A" "?rp + ?f 2 \<le> raidPartSize 2 ?A" "?rp + ?f 3 \<le> raidPartSize 3 ?A"
    "?rp + ?f 4 \<le> raidPartSize 4 ?A" "?rp + ?f 5 \<le> raidPartSize 5 ?A" using queue_front_bound [OF assms(1,2)] by (simp_all add: RAIDPARTS_def)
  have new: "newdatafilepos m = ?rp * 5" using assms(3) by (simp add: left_ok_def)
  have sum: "sumdatalen_of m = ?f 1 + ?f 2 + ?f 3 + ?f 4 + ?f 5" unfolding sumdatalen_of_def parts_upt by simp
  have "processToEnd m \<longleftrightarrow> ?rp * 5 + (?f 1 + ?f 2 + ?f 3 + ?f 4 + ?f 5) = ?A \<and> ?rp + ?f 0 = raidPartSize 0 ?A"
    by (simp add: processToEnd_def new sum EFFECTIVE_RAIDPARTS_def)
  then show ?thesis unfolding at_ends_def all_parts using part_sizes_sum [of ?A] le by linarith
qed

lemma at_ends_single:
  assumes "pieces_ok F A j rp q" "rp + front_len q = raidPartSize j A"
  shows "q = [] \<or> (\<exists>p. q = [p])"
proof (cases q)
  case (Cons p ps)
  then show ?thesis using assms by (cases ps) (auto simp: front_len_def piece_ok_def)
qed simp

lemma roll_front: "length q \<le> 1 \<Longrightarrow> n \<le> front_len q \<Longrightarrow> front_len (roll_queue n q) = front_len q - n"
  by (cases q) (auto simp: roll_queue_def front_len_def Let_def datalen_def)

text \<open>Then the full lines are all the lines there are, and the rest is the last line.\<close>

lemma sector_floor:
  assumes "K * 16 \<le> s" "s < K * 16 + 16" "16 * a + t = s" "16 * b \<le> t" "t < 16 * b + 16"
  shows "16 * a + 16 * b = K * (16 :: nat)"
proof -
  have "K < a + b + 1" "a + b < K + 1" using assms by linarith+
  then show ?thesis by simp
qed

lemma partslen_at_ends:
  assumes "queues_ok F m" "limits_ok F m" "at_ends m"
  shows "raidpartspos m + partslen_of m = acquirelimitpos m div 80 * 16"
proof -
  let ?A = "acquirelimitpos m" let ?rp = "raidpartspos m" let ?f = "\<lambda>j. front_len (raidinputparts m ! j)"
  have e: "?rp + ?f j = raidPartSize j ?A" if "j < RAIDPARTS" for j using assms(3) that by (simp add: at_ends_def)
  have small: "?f j < 0x10000000" if "j < RAIDPARTS" for j
    using queues_okD(1) [OF assms(1) that] by (cases "raidinputparts m ! j") (auto simp: front_len_def piece_ok_def)
  have five: "5 < RAIDPARTS" by (simp add: RAIDPARTS_def)
  have "raidPartSize 5 ?A \<le> raidPartSize j ?A" if "j < RAIDPARTS" for j
  proof -
    have "(j - 1) * 16 \<le> (5 - 1) * 16" using that by (simp add: RAIDPARTS_def)
    then show ?thesis unfolding raidPartSize_eq by (intro add_left_mono min.mono diff_le_mono2 order_refl)
  qed
  then have f5: "?f 5 \<le> ?f j" if "j < RAIDPARTS" for j using e [OF that] e [OF five] that by (metis add_le_cancel_left)
  have "shortest m = ?f 5"
    using shortest_props(1) [OF five, of m] shortest_props(2) [of m] f5 small [OF five] by (metis le_antisym not_less)
  then have s: "?rp + shortest m = raidPartSize 5 ?A" using e [of 5] by (simp add: RAIDPARTS_def)
  obtain a where a: "?rp = 16 * a" using assms(2) by (auto simp: limits_ok_def elim!: dvdE)
  obtain b where b: "partslen_of m = 16 * b" using partslen_sectors(1) by (auto elim!: dvdE)
  have "?A div 80 * 16 \<le> raidPartSize 5 ?A" by (rule last_part_size(2) [OF five])
  then show ?thesis using s partslen_sectors(2,3) [of m] last_part_size(1) [of ?A] unfolding a b by (metis sector_floor)
qed

lemma xor_prefix:
  assumes "length src \<ge> k" "k \<le> n"
  shows "xorblock_len src (map f [x..<x + n]) k = map (\<lambda>y. f y XOR (if y < x + k then src ! (y - x) else 0)) [x..<x + n]"
  using assms by (subst xorblock_len_eq) (auto intro!: nth_equalityI simp: nth_append)

lemma beyond_part:
  assumes "1 \<le> j" "j < RAIDPARTS" "raidPartSize j (length F) \<le> y"
  shows "part_byte F j y = 0"
  using in_part [of j y "length F"] assms by (simp add: part_byte_def data_byte_def RAIDPARTS_def)

text \<open>One part's contribution to a missing sector of the last line.\<close>

lemma xor_front:
  assumes q: "pieces_ok F (length F) j rp q" "rp + front_len q = raidPartSize j (length F)" "\<forall>p \<in> set q. \<not> isNull (pbuf p)"
    and j: "j < RAIDPARTS" "j = 0 \<Longrightarrow> n \<le> front_len q"
  shows "(case q of [] \<Rightarrow> map f [rp..<rp + n]
      | xs # _ \<Rightarrow> if isNull (pbuf xs) then map f [rp..<rp + n] else xorblock_len (datastart (pbuf xs)) (map f [rp..<rp + n]) (min n (datalen (pbuf xs))))
    = map (\<lambda>y. f y XOR part_byte F j y) [rp..<rp + n]"
proof -
  have zero: "part_byte F j y = 0" if "rp + front_len q \<le> y" "y < rp + n" for y
    using beyond_part [of j F y] q(2) j that by (cases "j = 0") auto
  show ?thesis
  proof (cases q)
    case Nil
    then show ?thesis using zero by (auto simp: front_len_def)
  next
    case (Cons p ps)
    let ?d = "datalen (pbuf p)"
    have p: "\<not> isNull (pbuf p)" "take ?d (datastart (pbuf p)) = part_slice F j rp ?d" and fl: "front_len q = ?d"
      using q Cons by (auto simp: piece_ok_def front_len_def)
    have l: "?d \<le> length (datastart (pbuf p))" using arg_cong [OF p(2), of length] by simp
    have v: "datastart (pbuf p) ! (y - rp) = part_byte F j y" if "rp \<le> y" "y < rp + ?d" for y
      using arg_cong [OF p(2), of "\<lambda>l. l ! (y - rp)"] that by simp
    have "xorblock_len (datastart (pbuf p)) (map f [rp..<rp + n]) (min n ?d) = map (\<lambda>y. f y XOR part_byte F j y) [rp..<rp + n]"
      using xor_prefix [of "min n ?d" "datastart (pbuf p)" n f rp] l v zero fl by (auto intro!: map_cong)
    then show ?thesis using p(1) Cons by simp
  qed
qed

lemma xor_parts_eq:
  assumes q: "queues_ok F m" "at_ends m" "acquirelimitpos m = length F"
    and u: "u = unusedRaidConnection m" "isNull (pbuf (hd (raidinputparts m ! u)))" "raidinputparts m ! u \<noteq> []"
    and n: "n \<le> front_len (raidinputparts m ! 0)" "list_all (\<lambda>j. j < RAIDPARTS) js"
  shows "xor_parts m n js (map f [raidpartspos m..<raidpartspos m + n]) = map (\<lambda>y. xor_others F u js (f y) y) [raidpartspos m..<raidpartspos m + n]"
  using n(2)
proof (induction js arbitrary: f)
  case (Cons j js)
  let ?q = "raidinputparts m ! j" let ?rp = "raidpartspos m"
  have step: "(case ?q of [] \<Rightarrow> map f [?rp..<?rp + n]
      | xs # _ \<Rightarrow> if isNull (pbuf xs) then map f [?rp..<?rp + n] else xorblock_len (datastart (pbuf xs)) (map f [?rp..<?rp + n]) (min n (datalen (pbuf xs))))
    = map (\<lambda>y. if j = u then f y else f y XOR part_byte F j y) [?rp..<?rp + n]"
  proof (cases "j = u")
    case True
    then show ?thesis using u by (auto split: list.split)
  next
    case False
    have j: "j < RAIDPARTS" using Cons.prems by simp
    have "pieces_ok F (length F) j ?rp ?q" "?rp + front_len ?q = raidPartSize j (length F)" "\<forall>p \<in> set ?q. \<not> isNull (pbuf p)"
      using queues_okD [OF q(1) j] q(2,3) False u(1) j by (simp_all add: at_ends_def)
    then show ?thesis using xor_front [of F j ?rp ?q n f] j n(1) False by simp
  qed
  show ?case unfolding xor_parts.simps(2) step using Cons by (simp add: if_distrib)
qed simp

lemma combineLastRaidLine_0: "combineLastRaidLine m 0 is = []"
  by (cases "is") simp_all

lemma last_line_step:
  assumes q: "queues_ok F m" "at_ends m" "acquirelimitpos m = length F" "raidpartspos m = length F div 80 * 16"
    and i: "1 \<le> i" "i < RAIDPARTS" and r: "r = length F mod 80 - (i - 1) * 16"
  shows "combineLastRaidLine m r (i # is) = part_slice F i (raidpartspos m) (min 16 r) @ combineLastRaidLine m (r - 16) is"
proof (cases "r = 0")
  case False
  let ?q = "\<lambda>j. raidinputparts m ! j" let ?rp = "raidpartspos m"
  have "?rp + front_len (?q j) = ?rp + min 16 (length F mod 80 - (j - 1) * 16)" if "j < RAIDPARTS" for j
    using q(2-4) that by (simp add: at_ends_def raidPartSize_eq)
  then have fl: "front_len (?q j) = min 16 (length F mod 80 - (j - 1) * 16)" if "j < RAIDPARTS" for j using that by simp
  have fi: "front_len (?q i) = min 16 r" using fl [OF i(2)] r by simp
  then obtain p ps where p: "?q i = p # ps" "datalen (pbuf p) = min 16 r" using False by (cases "?q i") (auto simp: front_len_def)
  have n: "min r (datalen (pbuf p)) = min 16 r" "r - min 16 r = r - 16" using p(2) by auto
  have "(if \<not> isNull (pbuf p) then take (min 16 r) (datastart (pbuf p)) else xor_parts m (min 16 r) (rev [0..<RAIDPARTS]) (replicate (min 16 r) 0))
      = part_slice F i ?rp (min 16 r)"
  proof (cases "isNull (pbuf p)")
    case True
    then have u: "i = unusedRaidConnection m" using queues_okD(2) [OF q(1) i(2)] p(1) by auto
    have "min 16 r \<le> front_len (?q 0)" using fl [of 0] r by (simp add: RAIDPARTS_def min.coboundedI2)
    then have "xor_parts m (min 16 r) [5, 4, 3, 2, 1, 0] (map (\<lambda>_. 0) [?rp..<?rp + min 16 r]) = map (\<lambda>y. xor_others F i [5, 4, 3, 2, 1, 0] 0 y) [?rp..<?rp + min 16 r]"
      by (intro xor_parts_eq [OF q(1-3) u]) (use True p in \<open>simp_all add: RAIDPARTS_def\<close>)
    then show ?thesis using True unfolding parts_upt xor_others_all [OF i] by (simp add: map_replicate_const part_slice_def)
  next
    case False
    have "piece_ok F (length F) i ?rp p" using queues_okD(1) [OF q(1) i(2)] p(1) q(3) by simp
    then show ?thesis using False p(2) by (simp add: piece_ok_def)
  qed
  then show ?thesis using False p(1) n by (simp add: Let_def)
qed (simp add: combineLastRaidLine_0)

lemma sector_then_rest: "fslice F a (min 16 r) @ fslice F (a + 16) (r - 16) = fslice F a r"
proof (cases "r \<le> 16")
  case False
  then show ?thesis using fslice_append [of F a 16 "r - 16"] by simp
qed (simp add: fslice_def)

lemma last_line:
  assumes q: "queues_ok F m" "at_ends m" "acquirelimitpos m = length F" "raidpartspos m = length F div 80 * 16"
  shows "combineLastRaidLine m (length F mod 80) [1..<RAIDPARTS] = fslice F (raidpartspos m * 5) (length F mod 80)"
proof -
  define r rp where "r = length F mod 80" and "rp = raidpartspos m"
  have F: "length F = rp * 5 + r" "16 dvd rp" and r: "r < 80" using q(4) by (simp_all add: r_def rp_def)
  have part: "part_slice F i rp (min 16 (r - (i - 1) * 16)) = fslice F (rp * 5 + (i - 1) * 16) (min 16 (r - (i - 1) * 16))" if "1 \<le> i" for i
  proof (cases "(i - 1) * 16 \<le> r")
    case True
    then show ?thesis using part_slice_sector [OF F(2) that, of "min 16 (r - (i - 1) * 16)" F] F(1) by (simp add: mult.commute)
  qed (simp add: fslice_def)
  note step = last_line_step [OF q, folded r_def rp_def]
  have "combineLastRaidLine m r [1, 2, 3, 4, 5] = part_slice F 1 rp (min 16 r) @ part_slice F 2 rp (min 16 (r - 16)) @ part_slice F 3 rp (min 16 (r - 32))
      @ part_slice F 4 rp (min 16 (r - 48)) @ part_slice F 5 rp (min 16 (r - 64))"
    using step [of 1 r "[2, 3, 4, 5]"] step [of 2 "r - 16" "[3, 4, 5]"] step [of 3 "r - 32" "[4, 5]"] step [of 4 "r - 48" "[5]"] step [of 5 "r - 64" "[]"]
    by (simp add: RAIDPARTS_def del: combineLastRaidLine.simps(2))
  also have "\<dots> = fslice F (rp * 5) (min 16 r) @ fslice F (rp * 5 + 16) (min 16 (r - 16)) @ fslice F (rp * 5 + 32) (min 16 (r - 32))
      @ fslice F (rp * 5 + 48) (min 16 (r - 48)) @ fslice F (rp * 5 + 64) (r - 64)"
    using part [of 1] part [of 2] part [of 3] part [of 4] part [of 5] r by simp
  also have "\<dots> = fslice F (rp * 5) r"
    using sector_then_rest [of F "rp * 5" r] sector_then_rest [of F "rp * 5 + 16" "r - 16"] sector_then_rest [of F "rp * 5 + 32" "r - 32"]
      sector_then_rest [of F "rp * 5 + 48" "r - 48"] by (simp add: add.assoc)
  finally show ?thesis unfolding parts_upt r_def rp_def .
qed

section \<open>What is handed out\<close>

lemma trim_output_eq:
  assumes p: "p = piece_of s \<lparr>hbuf = Some mem, hstart = 0, hend = L\<rparr>" "take L mem = fslice F s L" "s + L \<le> length F"
    and t: "trim_output m p = (piece, m')"
  shows "m' = m\<lparr>resumewastedbytes := resumewastedbytes m - L\<rparr>"
    "ppos piece = min (s + L) (s + resumewastedbytes m)" "datalen (pbuf piece) = min (s + L) (deliverlimitpos m) - ppos piece"
    "file_piece F piece"
proof -
  define w D where "w = resumewastedbytes m" and "D = deliverlimitpos m"
  define n where "n = min L w"
  have t': "m' = m\<lparr>resumewastedbytes := w - n\<rparr>" "ppos piece = s + n" "hbuf (pbuf piece) = Some mem" "hstart (pbuf piece) = n"
    "hend (pbuf piece) = (if s + L > D then L - min (s + L - D) (L - n) else L)"
    using t by (auto simp: trim_output_def p(1) piece_of_def datalen_def Let_def w_def [symmetric] D_def [symmetric] n_def)
  have "w - n = w - L" "s + n = min (s + L) (s + w)" by (auto simp: n_def)
  then show "m' = m\<lparr>resumewastedbytes := resumewastedbytes m - L\<rparr>" "ppos piece = min (s + L) (s + resumewastedbytes m)"
    using t'(1,2) by (simp_all add: w_def)
  have nL: "n \<le> L" by (simp add: n_def)
  have len: "datalen (pbuf piece) = min (s + L) D - (s + n)"
    unfolding datalen_def t'(4,5) using nL by (cases "s + L > D"; cases "s + L - D \<le> L - n") simp_all
  then have le: "datalen (pbuf piece) \<le> L - n" by simp
  show "datalen (pbuf piece) = min (s + L) (deliverlimitpos m) - ppos piece" using t'(2) len by (simp add: D_def)
  have "take (datalen (pbuf piece)) (drop n mem) = take (datalen (pbuf piece)) (drop n (take L mem))"
    unfolding drop_take using le by (simp add: min_absorb1)
  also have "\<dots> = fslice F (s + n) (datalen (pbuf piece))" unfolding p(2) drop_fslice take_fslice using le by (simp add: min_absorb1)
  finally have "take (datalen (pbuf piece)) (datastart (pbuf piece)) = fslice F (ppos piece) (datalen (pbuf piece))"
    using t' by (simp add: datastart_def)
  moreover have "hstart (pbuf piece) \<le> hend (pbuf piece)" 
  proof -
    have "n \<le> L - min (s + L - D) (L - n)" using nL by linarith
    then show ?thesis unfolding t'(4,5) using nL by simp
  qed
  ultimately show "file_piece F piece" using t'(2,3) p(3) le nL by (simp add: file_piece_def isNull_def)
qed

text \<open>
  Between the ends of chunks: output stops at a chunk, begins at one, or at the line of the resumption, until less than a line is left.
\<close>

fun chunk_aligned :: "kind \<Rightarrow> raid_manager \<Rightarrow> bool" where
  "chunk_aligned (DirectReadBuffer c) m \<longleftrightarrow> True"
| "chunk_aligned TransferBuffer m \<longleftrightarrow>
    chunkfloor (int (outputfilepos m)) = int (outputfilepos m) \<or>
    datalen (pbuf (leftoverchunk m)) = 0 \<and> chunkfloor (int (startfilepos m)) = int (startfilepos m) \<and>
      outputfilepos m \<le> startfilepos m \<and> startfilepos m < outputfilepos m + 80 \<or>
    acquirelimitpos m < raidpartspos m * 5 + 80"

definition raid_inv :: "bytes \<Rightarrow> kind \<Rightarrow> raid_manager \<Rightarrow> bool" where
  "raid_inv F kind m \<longleftrightarrow> queues_ok F m \<and> limits_ok F m \<and> left_ok F m \<and> chunk_aligned kind m"

lemma chunkfloor_above: "0 \<le> b \<Longrightarrow> chunkfloor b = b \<Longrightarrow> b \<le> p \<Longrightarrow> b \<le> chunkfloor p"
  using chunk_bounds(2,3) [of p] chunk_bounds(7) [of p b] by force

lemma macchunkpos_bounds:
  assumes i: "raid_inv F kind m" and p: "0 < partslen_of m"
  defines "e \<equiv> newdatafilepos m + partslen_of m * 5"
  shows "outputfilepos m \<le> calcOutputChunkPos kind e" "calcOutputChunkPos kind e \<le> e"
    "kind = TransferBuffer \<Longrightarrow> chunkfloor (int (calcOutputChunkPos kind e)) = int (calcOutputChunkPos kind e)"
proof -
  have n: "newdatafilepos m = raidpartspos m * 5" using i by (simp add: raid_inv_def left_ok_def)
  have p16: "16 \<le> partslen_of m" using p partslen_sectors(1) [of m] by (auto elim!: dvdE)
  have e: "raidpartspos m * 5 + 80 \<le> e" "e \<le> acquirelimitpos m" "outputfilepos m \<le> e"
    using p16 n i after_lines_ok(2) [of F m] by (simp_all add: e_def raid_inv_def limits_ok_def newdatafilepos_def)
  show "calcOutputChunkPos kind e \<le> e" using chunk_bounds(2) [of "int e"] by (cases kind) simp_all
  show "kind = TransferBuffer \<Longrightarrow> chunkfloor (int (calcOutputChunkPos kind e)) = int (calcOutputChunkPos kind e)"
    using chunk_bounds(1,5) [of "int e"] by simp
  show "outputfilepos m \<le> calcOutputChunkPos kind e"
  proof (cases kind)
    case TransferBuffer
    then consider "chunkfloor (int (outputfilepos m)) = int (outputfilepos m)"
      | "newdatafilepos m = outputfilepos m" "chunkfloor (int (startfilepos m)) = int (startfilepos m)"
        "outputfilepos m \<le> startfilepos m" "startfilepos m < outputfilepos m + 80"
      using i e by (auto simp: raid_inv_def newdatafilepos_def)
    then have "int (outputfilepos m) \<le> chunkfloor (int e)"
    proof cases
      case 1
      then show ?thesis using chunkfloor_above [of "int (outputfilepos m)" "int e"] e(3) by simp
    next
      case 2
      then have "startfilepos m \<le> e" using e(1) n by simp
      then show ?thesis using chunkfloor_above [of "int (startfilepos m)" "int e"] 2 by simp
    qed
    then show ?thesis using TransferBuffer by simp
  qed (use e in simp)
qed

text \<open>The combined piece before it is trimmed: the file from the position of the output to the next one.\<close>

definition output_end :: "raid_manager \<Rightarrow> raid_manager \<Rightarrow> nat" where
  "output_end m m' = (if processToEnd m then acquirelimitpos m else outputfilepos m')"

lemma at_ends_after:
  assumes "queues_ok F m" "at_ends m"
  shows "at_ends (after_lines (partslen_of m) m)"
  unfolding at_ends_def
proof (intro allI impI)
  fix j assume j: "j < RAIDPARTS"
  let ?q = "raidinputparts m ! j" let ?p = "partslen_of m"
  have e: "raidpartspos m + front_len ?q = raidPartSize j (acquirelimitpos m)" using assms(2) j by (simp add: at_ends_def)
  have "length ?q \<le> 1" using at_ends_single [OF queues_okD(1) [OF assms(1) j] e] by auto
  then have "front_len (roll_queue ?p ?q) = front_len ?q - ?p" using roll_front partslen_front(1) [OF j] by blast
  then show "raidpartspos (after_lines ?p m) + front_len (raidinputparts (after_lines ?p m) ! j) = raidPartSize j (acquirelimitpos (after_lines ?p m))"
    using e partslen_front(1) [OF j, of m] assms(1) j by (simp add: queues_ok_def)
qed

lemma rolled_last:
  assumes "queues_ok F m" "at_ends m" "raidpartspos m = acquirelimitpos m div 80 * 16"
  shows "queues_ok F (rollInputBuffers RAIDSECTOR m)"
proof -
  have "roll_queue 16 (raidinputparts m ! j) = []" if j: "j < RAIDPARTS" for j
  proof -
    let ?q = "raidinputparts m ! j"
    have e: "raidpartspos m + front_len ?q = raidPartSize j (acquirelimitpos m)" using assms(2) j by (simp add: at_ends_def)
    then have "front_len ?q \<le> 16" using assms(3) by (simp add: raidPartSize_eq)
    then show ?thesis using at_ends_single [OF queues_okD(1) [OF assms(1) j] e] by (auto simp: roll_queue_def front_len_def datalen_def)
  qed
  then show ?thesis using assms(1) by (simp add: queues_ok_def rollInputBuffers_def RAIDSECTOR_def)
qed

lemma finish_at_end:
  assumes i: "raid_inv F kind m" and e: "processToEnd m"
    and r: "outputrec = piece_of (outputfilepos m) \<lparr>hbuf = Some mem, hstart = 0, hend = sumdatalen_of m + n\<rparr>"
      "n = datalen (pbuf (leftoverchunk m))" "length mem = sumdatalen_of m + n + 16"
      "take (n + partslen_of m * 5) mem = fslice F (outputfilepos m) (n + partslen_of m * 5)"
    and f: "finish_output mac True (sumdatalen_of m - partslen_of m * 5) (partslen_of m * 5 + n) outputrec (after_lines (partslen_of m) m) = (outputrec', m')"
  shows "\<exists>mem'. outputrec' = piece_of (outputfilepos m) \<lparr>hbuf = Some mem', hstart = 0, hend = acquirelimitpos m - outputfilepos m\<rparr>
    \<and> take (acquirelimitpos m - outputfilepos m) mem' = fslice F (outputfilepos m) (acquirelimitpos m - outputfilepos m)"
    "outputfilepos m + (acquirelimitpos m - outputfilepos m) = acquirelimitpos m" "raid_inv F kind m'"
proof -
  let ?A = "acquirelimitpos m" let ?p = "partslen_of m" let ?m = "after_lines ?p m"
  have i': "queues_ok F m" "limits_ok F m" "left_ok F m" using i by (simp_all add: raid_inv_def)
  have ends: "at_ends m" using e processToEnd_at_ends [OF i'] by simp
  have pos: "raidpartspos m + ?p = ?A div 80 * 16" by (rule partslen_at_ends [OF i'(1,2) ends])
  have new: "outputfilepos m + n = raidpartspos m * 5" using i'(3) by (simp add: left_ok_def newdatafilepos_def r(2))
  have sum: "raidpartspos m * 5 + sumdatalen_of m = ?A" using e i'(3) by (simp add: processToEnd_def left_ok_def)
  then have len: "sumdatalen_of m + n = ?A - outputfilepos m" "outputfilepos m \<le> ?A" using new by linarith+
  then show "outputfilepos m + (?A - outputfilepos m) = ?A" by simp
  define r where "r = ?A mod 80"
  have r80: "r < 80" by (simp add: r_def)
  have A: "?A = (raidpartspos m + ?p) * 5 + r" using div_mult_mod_eq [of ?A 80] pos by (simp add: r_def)
  then have rest: "sumdatalen_of m - ?p * 5 = r" "?p * 5 + r = sumdatalen_of m" using sum by (simp_all add: algebra_simps)
  note after = after_lines_ok [OF i']
  have "?A < (raidpartspos m + ?p) * 5 + 80" using A r80 by linarith
  then have al: "chunk_aligned kind m''" if "raidpartspos m'' = raidpartspos m + ?p" "acquirelimitpos m'' = ?A" for m''
    using that by (cases kind) simp_all
  have "(\<exists>mem'. outputrec' = piece_of (outputfilepos m) \<lparr>hbuf = Some mem', hstart = 0, hend = ?A - outputfilepos m\<rparr>
    \<and> take (?A - outputfilepos m) mem' = fslice F (outputfilepos m) (?A - outputfilepos m)) \<and> raid_inv F kind m'"
  proof (cases "r = 0")
    case True
    then have "outputrec' = outputrec" "m' = ?m" using f rest(1) by (simp_all add: finish_output_def)
    moreover have "n + ?p * 5 = ?A - outputfilepos m" using rest(2) True len(1) by simp
    ultimately show ?thesis using r len(1) after al [of ?m] by (auto simp: raid_inv_def)
  next
    case False
    then have F: "?A = length F" using i'(2) by (auto simp: limits_ok_def r_def)
    have ends': "at_ends ?m" by (rule at_ends_after [OF i'(1) ends])
    let ?last = "combineLastRaidLine ?m r [1..<RAIDPARTS]"
    have out: "outputrec' = buf_write (?p * 5 + n) ?last outputrec" "m' = rollInputBuffers RAIDSECTOR ?m"
      using f rest(1) False by (simp_all add: finish_output_def)
    have l: "?last = fslice F ((raidpartspos m + ?p) * 5) r" unfolding r_def F
      using last_line [OF after(1) ends'] pos F by simp
    have ll: "length ?last = r" unfolding l by (rule length_fslice) (use A F in simp)
    let ?mem = "write_at (?p * 5 + n) ?last mem"
    have "outputrec' = piece_of (outputfilepos m) \<lparr>hbuf = Some ?mem, hstart = 0, hend = ?A - outputfilepos m\<rparr>"
      by (simp add: out(1) r(1) buf_write_def piece_of_def len(1) [symmetric])
    moreover have "take (?A - outputfilepos m) ?mem = take (n + ?p * 5) mem @ ?last"
      unfolding len(1) [symmetric] rest(2) [symmetric] using r(3) rest(2) ll by (simp add: write_at_def add.commute)
    moreover have "take (n + ?p * 5) mem @ ?last = fslice F (outputfilepos m) (?A - outputfilepos m)"
    proof -
      have a: "(raidpartspos m + ?p) * 5 = outputfilepos m + (n + ?p * 5)" "n + ?p * 5 + r = ?A - outputfilepos m"
        using new len(1) rest(2) by simp_all
      show ?thesis unfolding r(4) l a(1) fslice_append a(2) ..
    qed
    moreover have "raid_inv F kind m'"
      unfolding raid_inv_def out(2) using rolled_last [OF after(1) ends'] pos after(2,3) al [of "rollInputBuffers RAIDSECTOR ?m"]
      by (simp add: limits_ok_def left_ok_def newdatafilepos_def rollInputBuffers_def)
    ultimately show ?thesis by metis
  qed
  then show "\<exists>mem'. outputrec' = piece_of (outputfilepos m) \<lparr>hbuf = Some mem', hstart = 0, hend = ?A - outputfilepos m\<rparr>
    \<and> take (?A - outputfilepos m) mem' = fslice F (outputfilepos m) (?A - outputfilepos m)" "raid_inv F kind m'" by simp_all
qed

lemma written_piece:
  assumes "length b = x" "b = fslice F a x" "a + x \<le> length F"
  shows "datalen (pbuf (buf_write 0 b (new_piece a x))) = x" "ppos (buf_write 0 b (new_piece a x)) = a" "file_piece F (buf_write 0 b (new_piece a x))"
proof -
  have "take x (write_at 0 b (replicate (x + k) 0)) = b" for k using assms(1) by (simp add: write_at_def)
  then show "datalen (pbuf (buf_write 0 b (new_piece a x))) = x" "ppos (buf_write 0 b (new_piece a x)) = a" "file_piece F (buf_write 0 b (new_piece a x))"
    using assms(2,3) by (simp_all add: buf_write_def new_piece_def piece_of_def datalen_def file_piece_def isNull_def datastart_def)
qed

lemma finish_before_end:
  assumes i: "raid_inv F kind m" and e: "\<not> processToEnd m" "0 < partslen_of m"
    and r: "outputrec = piece_of (outputfilepos m) \<lparr>hbuf = Some mem, hstart = 0, hend = partslen_of m * 5 + n\<rparr>"
      "n = datalen (pbuf (leftoverchunk m))" "length mem = partslen_of m * 5 + n + 16"
      "take (n + partslen_of m * 5) mem = fslice F (outputfilepos m) (n + partslen_of m * 5)"
      "outputfilepos m + n + partslen_of m * 5 \<le> length F"
    and mac: "mac = calcOutputChunkPos kind (newdatafilepos m + partslen_of m * 5)"
    and f: "finish_output mac False rest dest outputrec (after_lines (partslen_of m) m) = (outputrec', m')"
  shows "outputrec' = piece_of (outputfilepos m) \<lparr>hbuf = Some mem, hstart = 0, hend = mac - outputfilepos m\<rparr>"
    "take (mac - outputfilepos m) mem = fslice F (outputfilepos m) (mac - outputfilepos m)" "outputfilepos m \<le> mac" "mac \<le> length F"
    "outputfilepos m' = mac" "raid_inv F kind m'"
proof -
  let ?p = "partslen_of m" let ?m = "after_lines ?p m" let ?s = "outputfilepos m"
  have i': "queues_ok F m" "limits_ok F m" "left_ok F m" using i by (simp_all add: raid_inv_def)
  note after = after_lines_ok [OF i']
  define e where "e = newdatafilepos m + ?p * 5"
  have en: "e = ?s + (n + ?p * 5)" by (simp add: e_def newdatafilepos_def r(2))
  have b: "?s \<le> mac" "mac \<le> e" "kind = TransferBuffer \<Longrightarrow> chunkfloor (int mac) = int mac"
    using macchunkpos_bounds [OF i assms(3)] unfolding mac e_def by simp_all
  show "?s \<le> mac" "mac \<le> length F" using b(1,2) en r(5) by simp_all
  have "take (mac - ?s) mem = take (mac - ?s) (take (n + ?p * 5) mem)" using b(2) en by (simp add: min_absorb1)
  then show piece: "take (mac - ?s) mem = fslice F ?s (mac - ?s)"
    unfolding r(4) take_fslice using b(2) en by (simp add: min_absorb1)
  have out: "outputfilepos ?m = e" by (simp add: e_def)
  have al: "chunk_aligned kind m''" if "outputfilepos m'' = mac" for m'' using b(3) that by (cases kind) simp_all
  have "outputrec' = piece_of ?s \<lparr>hbuf = Some mem, hstart = 0, hend = mac - ?s\<rparr> \<and> outputfilepos m' = mac \<and> raid_inv F kind m'"
  proof (cases "mac = e")
    case True
    then have "outputrec' = outputrec" "m' = ?m" using f out by (simp_all add: finish_output_def)
    moreover have "e - ?s = ?p * 5 + n" using en by simp
    ultimately show ?thesis using True r(1) out after al [of ?m] by (simp add: raid_inv_def)
  next
    case False
    then have less: "mac < e" using b(2) by simp
    define x where "x = e - mac"
    have x: "?p * 5 + n - x = mac - ?s" "e - x = mac" "0 < x" "x \<le> ?p * 5 + n" using less b(1) en by (simp_all add: x_def)
    let ?left = "take x (drop (?p * 5 + n - x) mem)"
    have left: "?left = fslice F mac x"
    proof -
      have a: "n + ?p * 5 - (mac - ?s) = x" "?s + (mac - ?s) = mac" using b(1) en less by (simp_all add: x_def)
      have "?left = drop (mac - ?s) (take (n + ?p * 5) mem)" unfolding drop_take x(1) a(1) ..
      then show ?thesis unfolding r(4) drop_fslice a .
    qed
    have f': "outputrec' = outputrec\<lparr>pbuf := (pbuf outputrec)\<lparr>hend := ?p * 5 + n - x\<rparr>\<rparr>"
      "m' = ?m\<lparr>leftoverchunk := buf_write 0 ?left (new_piece mac x), outputfilepos := mac\<rparr>"
      using f less out x(2) by (auto simp: finish_output_def Let_def r(1) piece_of_def datalen_def datastart_def x_def [symmetric])
    have ll: "length ?left = x" unfolding left by (rule length_fslice) (use x en r(5) less in \<open>simp add: x_def\<close>)
    have mx: "mac + x \<le> length F" using en r(5) less by (simp add: x_def)
    have lp: "datalen (pbuf (leftoverchunk m')) = x" "ppos (leftoverchunk m') = mac" "file_piece F (leftoverchunk m')"
      using written_piece [OF ll left] mx by (simp_all add: f'(2))
    have "queues_ok F m'" "limits_ok F m'" using after(1,2) by (auto simp: queues_ok_def limits_ok_def f'(2))
    moreover have "newdatafilepos m' = raidpartspos m' * 5"
      using lp(1) less i'(3) unfolding newdatafilepos_def [of m'] by (simp add: f'(2) x_def e_def left_ok_def)
    ultimately have "raid_inv F kind m'"
      unfolding raid_inv_def left_ok_def using al [of m'] lp by (simp add: f'(2))
    then show ?thesis using f' x(1) by (simp add: r(1) piece_of_def)
  qed
  then show "outputrec' = piece_of ?s \<lparr>hbuf = Some mem, hstart = 0, hend = mac - ?s\<rparr>" "outputfilepos m' = mac" "raid_inv F kind m'" by simp_all
qed

text \<open>
  One combination: the invariant is kept, and what is handed out is the file between the position of the output and its new one, or the limit at
  the end, less what was there before and what lies beyond the limit.
\<close>

lemma combine_output_ok:
  assumes i: "raid_inv F kind m" and c: "partslen_of m > 0 \<or> processToEnd m" and o: "combine_output kind m = (piece, m')"
  shows "raid_inv F kind m'" "file_piece F piece" "outputfilepos m \<le> output_end m m'" "output_end m m' \<le> length F"
    "ppos piece = min (output_end m m') (outputfilepos m + resumewastedbytes m)"
    "datalen (pbuf piece) = min (output_end m m') (deliverlimitpos m) - ppos piece"
    "resumewastedbytes m' = resumewastedbytes m - (output_end m m' - outputfilepos m)"
    "asyncoutputbuffers m' = asyncoutputbuffers m" "startfilepos m' = startfilepos m"
    "deliverlimitpos m' = deliverlimitpos m" "acquirelimitpos m' = acquirelimitpos m" "raidpartspos m' = raidpartspos m + partslen_of m"
proof -
  let ?p = "partslen_of m" let ?n = "datalen (pbuf (leftoverchunk m))"
  let ?b = "if processToEnd m then sumdatalen_of m else ?p * 5"
  let ?mac = "calcOutputChunkPos kind (newdatafilepos m + ?p * 5)"
  have i': "queues_ok F m" "limits_ok F m" "left_ok F m" using i by (simp_all add: raid_inv_def)
  have b: "?p * 5 \<le> ?b"
  proof (cases "processToEnd m")
    case True
    have "raidpartspos m * 5 + sumdatalen_of m = acquirelimitpos m" using True i'(3) by (simp add: processToEnd_def left_ok_def)
    moreover have "(raidpartspos m + ?p) * 5 \<le> acquirelimitpos m" using after_lines_ok(2) [OF i'] by (simp add: limits_ok_def)
    ultimately show ?thesis using True by simp
  qed simp
  obtain mem where r: "combine_pieces ?p ?b (outputfilepos m) (leftoverchunk m) m = piece_of (outputfilepos m) \<lparr>hbuf = Some mem, hstart = 0, hend = ?b + ?n\<rparr>"
    "length mem = ?b + ?n + 16" "take (?n + ?p * 5) mem = fslice F (outputfilepos m) (?n + ?p * 5)" "outputfilepos m + ?n + ?p * 5 \<le> length F"
    using combine_pieces_eq [OF i' b] by blast
  obtain rec1 m1 where f: "finish_output ?mac (processToEnd m) (sumdatalen_of m - ?p * 5) (?p * 5 + ?n)
      (piece_of (outputfilepos m) \<lparr>hbuf = Some mem, hstart = 0, hend = ?b + ?n\<rparr>) (after_lines ?p m) = (rec1, m1)" by fastforce
  have t: "trim_output m1 rec1 = (piece, m')" using o unfolding combine_output_def Let_def EFFECTIVE_RAIDPARTS_def r(1) f by simp
  have same: "asyncoutputbuffers m1 = asyncoutputbuffers m" "startfilepos m1 = startfilepos m" "resumewastedbytes m1 = resumewastedbytes m"
    "deliverlimitpos m1 = deliverlimitpos m" "acquirelimitpos m1 = acquirelimitpos m" "raidpartspos m1 = raidpartspos m + ?p"
    using f by (auto simp: finish_output_def Let_def rollInputBuffers_def split: if_splits)
  have "\<exists>mem' L. rec1 = piece_of (outputfilepos m) \<lparr>hbuf = Some mem', hstart = 0, hend = L\<rparr> \<and> take L mem' = fslice F (outputfilepos m) L
      \<and> outputfilepos m + L \<le> length F \<and> raid_inv F kind m1 \<and> outputfilepos m + L = output_end m m1"
  proof (cases "processToEnd m")
    case True
    note e = finish_at_end [OF i True refl refl, of mem ?mac rec1 m1]
    have "acquirelimitpos m \<le> length F" using i'(2) by (simp add: limits_ok_def)
    moreover have "\<exists>mem'. rec1 = piece_of (outputfilepos m) \<lparr>hbuf = Some mem', hstart = 0, hend = acquirelimitpos m - outputfilepos m\<rparr>
        \<and> take (acquirelimitpos m - outputfilepos m) mem' = fslice F (outputfilepos m) (acquirelimitpos m - outputfilepos m)"
      and "outputfilepos m + (acquirelimitpos m - outputfilepos m) = acquirelimitpos m" "raid_inv F kind m1" using e f r True by simp_all
    moreover have "output_end m m1 = acquirelimitpos m" using True by (simp add: output_end_def)
    ultimately show ?thesis by metis
  next
    case False
    have "0 < ?p" using c False by simp
    note e = finish_before_end [OF i False this refl refl, of mem ?mac "sumdatalen_of m - ?p * 5" "?p * 5 + ?n" rec1 m1]
    then show ?thesis using f r False by (intro exI [of _ mem] exI [of _ "?mac - outputfilepos m"]) (simp add: output_end_def)
  qed
  then obtain mem' L where L: "rec1 = piece_of (outputfilepos m) \<lparr>hbuf = Some mem', hstart = 0, hend = L\<rparr>" "take L mem' = fslice F (outputfilepos m) L"
    "outputfilepos m + L \<le> length F" "raid_inv F kind m1" "outputfilepos m + L = output_end m m1" by blast
  note tr = trim_output_eq [OF L(1-3) t]
  have oe: "output_end m m' = outputfilepos m + L" using L(5) by (simp add: output_end_def tr(1))
  show "raid_inv F kind m'" using L(4) unfolding tr(1) raid_inv_def
    by (cases kind) (simp_all add: queues_ok_def limits_ok_def left_ok_def newdatafilepos_def)
  show "file_piece F piece" by (rule tr(4))
  show "outputfilepos m \<le> output_end m m'" "output_end m m' \<le> length F" using oe L(3) by simp_all
  show "ppos piece = min (output_end m m') (outputfilepos m + resumewastedbytes m)" "datalen (pbuf piece) = min (output_end m m') (deliverlimitpos m) - ppos piece"
    using tr(2,3) same oe by simp_all
  show "resumewastedbytes m' = resumewastedbytes m - (output_end m m' - outputfilepos m)" using tr(1) same oe by simp
  show "asyncoutputbuffers m' = asyncoutputbuffers m" "startfilepos m' = startfilepos m" "deliverlimitpos m' = deliverlimitpos m"
    "acquirelimitpos m' = acquirelimitpos m" "raidpartspos m' = raidpartspos m + ?p" using tr(1) same by simp_all
qed

section \<open>Every operation keeps the invariant\<close>

lemma raid_inv_cong:
  assumes "raid_inv F kind m" "is_raid m' = is_raid m" "fullfilesize m' = fullfilesize m" "deliverlimitpos m' = deliverlimitpos m"
    "acquirelimitpos m' = acquirelimitpos m" "raidpartspos m' = raidpartspos m" "raidLinesPerChunk m' = raidLinesPerChunk m"
    "outputfilepos m' = outputfilepos m" "leftoverchunk m' = leftoverchunk m" "startfilepos m' = startfilepos m" "queues_ok F m'"
  shows "raid_inv F kind m'"
  using assms by (cases kind) (simp_all add: raid_inv_def limits_ok_def left_ok_def newdatafilepos_def)

lemma raid_inv_same:
  assumes "raid_inv F kind m" "is_raid m' = is_raid m" "fullfilesize m' = fullfilesize m" "deliverlimitpos m' = deliverlimitpos m"
    "acquirelimitpos m' = acquirelimitpos m" "raidpartspos m' = raidpartspos m" "raidLinesPerChunk m' = raidLinesPerChunk m"
    "outputfilepos m' = outputfilepos m" "leftoverchunk m' = leftoverchunk m" "startfilepos m' = startfilepos m"
    "raidinputparts m' = raidinputparts m" "unusedRaidConnection m' = unusedRaidConnection m"
  shows "raid_inv F kind m'"
  by (rule raid_inv_cong [OF assms(1-10)]) (use assms in \<open>simp add: raid_inv_def queues_ok_def\<close>)

lemma pieces_ok_append:
  "pieces_ok F A j rp q \<Longrightarrow> piece_ok F A j (if q = [] then rp else ppos (last q) + datalen (pbuf (last q))) p \<Longrightarrow> pieces_ok F A j rp (q @ [p])"
proof (induction q arbitrary: rp)
  case (Cons a q)
  then show ?case by (cases q) (auto simp: piece_ok_def)
qed simp

text \<open>What the servers send: a piece of the part, that ends at a sector or with the part.\<close>

definition sent_piece :: "bytes \<Rightarrow> raid_manager \<Rightarrow> nat \<Rightarrow> FilePiece \<Rightarrow> bool" where
  "sent_piece F m c p \<longleftrightarrow> c < RAIDPARTS \<and> piece_ok F (acquirelimitpos m) c (ppos p) p \<and> (c \<noteq> unusedRaidConnection m \<longrightarrow> \<not> isNull (pbuf p))"

lemma submitBuffer_inv:
  assumes i: "raid_inv F kind m" and p: "sent_piece F m c p"
  shows "raid_inv F kind (submitBuffer kind c p m)"
proof -
  let ?m = "if \<not> isNull (pbuf p) then m\<lparr>raidHttpGetErrorCount := (raidHttpGetErrorCount m)[c := 0]\<rparr> else m"
  have r: "is_raid m" using i by (simp add: raid_inv_def limits_ok_def)
  have i1: "raid_inv F kind ?m" using i by (cases "isNull (pbuf p)") (auto intro: raid_inv_same)
  show ?thesis
  proof (cases "ppos p = contiguouspos c ?m")
    case True
    let ?q = "raidinputparts m ! c"
    let ?m' = "(set_transferPos c (ppos p + datalen (pbuf p)) ?m)\<lparr>raidinputparts := (raidinputparts m)[c := ?q @ [p]]\<rparr>"
    have e: "submitBuffer kind c p m = ?m'" using True r by (simp add: submitBuffer_def Let_def)
    have pos: "ppos p = contiguouspos c m" unfolding True by (simp add: contiguouspos_def Let_def)
    have c: "c < RAIDPARTS" "length (raidinputparts m) = RAIDPARTS" using p i by (auto simp: sent_piece_def raid_inv_def queues_ok_def)
    have "pieces_ok F (acquirelimitpos m) c (raidpartspos m) (?q @ [p])"
      by (rule pieces_ok_append) (use i p c pos in \<open>auto simp: raid_inv_def queues_ok_def sent_piece_def contiguouspos_def Let_def\<close>)
    then have "queues_ok F ?m'" using i p c r
      by (auto simp: raid_inv_def queues_ok_def set_transferPos_def sent_piece_def nth_list_update)
    then show ?thesis unfolding e by (intro raid_inv_cong [OF i1]) (use r in \<open>simp_all add: set_transferPos_def\<close>)
  next
    case False
    then have "submitBuffer kind c p m = ?m" using r by (simp add: submitBuffer_def Let_def)
    then show ?thesis using i1 by simp
  qed
qed

text \<open>Requests end at sectors or with the part, and stay small.\<close>

lemma request_end_props:
  fixes avoid :: bool
  assumes "lines \<le> 256 * 1024" "curpos \<le> maxpos"
  defines "npos \<equiv> request_end avoid lines curpos maxpos"
  shows "npos \<le> maxpos" "16 dvd npos - curpos \<or> npos = maxpos" "npos - curpos < 0x10000000" "curpos \<le> npos"
proof -
  define h where "h = (maxpos - curpos) div 2 div 16 * 16"
  have "h \<le> (maxpos - curpos) div 2" unfolding h_def by (rule div_times_less_eq_dividend)
  also have "\<dots> \<le> maxpos - curpos" by (rule div_le_dividend)
  finally have h: "h \<le> maxpos - curpos" "16 dvd h" by (simp_all add: h_def)
  define e where "e = min (curpos + lines * 16 * 5) maxpos"
  have e: "curpos \<le> e" "e \<le> maxpos" "e - curpos \<le> lines * 16 * 5" "16 dvd e - curpos \<or> e = maxpos" using assms(2) by (auto simp: e_def min_def)
  have n: "npos = (if avoid \<and> (if e < maxpos then maxpos - e else 0) \<noteq> 0 \<and> (if e < maxpos then maxpos - e else 0) < MIN_LAST_CHUNK
      then if maxpos - curpos \<ge> MAX_LAST_CHUNK then curpos + h else maxpos else e)"
    unfolding npos_def request_end_def h_def Let_def RAIDSECTOR_def e_def ..
  have "npos = e \<or> maxpos - e < MIN_LAST_CHUNK \<and> (npos = curpos + h \<or> npos = maxpos)" unfolding n by simp
  then consider "npos = e" | "maxpos - e < MIN_LAST_CHUNK" "npos = curpos + h \<or> npos = maxpos" by blast
  then have "npos \<le> maxpos \<and> (16 dvd npos - curpos \<or> npos = maxpos) \<and> npos - curpos < 0x10000000 \<and> curpos \<le> npos"
  proof cases
    case 1
    have "e - curpos < 0x10000000" using e(3) assms(1) by linarith
    then show ?thesis using 1 e by simp
  next
    case 2
    have "npos \<le> maxpos" "curpos \<le> npos" using 2(2) h(1) assms(2) by linarith+
    moreover have "16 dvd npos - curpos \<or> npos = maxpos" using 2(2) h(2) by auto
    moreover have "maxpos - curpos < 0x10000000" using 2(1) e assms(1) unfolding MIN_LAST_CHUNK_def by linarith
    ultimately show ?thesis by (simp add: le_less_trans [OF diff_le_mono])
  qed
  then show "npos \<le> maxpos" "16 dvd npos - curpos \<or> npos = maxpos" "npos - curpos < 0x10000000" "curpos \<le> npos" by blast+
qed

lemma contiguous_sector:
  assumes "pieces_ok F A j rp q" "16 dvd rp"
  shows "16 dvd (if q = [] then rp else ppos (last q) + datalen (pbuf (last q))) \<or> (if q = [] then rp else ppos (last q) + datalen (pbuf (last q))) = raidPartSize j A"
  using assms
proof (induction q arbitrary: rp)
  case (Cons p q)
  then show ?case
  proof (cases "q = []")
    case True
    then show ?thesis using Cons.prems by (auto simp: piece_ok_def)
  next
    case False
    then have "16 dvd datalen (pbuf p)" using Cons.prems by (cases q) (auto simp: piece_ok_def)
    then show ?thesis using Cons.IH [of "rp + datalen (pbuf p)"] Cons.prems False by simp
  qed
qed simp

lemma contiguous_le:
  assumes "pieces_ok F A j rp q" "rp \<le> raidPartSize j A"
  shows "(if q = [] then rp else ppos (last q) + datalen (pbuf (last q))) \<le> raidPartSize j A"
  using assms
proof (induction q arbitrary: rp)
  case (Cons p q)
  have "pieces_ok F A j (rp + datalen (pbuf p)) q" "rp + datalen (pbuf p) \<le> raidPartSize j A" "ppos p = rp"
    using Cons.prems by (auto simp: piece_ok_def)
  then show ?case using Cons.IH [of "rp + datalen (pbuf p)"] by auto
qed simp

lemma nextNPosForConnection_inv:
  assumes i: "raid_inv F kind m" and c: "c < RAIDPARTS" and n: "nextNPosForConnection kind c m = (rng, supplied, paused, m')"
  shows "raid_inv F kind m'"
proof -
  have r: "is_raid m" "raidLinesPerChunk m \<le> 256 * 1024" using i by (simp_all add: raid_inv_def limits_ok_def)
  let ?m1 = "m\<lparr>connectionPaused := (connectionPaused m)[c := False]\<rparr>"
  let ?cur = "transferPos c m" let ?max = "raidPartSize c (acquirelimitpos m)"
  let ?n = "request_end (\<not> mDisableAvoidSmallLastRequest m) (raidLinesPerChunk m) ?cur ?max"
  let ?p = "piece_of ?cur \<lparr>hbuf = None, hstart = 0, hend = ?n - ?cur\<rparr>"
  have i1: "raid_inv F kind ?m1" by (rule raid_inv_same [OF i]) simp_all
  consider "\<exists>b. m' = m\<lparr>connectionPaused := b\<rparr>" | "unusedRaidConnection m = c" "?n > ?cur" "m' = set_transferPos c ?n (submitBuffer kind c ?p ?m1)"
    using n r(1) by (auto simp: nextNPosForConnection_def Let_def transferSize_def split: if_splits)
  then show ?thesis
  proof cases
    case 1
    then show ?thesis by (auto intro: raid_inv_same [OF i])
  next
    case 2
    have "raid_inv F kind (submitBuffer kind c ?p ?m1)"
    proof (cases "?cur = contiguouspos c ?m1")
      case True
      have q: "pieces_ok F (acquirelimitpos m) c (raidpartspos m) (raidinputparts m ! c)" "16 dvd raidpartspos m" "raidpartspos m \<le> ?max"
        using i c parts_begun [of F m c] by (auto simp: raid_inv_def queues_ok_def limits_ok_def)
      have cur: "?cur \<le> ?max" "16 dvd ?cur \<or> ?cur = ?max"
        using contiguous_le [OF q(1,3)] contiguous_sector [OF q(1,2)] True by (auto simp: contiguouspos_def Let_def)
      note e = request_end_props [OF r(2) cur(1), of "\<not> mDisableAvoidSmallLastRequest m"]
      have "sent_piece F ?m1 c ?p"
        using 2(1,2) c e cur by (auto simp: sent_piece_def piece_ok_def piece_of_def datalen_def isNull_def)
      then show ?thesis by (rule submitBuffer_inv [OF i1])
    next
      case False
      then have "submitBuffer kind c ?p ?m1 = ?m1" using r by (simp add: submitBuffer_def piece_of_def isNull_def Let_def)
      then show ?thesis using i1 by simp
    qed
    then show ?thesis unfolding 2(3) by (rule raid_inv_same) (simp_all add: set_transferPos_def)
  qed
qed

lemma restart_connection_queues: "queues_ok F m \<Longrightarrow> c < RAIDPARTS \<Longrightarrow> queues_ok F (restart_connection c m)"
  by (auto simp: queues_ok_def restart_connection_def nth_list_update)

text \<open>The unused connection may change to one whose queue was cleared, when that of the old one is cleared too.\<close>

lemma switch_unused:
  assumes i: "raid_inv F kind m" and c: "c < RAIDPARTS"
  shows "raid_inv F kind ((restart_connection c (if unusedRaidConnection m < RAIDPARTS then restart_connection (unusedRaidConnection m) m else m))\<lparr>unusedRaidConnection := c\<rparr>)"
proof (rule raid_inv_cong [OF i])
  have q: "queues_ok F m" using i by (simp add: raid_inv_def)
  show "queues_ok F ((restart_connection c (if unusedRaidConnection m < RAIDPARTS then restart_connection (unusedRaidConnection m) m else m))\<lparr>unusedRaidConnection := c\<rparr>)"
    using q c by (auto simp: queues_ok_def restart_connection_def nth_list_update)
qed (simp_all add: restart_connection_def)

lemma error_recovery_inv:
  assumes i: "raid_inv F kind m" and e: "e < RAIDPARTS" and t: "tryRaidHttpGetErrorRecovery now e inc fails m = (ok, m', fails')"
  shows "raid_inv F kind m'"
proof -
  let ?m = "if inc then m\<lparr>raidHttpGetErrorCount := (raidHttpGetErrorCount m)[e := raidHttpGetErrorCount m ! e + 1]\<rparr> else m"
  have i1: "raid_inv F kind ?m" using i by (cases inc) (auto intro: raid_inv_same)
  consider "m' = ?m" | "m' = (restart_connection e (if unusedRaidConnection ?m < RAIDPARTS then restart_connection (unusedRaidConnection ?m) ?m else ?m))\<lparr>unusedRaidConnection := e\<rparr>"
    using t by (auto simp: tryRaidHttpGetErrorRecovery_def Let_def split: if_splits)
  then show ?thesis using i1 switch_unused [OF i1 e] by cases simp_all
qed

lemma setUnused_inv: "raid_inv F kind m \<Longrightarrow> raid_inv F kind (snd (setUnusedRaidConnection c m))"
  using switch_unused [of F kind m c] by (simp add: setUnusedRaidConnection_def Let_def)

lemma detectSlowest_inv: "raid_inv F kind m \<Longrightarrow> raid_inv F kind (snd (snd (detectSlowestRaidConnection c s m)))"
proof -
  assume i: "raid_inv F kind m"
  let ?m = "snd (snd (detectSlowestRaidConnection c s m))"
  have "queues_ok F ?m" using i by (auto simp: raid_inv_def queues_ok_def detectSlowestRaidConnection_def Let_def)
  then show ?thesis by (intro raid_inv_cong [OF i]) (simp_all add: detectSlowestRaidConnection_def Let_def)
qed

section \<open>Runs\<close>

text \<open>What happens to a manager: data arrives, requests are made, output is fetched and written, connections fail, start, or are left unused.\<close>

datatype raid_event = Submitted nat FilePiece | Requested nat | Fetched nat | Written nat bool | Failed m_time_t nat bool
  | Started nat nat | LeftUnused nat | PartReset m_time_t nat | NewUrls "bytes list"

type_synonym raid_world = "raid_manager \<times> faulty \<times> chunkmac_map \<times> nat"

fun raid_do :: "kind \<Rightarrow> raid_event \<Rightarrow> raid_world \<Rightarrow> raid_world" where
  "raid_do kind (Submitted c p) (m, fails, w) = (submitBuffer kind c p m, fails, w)"
| "raid_do kind (Requested c) (m, fails, w) = (snd (snd (snd (nextNPosForConnection kind c m))), fails, w)"
| "raid_do kind (Fetched c) (m, fails, w) = (snd (getAsyncOutputBufferPointer kind c m), fails, w)"
| "raid_do kind (Written c success) (m, fails, w) = (let (m', w') = bufferWriteCompleted kind c success (m, w) in (m', fails, w'))"
| "raid_do kind (Failed now e inc) (m, fails, w) = (let (_, m', fails') = tryRaidHttpGetErrorRecovery now e inc fails m in (m', fails', w))"
| "raid_do kind (Started c s) (m, fails, w) = (snd (snd (detectSlowestRaidConnection c s m)), fails, w)"
| "raid_do kind (LeftUnused c) (m, fails, w) = (snd (setUnusedRaidConnection c m), fails, w)"
| "raid_do kind (PartReset now c) (m, fails, w) = (let (m', fails') = resetPart now c fails m in (m', fails', w))"
| "raid_do kind (NewUrls urls) (m, fails, w) = (updateUrlsAndResetPos urls m, fails, w)"

text \<open>The connections exist and the servers send the parts of the file.\<close>

fun event_ok :: "bytes \<Rightarrow> raid_event \<Rightarrow> raid_manager \<Rightarrow> bool" where
  "event_ok F (Submitted c p) m \<longleftrightarrow> sent_piece F m c p \<and> \<not> isNull (pbuf p)"
| "event_ok F (Requested c) m \<longleftrightarrow> c < RAIDPARTS"
| "event_ok F (Failed now e inc) m \<longleftrightarrow> e < RAIDPARTS"
| "event_ok F _ m \<longleftrightarrow> True"

definition waiting_output :: "nat \<Rightarrow> raid_manager \<Rightarrow> FilePiece option" where
  "waiting_output c m = (case map_find (asyncoutputbuffers m) c of None \<Rightarrow> None | Some p \<Rightarrow> p)"

text \<open>Whether an event combines parts, and the plain piece it makes.\<close>

fun combines :: "raid_event \<Rightarrow> raid_manager \<Rightarrow> bool" where
  "combines (Fetched c) m \<longleftrightarrow> is_raid m \<and> waiting_output c m = None \<and> (partslen_of m > 0 \<or> processToEnd m)"
| "combines ev m \<longleftrightarrow> False"

definition made_by :: "kind \<Rightarrow> raid_event \<Rightarrow> raid_manager \<Rightarrow> FilePiece list" where
  "made_by kind ev m =
    (if combines ev m then let p = fst (combine_output kind m) in if datalen (pbuf p) > 0 then [p] else [] else [])"

text \<open>A run, with the plain pieces made in it, up to the event that combines the end of the range.\<close>

inductive raid_run :: "bytes \<Rightarrow> kind \<Rightarrow> raid_world \<Rightarrow> raid_world \<Rightarrow> FilePiece list \<Rightarrow> bool \<Rightarrow> bool" for F kind w where
  start: "raid_run F kind w w [] False"
| step: "raid_run F kind w w' log False \<Longrightarrow> event_ok F ev (fst w') \<Longrightarrow>
    raid_run F kind w (raid_do kind ev w') (log @ made_by kind ev (fst w')) (combines ev (fst w') \<and> processToEnd (fst w'))"

definition piece_bytes :: "FilePiece \<Rightarrow> bytes" where
  "piece_bytes p = take (datalen (pbuf p)) (datastart (pbuf p))"

text \<open>The events that do not combine leave the output position and the limits alone and add no output.\<close>

definition same_output :: "raid_manager \<Rightarrow> raid_manager \<Rightarrow> bool" where
  "same_output m m' \<longleftrightarrow> outputfilepos m' = outputfilepos m \<and> resumewastedbytes m' = resumewastedbytes m \<and>
    startfilepos m' = startfilepos m \<and> deliverlimitpos m' = deliverlimitpos m \<and>
    (\<forall>c p. (c, Some p) \<in> set (asyncoutputbuffers m') \<longrightarrow> (c, Some p) \<in> set (asyncoutputbuffers m))"

lemma same_output_refl [simp]: "same_output m m"
  by (simp add: same_output_def)

lemma written_same: "same_output m (fst (bufferWriteCompleted kind c ok (m, w)))"
  using set_map_set_subset [of c None "asyncoutputbuffers m"]
  by (cases w) (auto simp: bufferWriteCompleted_def same_output_def Let_def split: option.split)

lemma written_inv: "raid_inv F kind m \<Longrightarrow> raid_inv F kind (fst (bufferWriteCompleted kind c ok (m, w)))"
  by (cases w) (auto simp: bufferWriteCompleted_def Let_def intro: raid_inv_same split: option.split)

lemma submit_same: "is_raid m \<Longrightarrow> same_output m (submitBuffer kind c p m)"
  by (simp add: submitBuffer_def set_transferPos_def same_output_def Let_def)

lemma request_same: "is_raid m \<Longrightarrow> same_output m (snd (snd (snd (nextNPosForConnection kind c m))))"
  by (simp add: nextNPosForConnection_def submitBuffer_def set_transferPos_def same_output_def Let_def)

lemma recovery_same: "same_output m (fst (snd (tryRaidHttpGetErrorRecovery now e inc fails m)))"
  by (simp add: tryRaidHttpGetErrorRecovery_def restart_connection_def same_output_def Let_def)

lemma fetched_uncombined:
  "\<not> combines (Fetched c) m \<Longrightarrow> snd (getAsyncOutputBufferPointer kind c m) = m"
  by (auto simp: getAsyncOutputBufferPointer_def waiting_output_def combineRaidParts_def Let_def split: option.splits)

lemma fetched_combined:
  "combines (Fetched c) m \<Longrightarrow> combine_output kind m = (p, n) \<Longrightarrow> snd (getAsyncOutputBufferPointer kind c m) =
    (if datalen (pbuf p) > 0 then n\<lparr>asyncoutputbuffers := map_set c (Some (finalize kind p)) (asyncoutputbuffers n)\<rparr> else n)"
  by (simp add: getAsyncOutputBufferPointer_def waiting_output_def combineRaidParts_def Let_def)

lemma event_keeps:
  assumes i: "raid_inv F kind m" and e: "event_ok F ev m" and c: "\<not> combines ev m"
  shows "raid_inv F kind (fst (raid_do kind ev (m, fails, w))) \<and> same_output m (fst (raid_do kind ev (m, fails, w)))"
proof -
  have r: "is_raid m" using i by (simp add: raid_inv_def limits_ok_def)
  show ?thesis
  proof (cases ev)
    case (Submitted c p)
    then show ?thesis using e submitBuffer_inv [OF i] submit_same [OF r] by simp
  next
    case (Requested c)
    obtain rng su pa m' where n: "nextNPosForConnection kind c m = (rng, su, pa, m')" by (metis surj_pair)
    then show ?thesis using Requested e nextNPosForConnection_inv [OF i _ n] request_same [OF r, of kind c] by simp
  next
    case (Fetched c)
    then show ?thesis using i assms(3) fetched_uncombined by simp
  next
    case (Written c b)
    obtain m' w' where n: "bufferWriteCompleted kind c b (m, w) = (m', w')" by (metis surj_pair)
    then show ?thesis using Written written_inv [OF i, of c b w] written_same [of m kind c b w] by simp
  next
    case (Failed now e inc)
    obtain ok m' f' where n: "tryRaidHttpGetErrorRecovery now e inc fails m = (ok, m', f')" by (metis surj_pair)
    then show ?thesis using Failed assms(2) error_recovery_inv [OF i _ n] recovery_same [of m now e inc fails] by simp
  next
    case (Started c s)
    then show ?thesis using detectSlowest_inv [OF i] by (simp add: same_output_def detectSlowestRaidConnection_def Let_def)
  next
    case (LeftUnused c)
    then show ?thesis using setUnused_inv [OF i]
      by (simp add: same_output_def setUnusedRaidConnection_def restart_connection_def Let_def)
  next
    case (PartReset now c)
    then show ?thesis using i by (auto simp: resetPart_def set_transferPos_def same_output_def intro: raid_inv_same)
  next
    case (NewUrls urls)
    then show ?thesis using i
      by (auto simp: updateUrlsAndResetPos_def set_transferPos_def same_output_def Let_def intro: raid_inv_same)
  qed
qed

text \<open>Where the next output begins, and what the pieces made so far hold.\<close>

definition output_log :: "bytes \<Rightarrow> nat \<Rightarrow> nat \<Rightarrow> FilePiece list \<Rightarrow> raid_manager \<Rightarrow> bool" where
  "output_log F a z log m \<longleftrightarrow> startfilepos m = a \<and> deliverlimitpos m = z \<and>
    outputfilepos m + resumewastedbytes m = max (outputfilepos m) a \<and>
    concat (map piece_bytes log) = fslice F a (min (outputfilepos m) z - a)"

definition outputs_from :: "kind \<Rightarrow> FilePiece list \<Rightarrow> raid_manager \<Rightarrow> bool" where
  "outputs_from kind log m \<longleftrightarrow> (\<forall>c p. (c, Some p) \<in> set (asyncoutputbuffers m) \<longrightarrow> (\<exists>q \<in> set log. p = finalize kind q))"

lemma fslice_0 [simp]: "fslice F a 0 = []"
  by (simp add: fslice_def)

lemma fslice_next:
  "b \<le> e \<Longrightarrow> fslice F a (min b z - a) @ fslice F (min e (max b a)) (min e z - min e (max b a)) = fslice F a (min e z - a)"
proof -
  assume be: "b \<le> e"
  consider "z \<le> a" | "a < z" "z \<le> b" | "e \<le> a" | "a \<le> b" "b < z" | "b < a" "a < e" "a < z" by linarith
  then show ?thesis
  proof cases
    case 4
    then show ?thesis using be fslice_append [of F a "b - a" "min e z - b"] by (simp add: min_absorb1 min_absorb2 max_absorb1)
  qed (use be in \<open>auto simp: min_def max_def\<close>)
qed

lemma wasted_next: "b \<le> e \<Longrightarrow> b + w = max b a \<Longrightarrow> w' = w - (e - b) \<Longrightarrow> e + w' = max e (a :: nat)"
  by linarith

lemma combine_event:
  assumes i: "raid_inv F kind m" and c: "combines ev m" and l: "output_log F a z log m" and o: "outputs_from kind log m"
    and m': "m' = fst (raid_do kind ev (m, fails, w))"
  shows "raid_inv F kind m'" "outputs_from kind (log @ made_by kind ev m) m'"
    "if processToEnd m then concat (map piece_bytes (log @ made_by kind ev m)) = fslice F a (min (acquirelimitpos m) z - a)
     else output_log F a z (log @ made_by kind ev m) m'"
    "\<forall>p \<in> set (made_by kind ev m). file_piece F p \<and> datalen (pbuf p) > 0"
proof -
  obtain k where ev: "ev = Fetched k" using c by (cases ev) auto
  have r: "partslen_of m > 0 \<or> processToEnd m" using c ev by simp
  obtain p n where co: "combine_output kind m = (p, n)" by fastforce
  note ok = combine_output_ok [OF i r co]
  have q: "m' = (if datalen (pbuf p) > 0 then n\<lparr>asyncoutputbuffers := map_set k (Some (finalize kind p)) (asyncoutputbuffers n)\<rparr> else n)"
    unfolding m' using ev fetched_combined [OF _ co, of k] c by simp
  have d: "made_by kind ev m = (if datalen (pbuf p) > 0 then [p] else [])" using c co by (simp add: made_by_def Let_def)
  show "raid_inv F kind m'" unfolding q using ok(1) by (auto intro: raid_inv_same)
  show "\<forall>p \<in> set (made_by kind ev m). file_piece F p \<and> datalen (pbuf p) > 0" using d ok(2) by simp
  have s: "(c, Some x) \<in> set (asyncoutputbuffers m') \<Longrightarrow> (c, Some x) \<in> set (asyncoutputbuffers m) \<or> datalen (pbuf p) > 0 \<and> x = finalize kind p"
    for c x using set_map_set_subset [of k "Some (finalize kind p)" "asyncoutputbuffers n"] q ok(8)
    by (cases "datalen (pbuf p) > 0") auto
  show "outputs_from kind (log @ made_by kind ev m) m'" unfolding outputs_from_def
  proof (intro allI impI)
    fix c x
    assume "(c, Some x) \<in> set (asyncoutputbuffers m')"
    then show "\<exists>q \<in> set (log @ made_by kind ev m). x = finalize kind q" using s [of c x] o d unfolding outputs_from_def by auto
  qed
  have b: "concat (map piece_bytes (made_by kind ev m)) = fslice F (ppos p) (datalen (pbuf p))"
    using d ok(2) by (simp add: piece_bytes_def file_piece_def)
  have x: "concat (map piece_bytes (log @ made_by kind ev m)) = fslice F a (min (output_end m n) z - a)"
    using b l ok(5,6) fslice_next [OF ok(3), of F a z] by (simp add: output_log_def)
  have "outputfilepos n = output_end m n" if "\<not> processToEnd m" using that by (simp add: output_end_def)
  moreover have "output_end m n + resumewastedbytes n = max (output_end m n) a"
    using l wasted_next [OF ok(3) _ ok(7)] by (simp add: output_log_def)
  ultimately have "output_log F a z (log @ made_by kind ev m) m'" if "\<not> processToEnd m"
    using that l x q ok(9,10) by (simp add: output_log_def)
  then show "if processToEnd m then concat (map piece_bytes (log @ made_by kind ev m)) = fslice F a (min (acquirelimitpos m) z - a)
     else output_log F a z (log @ made_by kind ev m) m'" using x by (simp add: output_end_def)
qed

lemma getAsync_inv: "raid_inv F kind m \<Longrightarrow> raid_inv F kind (snd (getAsyncOutputBufferPointer kind c m))"
proof (cases "combines (Fetched c) m")
  case True
  assume i: "raid_inv F kind m"
  have r: "partslen_of m > 0 \<or> processToEnd m" using True by simp
  obtain p n where co: "combine_output kind m = (p, n)" by fastforce
  show ?thesis using combine_output_ok(1) [OF i r co] unfolding fetched_combined [OF True co] by (auto intro: raid_inv_same)
qed (simp add: fetched_uncombined)

lemma same_output_log:
  "same_output m m' \<Longrightarrow> output_log F a z log m \<Longrightarrow> outputs_from kind log m \<Longrightarrow> output_log F a z log m' \<and> outputs_from kind log m'"
  unfolding same_output_def output_log_def outputs_from_def by metis

lemma run_output:
  assumes "raid_run F kind w w' log ended" "raid_inv F kind (fst w)" "output_log F a z [] (fst w)" "outputs_from kind [] (fst w)"
  shows "raid_inv F kind (fst w') \<and> outputs_from kind log (fst w') \<and> (\<forall>p \<in> set log. file_piece F p \<and> datalen (pbuf p) > 0) \<and>
    (if ended then concat (map piece_bytes log) = fslice F a (z - a) else output_log F a z log (fst w'))"
  using assms
proof (induction rule: raid_run.induct)
  case start
  then show ?case by simp
next
  case (step w' log ev)
  obtain m fails x where w: "w' = (m, fails, x)" by (cases w')
  have i: "raid_inv F kind m" "output_log F a z log m" "outputs_from kind log m" "\<forall>p \<in> set log. file_piece F p \<and> datalen (pbuf p) > 0"
    using step w by simp_all
  have z: "min (acquirelimitpos m) z = z" using i(1,2) by (simp add: raid_inv_def limits_ok_def output_log_def min_absorb2)
  show ?case
  proof (cases "combines ev m")
    case True
    note c = combine_event [OF i(1) True i(2,3), of "fst (raid_do kind ev (m, fails, x))" fails x, OF refl]
    then show ?thesis using True i(4) w z by (auto split: if_splits)
  next
    case False
    then have "made_by kind ev m = []" by (simp add: made_by_def)
    then show ?thesis using event_keeps [OF i(1) _ False, of fails x] step.hyps(2) same_output_log [OF _ i(2,3)] False i(4) w by simp
  qed
qed

text \<open>The manager of a new download.\<close>

lemma round_down: "(q :: nat) - q mod n = q div n * n"
  by (simp add: minus_mod_eq_div_mult)

lemma initial_inv:
  assumes s: "setIsRaid now urls a z (length F) req False fails (new_manager rpos) = (m, fails')"
    and u: "length urls = RAIDPARTS" and az: "a \<le> z" "z \<le> length F" and k: "kind = TransferBuffer \<longrightarrow> chunkfloor (int a) = int a"
  shows "raid_inv F kind m" "output_log F a z [] m" "outputs_from kind [] m"
proof -
  define up where "up = z + 80 - 1"
  define ac where "ac = min (up - up mod 80) (length F)"
  define rp where "rp = a div 5 - a div 5 mod 16"
  obtain worst f where w: "selectWorstServer now urls fails = (worst, f)" by fastforce
  have m: "m = (new_manager rpos)\<lparr>tempurls := urls, is_raid := True, raidKnown := True, fullfilesize := length F, deliverlimitpos := z,
    acquirelimitpos := ac, startfilepos := a, raidpartspos := rp, resumewastedbytes := a - rp * 5, outputfilepos := a - (a - rp * 5),
    raidrequestpartpos := replicate RAIDPARTS rp, raidLinesPerChunk := lines_per_chunk req, unusedRaidConnection := worst\<rparr>"
    using s u w by (simp add: setIsRaid_def Let_def new_manager_def EFFECTIVE_RAIDPARTS_def RAIDSECTOR_def ac_def up_def rp_def)
  obtain j r where j: "a div 5 = j * 16 + r" "r < 16" using quotient [of 16 "a div 5"] by auto
  have rp: "rp = j * 16" using j by (simp add: rp_def)
  obtain i t where i: "a = i * 5 + t" "t < 5" using quotient [of 5 a] by auto
  have ra: "rp * 5 \<le> a" "a < rp * 5 + 80" using i j rp by auto
  obtain h y where h: "up = h * 80 + y" "y < 80" using quotient [of 80 up] by auto
  have "z \<le> h * 80" "up - up mod 80 = h * 80" using h unfolding up_def by auto
  then have ac: "z \<le> ac" "ac \<le> length F" "80 dvd ac \<or> ac = length F" using az by (auto simp: ac_def min_def)
  have l: "lines_per_chunk req \<le> 256 * 1024" by (simp add: lines_per_chunk_def Let_def)
  have q: "queues_ok F m" by (simp add: queues_ok_def m new_manager_def)
  have "limits_ok F m" using ac ra az l rp by (simp add: limits_ok_def m new_manager_def)
  moreover have "left_ok F m" using ra by (simp add: left_ok_def m new_manager_def newdatafilepos_def empty_piece_def piece_of_def datalen_def)
  moreover have "chunk_aligned kind m" using k ra by (cases kind) (simp_all add: m new_manager_def empty_piece_def piece_of_def datalen_def)
  ultimately show "raid_inv F kind m" using q by (simp add: raid_inv_def)
  show "output_log F a z [] m" using ra by (simp add: output_log_def m new_manager_def)
  show "outputs_from kind [] m" by (simp add: outputs_from_def m new_manager_def)
qed

section \<open>Progress\<close>

text \<open>Every part that is not finished has a piece waiting.\<close>

definition all_waiting :: "raid_manager \<Rightarrow> bool" where
  "all_waiting m \<longleftrightarrow> (\<forall>j < RAIDPARTS. raidinputparts m ! j \<noteq> [] \<or> raidPartSize j (acquirelimitpos m) \<le> raidpartspos m)"

lemma part_size_last_line: "raidPartSize j A \<le> A div 80 * 16 + 16"
  by (simp add: raidPartSize_eq)

lemma last_line_begun:
  assumes l: "limits_ok F m" and j: "j < RAIDPARTS" and s: "raidPartSize j (acquirelimitpos m) < raidpartspos m + 16"
  shows "raidpartspos m = acquirelimitpos m div 80 * 16"
proof -
  obtain a where a: "raidpartspos m = 16 * a" using l by (auto simp: limits_ok_def elim!: dvdE)
  have "a * 80 \<le> acquirelimitpos m" using l a by (simp add: limits_ok_def)
  then have "a \<le> acquirelimitpos m div 80" by (simp add: less_eq_div_iff_mult_less_eq)
  moreover have "acquirelimitpos m div 80 * 16 < 16 * a + 16" using last_part_size(2) [OF j, of "acquirelimitpos m"] s a by linarith
  then have "acquirelimitpos m div 80 < a + 1" by linarith
  ultimately show ?thesis using a by simp
qed

lemma front_end:
  assumes q: "pieces_ok F A j rp q" and w: "q \<noteq> [] \<or> raidPartSize j A \<le> rp" and l: "rp \<le> raidPartSize j A" "raidPartSize j A \<le> rp + 16"
  shows "rp + front_len q = raidPartSize j A"
proof (cases q)
  case (Cons p ps)
  define d where "d = datalen (pbuf p)"
  have p: "0 < d" "rp + d \<le> raidPartSize j A" "16 dvd d \<or> rp + d = raidPartSize j A" using q Cons by (simp_all add: piece_ok_def d_def)
  have "16 \<le> d" if "16 dvd d" using that p(1) by (rule dvd_imp_le)
  then have "rp + d = raidPartSize j A" using p l by linarith
  then show ?thesis using Cons by (simp add: front_len_def d_def)
qed (use w l in \<open>simp add: front_len_def\<close>)

lemma waiting_combine:
  assumes i: "raid_inv F kind m" and w: "all_waiting m"
  shows "partslen_of m > 0 \<or> processToEnd m"
proof (cases "shortest m < 16")
  case False
  then show ?thesis using partslen_sectors(3) [of m] by linarith
next
  case True
  have i': "queues_ok F m" "limits_ok F m" "left_ok F m" using i by (simp_all add: raid_inv_def)
  let ?A = "acquirelimitpos m" let ?rp = "raidpartspos m"
  obtain j where j: "j < RAIDPARTS" "shortest m = front_len (raidinputparts m ! j)" using shortest_props(2) [of m] True by auto
  let ?q = "raidinputparts m ! j"
  have "raidPartSize j ?A < ?rp + 16"
  proof (cases ?q)
    case Nil
    then show ?thesis using w j(1) by (auto simp: all_waiting_def)
  next
    case (Cons p ps)
    define d where "d = datalen (pbuf p)"
    have "0 < d" "16 dvd d \<or> ?rp + d = raidPartSize j ?A"
      using queues_okD(1) [OF i'(1) j(1)] Cons by (simp_all add: piece_ok_def d_def)
    moreover have "d < 16" using True j(2) Cons by (simp add: front_len_def d_def)
    ultimately show ?thesis using dvd_imp_le [of 16 d] by linarith
  qed
  then have e: "?rp = ?A div 80 * 16" by (rule last_line_begun [OF i'(2) j(1)])
  have "at_ends m" unfolding at_ends_def
  proof (intro allI impI)
    fix k assume k: "k < RAIDPARTS"
    show "?rp + front_len (raidinputparts m ! k) = raidPartSize k ?A"
      by (rule front_end [OF queues_okD(1) [OF i'(1) k]])
        (use w k parts_begun [OF i'(2) k] part_size_last_line [of k ?A] e in \<open>auto simp: all_waiting_def\<close>)
  qed
  then show ?thesis using processToEnd_at_ends [OF i'] by simp
qed

text \<open>All that is left of every part waits.\<close>

definition waiting_len :: "FilePiece list \<Rightarrow> nat" where
  "waiting_len q = sum_list (map (\<lambda>p. datalen (pbuf p)) q)"

definition all_queued :: "raid_manager \<Rightarrow> bool" where
  "all_queued m \<longleftrightarrow> (\<forall>j < RAIDPARTS. raidpartspos m + waiting_len (raidinputparts m ! j) = raidPartSize j (acquirelimitpos m))"

lemma queued_waiting: "all_queued m \<Longrightarrow> all_waiting m"
  unfolding all_queued_def all_waiting_def
proof (intro allI impI)
  fix j
  assume "\<forall>j < RAIDPARTS. raidpartspos m + waiting_len (raidinputparts m ! j) = raidPartSize j (acquirelimitpos m)" "j < RAIDPARTS"
  then have "raidpartspos m + waiting_len (raidinputparts m ! j) = raidPartSize j (acquirelimitpos m)" by blast
  then show "raidinputparts m ! j \<noteq> [] \<or> raidPartSize j (acquirelimitpos m) \<le> raidpartspos m"
    by (cases "raidinputparts m ! j = []") (simp_all add: waiting_len_def)
qed

lemma roll_waiting: "n \<le> front_len q \<Longrightarrow> waiting_len (roll_queue n q) = waiting_len q - n"
  by (cases q) (auto simp: roll_queue_def front_len_def waiting_len_def Let_def datalen_def)

lemma front_waiting: "front_len q \<le> waiting_len q"
  by (cases q) (simp_all add: front_len_def waiting_len_def)

text \<open>The output is fetched and written on one connection until the end of the range is combined.\<close>

fun drain :: "kind \<Rightarrow> nat \<Rightarrow> nat \<Rightarrow> raid_world \<Rightarrow> raid_world \<times> FilePiece list \<times> bool" where
  "drain kind c 0 w = (w, [], False)"
| "drain kind c (Suc n) w =
    (let made = made_by kind (Fetched c) (fst w); w1 = raid_do kind (Fetched c) w
     in if combines (Fetched c) (fst w) \<and> processToEnd (fst w) then (w1, made, True)
        else let (w2, log, ended) = drain kind c n (raid_do kind (Written c True) w1) in (w2, made @ log, ended))"

lemma drain_run:
  "raid_run F kind w0 w log False \<Longrightarrow> drain kind c n w = (w', l, ended) \<Longrightarrow> raid_run F kind w0 w' (log @ l) ended"
proof (induction n arbitrary: w log l)
  case (Suc n)
  let ?e = "combines (Fetched c) (fst w) \<and> processToEnd (fst w)"
  let ?w1 = "raid_do kind (Fetched c) w" let ?w2 = "raid_do kind (Written c True) ?w1"
  have r: "raid_run F kind w0 ?w1 (log @ made_by kind (Fetched c) (fst w)) ?e" by (rule raid_run.step [OF Suc.prems(1)]) simp
  show ?case
  proof (cases ?e)
    case True
    then show ?thesis using r Suc.prems(2) by (simp add: Let_def)
  next
    case False
    obtain l' where l: "drain kind c n ?w2 = (w', l', ended)" "l = made_by kind (Fetched c) (fst w) @ l'"
      using Suc.prems(2) False by (auto simp: Let_def split: prod.splits)
    have "raid_run F kind w0 ?w1 (log @ made_by kind (Fetched c) (fst w)) False" using r by (simp only: False)
    from raid_run.step [OF this, of "Written c True"]
    have "raid_run F kind w0 ?w2 (log @ made_by kind (Fetched c) (fst w)) False" by (simp add: made_by_def)
    from Suc.IH [OF this l(1)] show ?thesis using l(2) by simp
  qed
qed simp

lemma combined_queues:
  assumes e: "\<not> processToEnd m" and o: "combine_output kind m = (piece, m')"
  shows "raidinputparts m' = map (roll_queue (partslen_of m)) (raidinputparts m)"
  using assms by (auto simp: combine_output_def finish_output_def trim_output_def Let_def split: if_splits)

lemma combined_queued:
  assumes i: "raid_inv F kind m" and q: "all_queued m" and c: "partslen_of m > 0" and e: "\<not> processToEnd m"
    and o: "combine_output kind m = (piece, m')"
  shows "all_queued m'"
proof -
  note ok = combine_output_ok [OF i _ o]
  have "length (raidinputparts m) = RAIDPARTS" using i by (simp add: raid_inv_def queues_ok_def)
  then have "raidpartspos m' + waiting_len (raidinputparts m' ! j) = raidPartSize j (acquirelimitpos m')" if "j < RAIDPARTS" for j
    using that q c ok(11,12) roll_waiting [OF partslen_front(1) [OF that]] partslen_front(1) [OF that, of m] front_waiting [of "raidinputparts m ! j"]
    by (simp add: combined_queues [OF e o] all_queued_def)
  then show ?thesis by (simp add: all_queued_def)
qed

lemma find_set_same: "map_find (map_set k v m) k = Some v"
  by (induction k v m rule: map_set.induct) (auto simp: map_find_def)

lemma written_none: "waiting_output c (fst (bufferWriteCompleted kind c ok (m, w))) = None"
  by (cases w) (auto simp: bufferWriteCompleted_def waiting_output_def find_set_same Let_def split: option.split)

lemma written_queues:
  "raidinputparts (fst (bufferWriteCompleted kind c ok (m, w))) = raidinputparts m \<and>
   raidpartspos (fst (bufferWriteCompleted kind c ok (m, w))) = raidpartspos m \<and>
   acquirelimitpos (fst (bufferWriteCompleted kind c ok (m, w))) = acquirelimitpos m"
  by (cases w) (auto simp: bufferWriteCompleted_def Let_def split: option.split)

lemma lines_left: "limits_ok F m \<Longrightarrow> raidpartspos m div 16 \<le> acquirelimitpos m div 80"
proof -
  assume l: "limits_ok F m"
  obtain a where a: "raidpartspos m = 16 * a" using l by (auto simp: limits_ok_def elim!: dvdE)
  have "a * 80 \<le> acquirelimitpos m" using l a by (simp add: limits_ok_def)
  then show ?thesis using a by (simp add: less_eq_div_iff_mult_less_eq)
qed

text \<open>A fetch that combines full lines moves on by at least one.\<close>

lemma fetch_lines:
  assumes i: "raid_inv F kind m" and c: "combines (Fetched c) m" and e: "\<not> processToEnd m"
  shows "raidpartspos (fst (raid_do kind (Fetched c) (m, x))) = raidpartspos m + partslen_of m"
    "acquirelimitpos (fst (raid_do kind (Fetched c) (m, x))) = acquirelimitpos m" "partslen_of m \<ge> 16"
    "all_queued m \<Longrightarrow> all_queued (fst (raid_do kind (Fetched c) (m, x)))"
proof -
  have r: "partslen_of m > 0" using c e by simp
  obtain p n where co: "combine_output kind m = (p, n)" by fastforce
  note ok = combine_output_ok [OF i _ co]
  have q: "fst (raid_do kind (Fetched c) (m, x)) =
    (if datalen (pbuf p) > 0 then n\<lparr>asyncoutputbuffers := map_set c (Some (finalize kind p)) (asyncoutputbuffers n)\<rparr> else n)"
    using fetched_combined [OF c co] by (cases x) simp
  show "raidpartspos (fst (raid_do kind (Fetched c) (m, x))) = raidpartspos m + partslen_of m"
    "acquirelimitpos (fst (raid_do kind (Fetched c) (m, x))) = acquirelimitpos m" unfolding q using ok(11,12) r by simp_all
  show "partslen_of m \<ge> 16" using r partslen_sectors(1) by (intro dvd_imp_le)
  show "all_queued m \<Longrightarrow> all_queued (fst (raid_do kind (Fetched c) (m, x)))"
    unfolding q using combined_queued [OF i _ r e co] by (simp add: all_queued_def)
qed

lemma drain_ends:
  "raid_inv F kind m \<Longrightarrow> all_queued m \<Longrightarrow> waiting_output c m = None \<Longrightarrow> acquirelimitpos m div 80 < n + raidpartspos m div 16 \<Longrightarrow>
    snd (snd (drain kind c n (m, x)))"
proof (induction n arbitrary: m x)
  case 0
  then show ?case using lines_left [of F m] by (simp add: raid_inv_def)
next
  case (Suc n)
  note i = Suc.prems(1)
  have c: "combines (Fetched c) m" using i Suc.prems(3) waiting_combine [OF i queued_waiting [OF Suc.prems(2)]]
    by (simp add: raid_inv_def limits_ok_def)
  show ?case
  proof (cases "processToEnd m")
    case False
    obtain m1 f w where m1: "raid_do kind (Fetched c) (m, x) = (m1, f, w)" by (metis surj_pair)
    obtain m2 w2 where m2: "bufferWriteCompleted kind c True (m1, w) = (m2, w2)" by (metis surj_pair)
    note s = fetch_lines(1,2,4) [OF i c False, of x, unfolded m1 fst_conv]
    have "raid_inv F kind m1" using m1 getAsync_inv [OF i, of c] by (cases x) simp
    then have i2: "raid_inv F kind m2" using written_inv [of F kind m1 c True w] m2 by simp
    have q: "all_queued m2" "raidpartspos m2 = raidpartspos m + partslen_of m" "acquirelimitpos m2 = acquirelimitpos m"
      using s(1,2) s(3) [OF Suc.prems(2)] written_queues [of kind c True m1 w] m2 by (simp_all add: all_queued_def)
    have "waiting_output c m2 = None" using written_none [of c kind True m1 w] m2 by simp
    moreover have "raidpartspos m div 16 + 1 \<le> raidpartspos m2 div 16" using q(2) fetch_lines(3) [OF i c False] div_le_mono [of "raidpartspos m + 16" "raidpartspos m2" 16] by simp
    ultimately have "snd (snd (drain kind c n (m2, f, w2)))" using Suc.IH [OF i2 q(1)] Suc.prems(4) q(3) by simp
    then show ?thesis using False m1 m2 by (auto simp: Let_def split: prod.splits)
  qed (use c in \<open>simp add: Let_def\<close>)
qed

section \<open>Downloads\<close>


definition demo_file :: bytes where
  "demo_file = [1, 2, 3]"

definition demo_piece :: "nat \<Rightarrow> FilePiece" where
  "demo_piece n = piece_of 0 \<lparr>hbuf = Some (take n demo_file), hstart = 0, hend = n\<rparr>"

definition demo_start :: raid_world where
  "demo_start = (let (m, fails) = setIsRaid 0 (replicate 6 []) 0 3 3 0 False [] (new_manager 0) in (m, fails, new_chunkmac_map, 0))"

definition demo_sent :: raid_world where
  "demo_sent = raid_do TransferBuffer (Submitted 0 (demo_piece 3)) (raid_do TransferBuffer (Submitted 1 (demo_piece 3)) demo_start)"

lemma demo_steps:
  "event_ok demo_file (Submitted 1 (demo_piece 3)) (fst demo_start)"
  "event_ok demo_file (Submitted 0 (demo_piece 3)) (fst (raid_do TransferBuffer (Submitted 1 (demo_piece 3)) demo_start))"
  "combines (Fetched 0) (fst demo_sent)" "processToEnd (fst demo_sent)"
  by code_simp+

lemma demo_queued: "all_queued (fst demo_sent)" "waiting_output 0 (fst demo_sent) = None"
  unfolding all_queued_def all_parts by code_simp+

lemma demo_run: "raid_run demo_file TransferBuffer demo_start demo_sent [] False"
proof -
  have "raid_run demo_file TransferBuffer demo_start (raid_do TransferBuffer (Submitted 1 (demo_piece 3)) demo_start) [] False"
    using raid_run.step [OF raid_run.start demo_steps(1)] by (simp add: made_by_def)
  from raid_run.step [OF this demo_steps(2)] show ?thesis by (simp add: made_by_def demo_sent_def)
qed

lemma demo_len: "length demo_file = 3" "chunkfloor 0 = 0"
  by code_simp+

lemma demo_init:
  obtains m fails where "setIsRaid 0 (replicate 6 []) 0 3 (length demo_file) 0 False [] (new_manager 0) = (m, fails)"
    "demo_start = (m, fails, new_chunkmac_map, 0)"
proof -
  obtain m fails where m: "setIsRaid 0 (replicate 6 []) 0 3 3 0 False [] (new_manager 0) = (m, fails)" by (metis surj_pair)
  show ?thesis by (rule that [of m fails]) (use m in \<open>simp_all add: demo_start_def demo_len\<close>)
qed






end
