(* ===== verification/Mega_Download.thy ===== *)
theory Mega_Download
  imports Mega_Raid
begin

text \<open>
  What a transfer does with its pieces and its requests (\<^verbatim>\<open>src/raid.cpp\<close>, \<^verbatim>\<open>src/transferslot.cpp\<close>).  \<^verbatim>\<open>FilePiece::finalize\<close>
  decrypts a downloaded piece chunk by chunk and computes the chunks' MACs, in two passes: chunks that the piece completes are
  left for a worker thread, the others are done at once.  \<^verbatim>\<open>TransferBufferManager::nextNPosForConnection\<close> chooses the range
  of the next request.  The lemmas: after both passes a piece of whole chunks is plain and its map holds the MACs of the
  upload; requests are ranges of whole chunks that nobody has processed.
\<close>

section \<open>Finalizing a piece\<close>

lemma chunkceil_above: "p < chunkceil p (- 1)"
proof (cases "p < 0 \<or> 4718592 \<le> p")
  case True
  have "p - 4718592 < ((p - 4718592) div 1048576 + 1) * 1048576" using div_mult_mod_eq [of "p - 4718592" 1048576]
      pos_mod_bound [of 1048576 "p - 4718592"] by (simp add: algebra_simps)
  then show ?thesis using True by (simp add: chunkceil_cases)
qed (simp add: chunkceil_cases)

text \<open>What the loop over the chunks changes: the flag it returns, the piece's memory, and the two maps.\<close>

record finalizing =
  fz_queue :: bool
  fz_mem :: bytes
  fz_macs :: chunkmac_map
  fz_source :: "chunkmac_map option"

definition finalize_chunk :: "read_cipher \<Rightarrow> bool \<Rightarrow> nat \<Rightarrow> m_off_t \<Rightarrow> m_off_t \<Rightarrow> u32 \<Rightarrow> nat \<Rightarrow> finalizing \<Rightarrow> finalizing" where
  "finalize_chunk rc parallel filesize startpos endpos chunksize off st =
    (let chunkid = chunkfloor startpos in
     if finishedAt (fz_macs st) chunkid then st
     else let st1 = (case fz_source st of
              None \<Rightarrow> st
            | Some src \<Rightarrow> let (src', macs') = copyEntryTo chunkid src (fz_macs st) in st\<lparr>fz_source := Some src', fz_macs := macs'\<rparr>);
          decrypted = (\<lambda>finishes. let (d, macs) = chunk_ctr_decrypt (rc_ecb rc) (rc_ctr_mode rc) (rc_aligned rc) chunkid
              (drop off (fz_mem st1)) chunksize startpos (rc_ctriv rc) finishes (fz_macs st1)
            in st1\<lparr>fz_mem := take off (fz_mem st1) @ d, fz_macs := macs\<rparr>)
       in if endpos = chunkceil chunkid (int filesize) then if parallel then decrypted True else st1\<lparr>fz_queue := True\<rparr>
          else if \<not> parallel then decrypted False else st1)"

function finalize_loop :: "read_cipher \<Rightarrow> bool \<Rightarrow> nat \<Rightarrow> nat \<Rightarrow> m_off_t \<Rightarrow> nat \<Rightarrow> finalizing \<Rightarrow> finalizing" where
  "finalize_loop rc parallel filesize finalpos startpos off st =
    (let endpos = chunkceil startpos (int finalpos); chunksize = word_of_int (endpos - startpos) :: u32
     in if chunksize = 0 then st
        else finalize_loop rc parallel filesize finalpos endpos (off + unat chunksize)
          (finalize_chunk rc parallel filesize startpos endpos chunksize off st))"
  by pat_completeness auto
termination
proof (relation "measure (\<lambda>(rc, parallel, filesize, finalpos, startpos, off, st).
    if startpos \<le> int finalpos then nat (int finalpos - startpos) else 1)")
  fix rc :: read_cipher and parallel :: bool and filesize finalpos off and startpos endpos :: m_off_t and st :: finalizing and chunksize :: u32
  assume e: "endpos = chunkceil startpos (int finalpos)" "chunksize = word_of_int (endpos - startpos)" "chunksize \<noteq> 0"
  have "endpos = min (chunkceil startpos (- 1)) (int finalpos)"
    using e(1) chunkceil_limit [of startpos "int finalpos"] by (simp add: Let_def min_def)
  moreover have "endpos \<noteq> startpos" using e(2,3) by auto
  ultimately show "((rc, parallel, filesize, finalpos, endpos, off + unat chunksize, finalize_chunk rc parallel filesize startpos endpos chunksize off st),
      rc, parallel, filesize, finalpos, startpos, off, st)
    \<in> measure (\<lambda>(rc, parallel, filesize, finalpos, startpos, off, st). if startpos \<le> int finalpos then nat (int finalpos - startpos) else 1)"
    using chunkceil_above [of startpos] by auto
qed simp

declare finalize_loop.simps [simp del]

text \<open>The piece's MACs and, if the pass is the first one, the transfer's own map.\<close>

definition piece_finalize :: "read_cipher \<Rightarrow> bool \<Rightarrow> nat \<Rightarrow> chunkmac_map option \<Rightarrow> FilePiece \<Rightarrow> bool \<times> FilePiece \<times> chunkmac_map option" where
  "piece_finalize rc parallel filesize source p =
    (let end = ppos p + datalen (pbuf p);
         finalpos = (if end \<noteq> filesize then end - end mod BLOCKSIZE else end);
         st = finalize_loop rc parallel filesize finalpos (int (ppos p)) 0
           \<lparr>fz_queue = False, fz_mem = datastart (pbuf p), fz_macs = pmacs p, fz_source = source\<rparr>
     in (fz_queue st, (buf_write 0 (fz_mem st) p)\<lparr>pmacs := fz_macs st, pfinalized := \<not> fz_queue st\<rparr>, fz_source st))"

text \<open>What the slot does with a piece: the first pass with the transfer's map, the second, if needed, on a worker.\<close>

definition decrypt_piece :: "read_cipher \<Rightarrow> nat \<Rightarrow> chunkmac_map \<Rightarrow> FilePiece \<Rightarrow> FilePiece \<times> chunkmac_map" where
  "decrypt_piece rc filesize transfermacs p =
    (let (parallelNeeded, p1, source) = piece_finalize rc False filesize (Some transfermacs) p;
         p2 = (if parallelNeeded then fst (snd (piece_finalize rc True filesize None p1)) else p1)
     in (p2, the source))"

section \<open>Requests\<close>

text \<open>What the choice of a range uses of the transfer and its slot.\<close>

record request_transfer =
  rq_pos :: m_off_t
  rq_size :: m_off_t
  rq_type :: direction
  rq_macs :: chunkmac_map
  rq_progress :: m_off_t
  rq_connections :: int

definition put_request_size :: "m_off_t \<Rightarrow> m_off_t \<Rightarrow> m_off_t \<Rightarrow> m_off_t" where
  "put_request_size npos fsize uploadSpeed =
    (let largeSize = 32 * 1024 * 1024;
         m1 = (if npos + 2 * largeSize > fsize then largeSize sdiv 2 else largeSize);
         m2 = (if npos + m1 > fsize then m1 sdiv 2 else m1);
         maxsize = (if npos + m2 > fsize then m2 sdiv 2 else m2);
         speedsize = min maxsize (uploadSpeed * 2 sdiv 3);
         sizesize = (if fsize > largeSize then 8 * 1024 * 1024 else 0)
     in max sizesize speedsize)"

partial_function (option) double_loop :: "m_off_t \<Rightarrow> m_off_t \<Rightarrow> m_off_t option" where
  "double_loop val maxReqSize = (if val \<le> maxReqSize then double_loop (push_bit 1 val) maxReqSize else Some val)"

definition get_request_size :: "m_off_t \<Rightarrow> m_off_t \<Rightarrow> m_off_t \<Rightarrow> int \<Rightarrow> m_off_t option" where
  "get_request_size fsize progress maxRequestSize connectionCount =
    (let m = (fsize - progress) sdiv connectionCount sdiv 2;
         maxReqSize = (if m > maxRequestSize then maxRequestSize else m)
     in if maxReqSize > 0x100000 then map_option (\<lambda>val. drop_bit 1 val - 0x100000) (double_loop 0x100000 maxReqSize) else Some 0)"

definition MAX_REQ_SIZE_NEW_RAID :: m_off_t where
  "MAX_REQ_SIZE_NEW_RAID = 2 * 1024 * 1024"

definition UPPER_FILESIZE_LIMIT_FOR_SMALLER_CHUNKS :: m_off_t where
  "UPPER_FILESIZE_LIMIT_FOR_SMALLER_CHUNKS = 25 * 1024 * 1024"

text \<open>The size grows until the chunk at its end is padded to a line.\<close>

partial_function (option) pad_loop :: "m_off_t \<Rightarrow> m_off_t \<Rightarrow> m_off_t \<Rightarrow> m_off_t \<Rightarrow> m_off_t option" where
  "pad_loop pos fsize maxReqSize nextChunk =
    (if nextChunk < fsize \<and> (nextChunk - pos) mod RAIDLINE \<noteq> 0
     then let maxReqSize' = chunkceil maxReqSize fsize in pad_loop pos fsize maxReqSize' (chunkceil (pos + maxReqSize') fsize)
     else Some maxReqSize)"

definition new_raid_request_size :: "m_off_t \<Rightarrow> m_off_t \<Rightarrow> int \<Rightarrow> m_off_t option" where
  "new_raid_request_size pos fsize connections =
    (let defaultMaxReqSize = MAX_REQ_SIZE_NEW_RAID * int EFFECTIVE_RAIDPARTS;
         maxReqsSize = defaultMaxReqSize * 4;
         m1 = max (maxReqsSize sdiv connections) (1 * 1024 * 1024 * int EFFECTIVE_RAIDPARTS);
         m2 = min m1 fsize;
         maxReqSize = (if fsize \<le> UPPER_FILESIZE_LIMIT_FOR_SMALLER_CHUNKS then fsize sdiv 4 else m2)
     in map_option (\<lambda>m. m + 1) (pad_loop pos fsize maxReqSize (chunkceil (pos + maxReqSize) fsize)))"

declare double_loop.simps [code] pad_loop.simps [code]

definition request_size :: "bool \<Rightarrow> m_off_t \<Rightarrow> m_off_t \<Rightarrow> int \<Rightarrow> m_off_t \<Rightarrow> request_transfer \<Rightarrow> m_off_t option" where
  "request_size newRaid npos maxRequestSize connectionCount uploadSpeed t =
    (case rq_type t of
       PUT \<Rightarrow> Some (put_request_size npos (rq_size t) uploadSpeed)
     | GET \<Rightarrow> if newRaid then new_raid_request_size (rq_pos t) (rq_size t) (rq_connections t)
         else get_request_size (rq_size t) (rq_progress t) maxRequestSize connectionCount)"

text \<open>The next range of a transfer that is not striped; a range that does not fit the lines of the newer scheme is refused with \<open>(- 1, - 1)\<close>.\<close>

definition transfer_nextNPos :: "bool \<Rightarrow> m_off_t \<Rightarrow> int \<Rightarrow> m_off_t \<Rightarrow> request_transfer \<Rightarrow> ((m_off_t \<times> m_off_t) \<times> request_transfer) option" where
  "transfer_nextNPos newRaid maxRequestSize connectionCount uploadSpeed t0 =
    (case (if rq_size t0 \<noteq> 0 then nextUnprocessedPosFrom (rq_macs t0) (rq_pos t0) else Some 0) of
       None \<Rightarrow> None
     | Some pos \<Rightarrow>
         let t = t0\<lparr>rq_pos := pos\<rparr>; npos = (if rq_size t \<noteq> 0 then chunkceil pos (rq_size t) else 0)
         in if npos > pos then
              if rq_type t = GET \<and> newRaid \<and> offsetToRaidLine (nat pos) \<noteq> 0 then Some ((- 1, - 1), t)
              else (case request_size newRaid npos maxRequestSize connectionCount uploadSpeed t of
                None \<Rightarrow> None
              | Some maxReqSize \<Rightarrow>
                  (case expandUnprocessedPiece (rq_macs t) pos npos (rq_size t) maxReqSize of
                     None \<Rightarrow> None
                   | Some npos' \<Rightarrow>
                       if newRaid \<and> npos' < rq_size t \<and> offsetToRaidLine (nat (npos' - pos)) \<noteq> 0 then Some ((- 1, - 1), t)
                       else Some ((pos, npos'), t)))
            else Some ((pos, npos), t))"

section \<open>One chunk\<close>

lemma mac_decrypt_append:
  "block_cipher ecb \<Longrightarrow> length mac = BLOCKSIZE \<Longrightarrow> n \<le> length p \<Longrightarrow> mac_decrypt ecb aligned (p @ q) n mac = mac_decrypt ecb aligned p n mac"
proof (induction n arbitrary: p mac rule: less_induct)
  case (less n)
  show ?case
  proof (cases "BLOCKSIZE \<le> n")
    case True
    have x: "xorblock aligned (p @ q) mac = xorblock aligned p mac" using less.prems True by (simp add: xorblock_eq BLOCKSIZE_def)
    have "length (ecb (xorblock aligned p mac)) = BLOCKSIZE" using less.prems True by (simp add: xorblock_eq block_cipher_def)
    then show ?thesis
      using less.IH [of "n - BLOCKSIZE" "ecb (xorblock aligned p mac)" "drop BLOCKSIZE p"] less.prems True x
      by (simp add: mac_decrypt.simps [of _ _ "p @ q"] mac_decrypt.simps [of _ _ p] BLOCKSIZE_def)
  next
    case False
    then have "xorblock_len (p @ q) mac n = xorblock_len p mac n"
      using less.prems xorblock_len_eq [of n mac p] xorblock_len_eq [of n mac "p @ q"] by simp
    then show ?thesis using False by (simp add: mac_decrypt.simps [of _ _ "p @ q"] mac_decrypt.simps [of _ _ p])
  qed
qed

lemma blocks_len_mod: "blocks_len n mod 16 = 0"
  by (simp add: blocks_len_def)

text \<open>A chunk of a plain zero-padded piece, decrypted at the start of a longer memory.\<close>

lemma decrypt_chunk:
  assumes f: "counter_mode f" and ecb: "block_cipher ecb" and l: "unat len < 2 ^ 31" and s: "0 \<le> s"
    and d: "take (blocks_len (unat len)) data = f (ctr_block v (s div 16)) Q" and q: "length Q = blocks_len (unat len)"
    and z: "\<And>i. unat len \<le> i \<Longrightarrow> i < blocks_len (unat len) \<Longrightarrow> Q ! i = 0"
    and c: "case map_find (mMacMap m) cid of None \<Rightarrow> True | Some c \<Rightarrow> notStarted c"
  shows "chunk_ctr_decrypt ecb f a cid data len s v True m =
    (Q @ drop (blocks_len (unat len)) data,
     m\<lparr>mMacMap := map_set cid \<lparr>cmac = mac_encrypt ecb a Q (int (unat len)) (start_mac v), offset = 0, finished = True\<rparr> (mMacMap m)\<rparr>)"
proof -
  let ?chunk = "case map_find (mMacMap m) cid of None \<Rightarrow> new_chunk | Some c \<Rightarrow> c"
  have n: "notStarted ?chunk" using c by (cases "map_find (mMacMap m) cid") (simp_all add: notStarted_def new_chunk_def)
  have "f (ctr_block v (s sdiv 16)) (take (blocks_len (unat len)) data) = Q"
    using f s unfolding d by (simp add: counter_mode_def sdiv_nonneg)
  then have "ctr_crypt ecb f a data len s v (Some (cmac ?chunk)) False True =
      (Q @ drop (blocks_len (unat len)) data, Some (mac_decrypt ecb a (Q @ drop (blocks_len (unat len)) data) (unat len) (start_mac v)))"
    using l by (simp add: ctr_crypt_def Let_def padded_len_eq BLOCKSIZE_def start_mac_def ctr_block_def)
  also have "mac_decrypt ecb a (Q @ drop (blocks_len (unat len)) data) (unat len) (start_mac v) = mac_decrypt ecb a Q (unat len) (start_mac v)"
    using q blocks_len_ge [of "unat len"] ecb by (intro mac_decrypt_append) (simp_all add: BLOCKSIZE_def)
  also have "\<dots> = mac_encrypt ecb a Q (int (unat len)) (start_mac v)"
    using q z ecb by (intro mac_encrypt_decrypt [symmetric]) (simp_all add: BLOCKSIZE_def)
  finally show ?thesis using n by (cases ?chunk) (simp add: chunk_ctr_decrypt_def Let_def)
qed

lemma chunk_start_less: "i < j \<Longrightarrow> chunk_start i < chunk_start j"
  using lift_Suc_mono_less [of chunk_start] chunk_start_Suc(1) by simp

lemma chunk_start_inj [simp]: "chunk_start i = chunk_start j \<longleftrightarrow> i = j"
  using chunk_start_less [of i j] chunk_start_less [of j i] by (cases i j rule: linorder_cases) auto

lemma chunk_start_mod: "chunk_start k mod 16 = 0"
  by (simp add: chunk_start_def SEGSIZE_def mod_mult_left_eq [symmetric])

text \<open>The range of a piece: from block \<open>s\<close> in chunk \<open>k\<close> to the end of chunk \<open>k + n\<close> or of the file.\<close>

definition piece_range :: "nat \<Rightarrow> nat \<Rightarrow> m_off_t \<Rightarrow> nat \<Rightarrow> nat \<Rightarrow> bool" where
  "piece_range k n s F filesize \<longleftrightarrow> chunk_start k \<le> s \<and> s < chunk_start (Suc k) \<and> s mod 16 = 0 \<and> s < int F \<and>
    chunk_start (k + n) < int F \<and> int F \<le> chunk_start (Suc (k + n)) \<and> F \<le> filesize \<and> (int F = chunk_start (Suc (k + n)) \<or> F = filesize) \<and>
    filesize < 2 ^ 62"

definition chunk_from :: "m_off_t \<Rightarrow> nat \<Rightarrow> m_off_t" where
  "chunk_from s i = max s (chunk_start i)"

definition chunk_len :: "m_off_t \<Rightarrow> nat \<Rightarrow> nat \<Rightarrow> nat" where
  "chunk_len s F i = nat (min (chunk_start (Suc i)) (int F) - chunk_from s i)"

text \<open>The entry of a chunk with the plain bytes \<open>P\<close> of a piece that begins at \<open>s\<close>, as an upload of them makes it.\<close>

definition chunk_entry :: "read_cipher \<Rightarrow> bytes \<Rightarrow> m_off_t \<Rightarrow> nat \<Rightarrow> nat \<Rightarrow> chunk_mac" where
  "chunk_entry rc P s F i =
    \<lparr>cmac = mac_encrypt (rc_ecb rc) (rc_aligned rc) (take (blocks_len (chunk_len s F i)) (drop (nat (chunk_from s i - s)) P))
        (int (chunk_len s F i)) (start_mac (rc_ctriv rc)), offset = 0, finished = True\<rparr>"

lemma range_end: "piece_range k n s F fs \<Longrightarrow> min (chunk_start (Suc k)) (int F) = (if n = 0 then int F else chunk_start (Suc k))"
  using chunk_start_less [of "Suc k" "k + n"] by (cases "n = 0"; cases "n = 1") (auto simp: piece_range_def min_def)

lemma range_first:
  assumes r: "piece_range k n s F fs"
  defines "e \<equiv> min (chunk_start (Suc k)) (int F)"
  shows "0 \<le> s" "s < e" "chunkfloor s = chunk_start k" "chunkceil s (int F) = e" "chunkceil (chunk_start k) (int fs) = e"
    "unat (word_of_int (e - s) :: u32) = nat (e - s)" "nat (e - s) < 2 ^ 31" "chunk_len s F k = nat (e - s)"
proof -
  show s: "0 \<le> s" using r chunk_start_nonneg [of k] by (simp add: piece_range_def)
  show se: "s < e" using r by (simp add: piece_range_def e_def)
  have c: "chunk_start k \<le> s" "s < chunk_start (Suc k)" using r by (simp_all add: piece_range_def)
  show "chunkfloor s = chunk_start k" using chunk_of [OF c] by simp
  show "chunkceil s (int F) = e" using chunk_of [OF c] chunkceil_limit [of s "int F"] by (simp add: Let_def e_def min_def)
  have "chunkceil (chunk_start k) (int fs) = min (chunk_start (Suc k)) (int fs)"
    using chunk_of [of k "chunk_start k"] chunk_start_Suc(1) chunkceil_limit [of "chunk_start k" "int fs"] by (simp add: Let_def min_def)
  also have "\<dots> = e"
  proof (cases "int F = chunk_start (Suc (k + n))")
    case True
    then have "chunk_start (Suc k) \<le> int F" using chunk_start_less [of "Suc k" "Suc (k + n)"] by (cases "n = 0") auto
    then show ?thesis using r by (simp add: e_def piece_range_def min_def)
  next
    case False
    then show ?thesis using r by (simp add: e_def piece_range_def)
  qed
  finally show "chunkceil (chunk_start k) (int fs) = e" .
  have "e - s \<le> 1048576" using c chunk_start_Suc(2) [of k] by (simp add: e_def)
  then show "nat (e - s) < 2 ^ 31" by simp
  have u: "uint (word_of_int d :: u32) = d" if "0 \<le> d" "d \<le> 1048576" for d using that by (simp add: uint_word_of_int)
  have "uint (word_of_int (e - s) :: u32) = e - s" by (rule u) (use se \<open>e - s \<le> 1048576\<close> in simp_all)
  then show "unat (word_of_int (e - s) :: u32) = nat (e - s)" by (simp only: unat_eq_nat_uint)
  show "chunk_len s F k = nat (e - s)" using c by (simp add: chunk_len_def chunk_from_def e_def)
qed

lemma range_next: "piece_range k (Suc n) s F fs \<Longrightarrow> piece_range (Suc k) n (chunk_start (Suc k)) F fs"
  using chunk_start_Suc(1) [of "Suc k"] chunk_start_mod [of "Suc k"] range_end [of k "Suc n" s F fs] chunk_start_less [of "Suc k" "Suc (k + n)"]
  by (cases "n = 0") (auto simp: piece_range_def)

lemma at_end: "finalize_loop rc parallel fs F (int F) off st = st"
  using chunkceil_limit [of "int F" "int F"] chunk_bounds(3) [of "int F"] by (simp add: finalize_loop.simps [of _ _ _ _ "int F"] Let_def)

text \<open>One turn of the loop.\<close>

lemma loop_step:
  assumes r: "piece_range k n s F fs"
  shows "finalize_loop rc parallel fs F s off st =
    finalize_loop rc parallel fs F (s + int (chunk_len s F k)) (off + chunk_len s F k)
      (finalize_chunk rc parallel fs s (s + int (chunk_len s F k)) (word_of_nat (chunk_len s F k)) off st)"
proof -
  define e where "e = min (chunk_start (Suc k)) (int F)"
  note f = range_first [OF r, folded e_def]
  have l: "e = s + int (chunk_len s F k)" "e - s = int (chunk_len s F k)" using f(2,8) by simp_all
  have u: "unat (word_of_int (e - s) :: u32) = chunk_len s F k" "0 < chunk_len s F k" using f(2,6,8) by simp_all
  then have z: "(word_of_int (e - s) :: u32) \<noteq> 0" by auto
  have w: "(word_of_int (e - s) :: u32) = word_of_nat (chunk_len s F k)" unfolding l(2) by simp
  have "finalize_loop rc parallel fs F s off st =
    finalize_loop rc parallel fs F e (off + unat (word_of_int (e - s) :: u32)) (finalize_chunk rc parallel fs s e (word_of_int (e - s)) off st)"
    by (subst finalize_loop.simps) (simp only: Let_def f(4) z if_False)
  then show ?thesis unfolding u(1) unfolding w unfolding l(1) .
qed

lemma len_facts:
  assumes r: "piece_range k n s F fs"
  shows "0 < chunk_len s F k" "chunk_len s F k < 2 ^ 31" "unat (word_of_nat (chunk_len s F k) :: u32) = chunk_len s F k"
    "s + int (chunk_len s F k) = (if n = 0 then int F else chunk_start (Suc k))"
    "0 < n \<Longrightarrow> chunk_len s F k mod 16 = 0"
proof -
  define e where "e = min (chunk_start (Suc k)) (int F)"
  note f = range_first [OF r, folded e_def]
  show "0 < chunk_len s F k" "chunk_len s F k < 2 ^ 31" using f(2,7,8) by simp_all
  then show "unat (word_of_nat (chunk_len s F k) :: u32) = chunk_len s F k" by (subst unat_of_nat) simp
  show "s + int (chunk_len s F k) = (if n = 0 then int F else chunk_start (Suc k))" using f(2,8) range_end [OF r] by (simp add: e_def)
  show "0 < n \<Longrightarrow> chunk_len s F k mod 16 = 0"
  proof -
    assume n: "0 < n"
    have "int (chunk_len s F k) = chunk_start (Suc k) - s" using f(2,8) range_end [OF r] n by (simp add: e_def)
    then have "int (chunk_len s F k) mod 16 = 0" using chunk_start_mod [of "Suc k"] r by (simp add: piece_range_def mod_diff_eq [symmetric])
    then show ?thesis by (metis of_nat_eq_0_iff of_nat_mod of_nat_numeral)
  qed
qed

text \<open>No chunk of the range is begun.\<close>

definition not_begun :: "nat \<Rightarrow> nat \<Rightarrow> chunkmac_map \<Rightarrow> bool" where
  "not_begun k n m \<longleftrightarrow> (\<forall>i. k \<le> i \<longrightarrow> i \<le> k + n \<longrightarrow> (case map_find (mMacMap m) (chunk_start i) of None \<Rightarrow> True | Some c \<Rightarrow> notStarted c))"

lemma not_begun_first: "not_begun k n m \<Longrightarrow> case map_find (mMacMap m) (chunk_start k) of None \<Rightarrow> True | Some c \<Rightarrow> notStarted c"
  by (simp add: not_begun_def)

lemma not_finished_first: "not_begun k n m \<Longrightarrow> \<not> finishedAt m (chunk_start k)"
  using not_begun_first [of k n m] by (auto simp: finishedAt_def notStarted_def split: option.splits)

lemma not_begun_set: "map_wf (mMacMap m) \<Longrightarrow> not_begun k (Suc n) m \<Longrightarrow> not_begun (Suc k) n (m\<lparr>mMacMap := map_set (chunk_start k) c (mMacMap m)\<rparr>)"
  by (auto simp: not_begun_def map_find_map_set)

text \<open>The second pass over a chunk.\<close>

lemma worker_chunk:
  assumes r: "piece_range k n s F fs" and f: "counter_mode (rc_ctr_mode rc)" and ecb: "block_cipher (rc_ecb rc)"
    and src: "fz_source st = None" and b: "not_begun k n (fz_macs st)"
    and d: "take (blocks_len (chunk_len s F k)) (drop off (fz_mem st)) = rc_ctr_mode rc (ctr_block (rc_ctriv rc) (s div 16)) Q"
    and q: "length Q = blocks_len (chunk_len s F k)" and z: "\<And>i. chunk_len s F k \<le> i \<Longrightarrow> i < blocks_len (chunk_len s F k) \<Longrightarrow> Q ! i = 0"
  shows "finalize_chunk rc True fs s (s + int (chunk_len s F k)) (word_of_nat (chunk_len s F k)) off st =
    st\<lparr>fz_mem := take off (fz_mem st) @ Q @ drop (off + blocks_len (chunk_len s F k)) (fz_mem st),
      fz_macs := (fz_macs st)\<lparr>mMacMap := map_set (chunk_start k)
        \<lparr>cmac = mac_encrypt (rc_ecb rc) (rc_aligned rc) Q (int (chunk_len s F k)) (start_mac (rc_ctriv rc)), offset = 0, finished = True\<rparr>
        (mMacMap (fz_macs st))\<rparr>\<rparr>"
proof -
  note g = range_first [OF r] and l = len_facts [OF r]
  have e: "s + int (chunk_len s F k) = chunkceil (chunk_start k) (int fs)" using g(2,5,8) by simp
  have "chunk_ctr_decrypt (rc_ecb rc) (rc_ctr_mode rc) (rc_aligned rc) (chunk_start k) (drop off (fz_mem st)) (word_of_nat (chunk_len s F k)) s
      (rc_ctriv rc) True (fz_macs st) =
    (Q @ drop (blocks_len (chunk_len s F k)) (drop off (fz_mem st)),
     (fz_macs st)\<lparr>mMacMap := map_set (chunk_start k)
        \<lparr>cmac = mac_encrypt (rc_ecb rc) (rc_aligned rc) Q (int (chunk_len s F k)) (start_mac (rc_ctriv rc)), offset = 0, finished = True\<rparr>
        (mMacMap (fz_macs st))\<rparr>)"
    using decrypt_chunk [OF f ecb _ g(1), where len = "word_of_nat (chunk_len s F k)", unfolded l(3), OF l(2) d q z not_begun_first [OF b]] .
  then show ?thesis using not_finished_first [OF b] src
    by (simp add: finalize_chunk_def g(3) e Let_def add.commute)
qed

lemma entry_first:
  "piece_range k n s F fs \<Longrightarrow> chunk_entry rc P s F k =
    \<lparr>cmac = mac_encrypt (rc_ecb rc) (rc_aligned rc) (take (blocks_len (chunk_len s F k)) P) (int (chunk_len s F k)) (start_mac (rc_ctriv rc)),
      offset = 0, finished = True\<rparr>"
  by (simp add: chunk_entry_def chunk_from_def piece_range_def max_def)

lemma entry_next:
  assumes r: "piece_range k n s F fs" and i: "k < i" and e: "s + int l = chunk_start (Suc k)"
  shows "chunk_entry rc (drop l P) (chunk_start (Suc k)) F i = chunk_entry rc P s F i"
proof -
  have "chunk_start (Suc k) \<le> chunk_start i" using chunk_start_less [of "Suc k" i] i by (cases "i = Suc k") auto
  then have c: "chunk_from (chunk_start (Suc k)) i = chunk_start i" "chunk_from s i = chunk_start i"
    "nat (chunk_start i - chunk_start (Suc k)) + l = nat (chunk_start i - s)"
    using e by (simp_all add: chunk_from_def)
  then show ?thesis by (simp add: chunk_entry_def chunk_len_def add.commute)
qed

text \<open>What the second pass leaves: the plain bytes and the entries of the chunks.\<close>

definition pass_done :: "read_cipher \<Rightarrow> bytes \<Rightarrow> nat \<Rightarrow> nat \<Rightarrow> m_off_t \<Rightarrow> nat \<Rightarrow> nat \<Rightarrow> finalizing \<Rightarrow> finalizing \<Rightarrow> bool" where
  "pass_done rc P k n s F off st st' \<longleftrightarrow>
    fz_mem st' = take off (fz_mem st) @ P @ drop (off + length P) (fz_mem st) \<and>
    (\<forall>i. k \<le> i \<longrightarrow> i \<le> k + n \<longrightarrow> map_find (mMacMap (fz_macs st')) (chunk_start i) = Some (chunk_entry rc P s F i)) \<and>
    (\<forall>q. (\<forall>i. k \<le> i \<longrightarrow> i \<le> k + n \<longrightarrow> q \<noteq> chunk_start i) \<longrightarrow> map_find (mMacMap (fz_macs st')) q = map_find (mMacMap (fz_macs st)) q) \<and>
    map_wf (mMacMap (fz_macs st')) \<and> fz_queue st' = fz_queue st \<and> fz_source st' = fz_source st"

text \<open>The memory from \<open>off\<close> on holds the encrypted bytes of the range.\<close>

definition encrypted_at :: "read_cipher \<Rightarrow> bytes \<Rightarrow> m_off_t \<Rightarrow> nat \<Rightarrow> nat \<Rightarrow> bytes \<Rightarrow> bool" where
  "encrypted_at rc P s F off mem \<longleftrightarrow> length P = blocks_len (nat (int F - s)) \<and>
    take (length P) (drop off mem) = rc_ctr_mode rc (ctr_block (rc_ctriv rc) (s div 16)) P \<and>
    (\<forall>i. nat (int F - s) \<le> i \<longrightarrow> i < length P \<longrightarrow> P ! i = 0)"

lemma take_drop_append: "take l P @ drop l P @ zs = P @ zs"
  by (metis append_assoc append_take_drop_id)

lemma encrypted_cong: "drop off mem' = drop off mem \<Longrightarrow> encrypted_at rc P s F off mem \<Longrightarrow> encrypted_at rc P s F off mem'"
  unfolding encrypted_at_def by metis

lemma encrypted_room: "counter_mode (rc_ctr_mode rc) \<Longrightarrow> encrypted_at rc P s F off mem \<Longrightarrow> s < int F \<Longrightarrow> off + length P \<le> length mem"
proof -
  assume f: "counter_mode (rc_ctr_mode rc)" and e: "encrypted_at rc P s F off mem" and s: "s < int F"
  have t: "take (length P) (drop off mem) = rc_ctr_mode rc (ctr_block (rc_ctriv rc) (s div 16)) P" using e unfolding encrypted_at_def by blast
  have "length (take (length P) (drop off mem)) = length P" unfolding t using f by (simp add: counter_mode_def)
  moreover have "0 < length P" using e s blocks_len_ge [of "nat (int F - s)"] by (simp add: encrypted_at_def)
  ultimately show ?thesis unfolding length_take length_drop by linarith
qed

lemma split_encrypted:
  assumes f: "counter_mode (rc_ctr_mode rc)" and e: "encrypted_at rc P s F off mem" and l: "l mod 16 = 0" "int l < int F - s"
    and s: "0 \<le> s" "F < 2 ^ 62"
  shows "take l (drop off mem) = rc_ctr_mode rc (ctr_block (rc_ctriv rc) (s div 16)) (take l P)"
    "encrypted_at rc (drop l P) (s + int l) F (off + l) mem" "l \<le> length P"
proof -
  obtain n where n: "l = 16 * n" using l(1) by auto
  let ?f = "rc_ctr_mode rc" let ?c = "\<lambda>q. ctr_block (rc_ctriv rc) q"
  have p: "length P = blocks_len (nat (int F - s))" "take (length P) (drop off mem) = ?f (?c (s div 16)) P"
    "\<And>i. nat (int F - s) \<le> i \<Longrightarrow> i < length P \<Longrightarrow> P ! i = 0" using e by (auto simp: encrypted_at_def)
  have "nat (int F - s) = 16 * n + nat (int F - (s + int l))" using l(2) n by linarith
  then have len: "length P = l + blocks_len (nat (int F - (s + int l)))" using p(1) blocks_len_add [of n] n by simp
  then show lp: "l \<le> length P" by simp
  have law: "?f (?c (s div 16)) (xs @ ys) = ?f (?c (s div 16)) xs @ ?f (?c (s div 16 + int n)) ys" if "length xs = 16 * n" for xs ys
  proof -
    define q where "q = s div 16"
    have "0 \<le> q" "16 * q \<le> s" using s(1) mult_div_mod_eq [of 16 s] pos_mod_sign [of 16 s] by (simp_all add: q_def pos_imp_zdiv_nonneg_iff)
    then have "s div 16 \<le> s" unfolding q_def [symmetric] by linarith
    moreover have "s + int n < 2 ^ 63" using s l(2) n by simp
    ultimately have "s div 16 + int n < 2 ^ 63" by linarith
    then show ?thesis using f s(1) that unfolding counter_mode_def by (simp add: pos_imp_zdiv_nonneg_iff)
  qed
  have q: "(s + int l) div 16 = s div 16 + int n" using n by simp
  have fl: "length (?f iv xs) = length xs" for iv xs using f by (simp add: counter_mode_def)
  have both: "take (length P) (drop off mem) = ?f (?c (s div 16)) (take l P) @ ?f (?c (s div 16 + int n)) (drop l P)"
    unfolding p(2) using law [of "take l P" "drop l P"] lp n by simp
  have "take l (drop off mem) = take l (take (length P) (drop off mem))" using lp by (simp add: min_def)
  also have "\<dots> = ?f (?c (s div 16)) (take l P)" unfolding both using lp by (simp add: fl)
  finally show "take l (drop off mem) = ?f (?c (s div 16)) (take l P)" .
  have "take (length P - l) (drop (off + l) mem) = drop l (take (length P) (drop off mem))" by (simp add: drop_take add.commute)
  also have "\<dots> = ?f (?c ((s + int l) div 16)) (drop l P)" unfolding both q using lp by (simp add: fl)
  finally show "encrypted_at rc (drop l P) (s + int l) F (off + l) mem"
    using p(3) len l(2) by (auto simp: encrypted_at_def)
qed

lemma worker_loop:
  assumes "counter_mode (rc_ctr_mode rc)" "block_cipher (rc_ecb rc)"
  shows "piece_range k n s F fs \<Longrightarrow> fz_source st = None \<Longrightarrow> not_begun k n (fz_macs st) \<Longrightarrow> map_wf (mMacMap (fz_macs st)) \<Longrightarrow>
    encrypted_at rc P s F off (fz_mem st) \<Longrightarrow> pass_done rc P k n s F off st (finalize_loop rc True fs F s off st)"
proof (induction n arbitrary: k s off st P)
  case 0
  let ?l = "chunk_len s F k"
  note r = 0(1) and l = len_facts [OF 0(1)]
  have e: "int ?l = int F - s" using l(4) by simp
  then have ln: "nat (int F - s) = ?l" by simp
  have p: "length P = blocks_len ?l" "take (blocks_len ?l) (drop off (fz_mem st)) = rc_ctr_mode rc (ctr_block (rc_ctriv rc) (s div 16)) P"
    "\<And>i. ?l \<le> i \<Longrightarrow> i < blocks_len ?l \<Longrightarrow> P ! i = 0" using 0(5) unfolding encrypted_at_def ln by auto
  have w: "finalize_chunk rc True fs s (s + int ?l) (word_of_nat ?l) off st =
    st\<lparr>fz_mem := take off (fz_mem st) @ P @ drop (off + blocks_len ?l) (fz_mem st),
      fz_macs := (fz_macs st)\<lparr>mMacMap := map_set (chunk_start k) (chunk_entry rc P s F k) (mMacMap (fz_macs st))\<rparr>\<rparr>"
    using worker_chunk [OF r assms 0(2,3), of off P] p entry_first [OF r, of rc P] by simp
  have "s + int ?l = int F" using e by simp
  then have fl: "finalize_loop rc True fs F s off st = finalize_chunk rc True fs s (s + int ?l) (word_of_nat ?l) off st"
    using loop_step [OF r, of rc True off st] at_end by simp
  show ?case unfolding fl w
    using 0(4) p(1) by (auto simp: pass_done_def map_find_map_set map_wf_map_set)
next
  case (Suc n)
  let ?l = "chunk_len s F k" let ?Q = "take ?l P" let ?P = "drop ?l P"
  note r = Suc.prems(1) and l = len_facts [OF Suc.prems(1)] and r' = range_next [OF Suc.prems(1)]
  have e: "s + int ?l = chunk_start (Suc k)" using l(4) by simp
  have b: "blocks_len ?l = ?l" using l(5) blocks_len_add [of "?l div 16" 0] by (simp add: mult.commute [of 16] minus_mod_eq_div_mult [symmetric])
  have le: "int ?l < int F - s" using e r' by (simp add: piece_range_def)
  have fs: "0 \<le> s" "F < 2 ^ 62" using range_first(1) [OF r] r by (simp_all add: piece_range_def)
  note sp = split_encrypted [OF assms(1) Suc.prems(5) l(5) le fs, simplified]
  have z: "\<And>i. ?l \<le> i \<Longrightarrow> i < blocks_len ?l \<Longrightarrow> ?Q ! i = 0" using b by simp
  have w: "finalize_chunk rc True fs s (s + int ?l) (word_of_nat ?l) off st =
    st\<lparr>fz_mem := take off (fz_mem st) @ ?Q @ drop (off + ?l) (fz_mem st),
      fz_macs := (fz_macs st)\<lparr>mMacMap := map_set (chunk_start k) (chunk_entry rc P s F k) (mMacMap (fz_macs st))\<rparr>\<rparr>"
    using worker_chunk [OF r assms Suc.prems(2,3), of off ?Q] sp(1,3) z b entry_first [OF r, of rc P] by simp
  let ?st = "st\<lparr>fz_mem := take off (fz_mem st) @ ?Q @ drop (off + ?l) (fz_mem st),
      fz_macs := (fz_macs st)\<lparr>mMacMap := map_set (chunk_start k) (chunk_entry rc P s F k) (mMacMap (fz_macs st))\<rparr>\<rparr>"
  have fl: "finalize_loop rc True fs F s off st = finalize_loop rc True fs F (chunk_start (Suc k)) (off + ?l) ?st"
    using loop_step [OF r, of rc True off st] unfolding w unfolding e .
  have room: "off + length P \<le> length (fz_mem st)" using encrypted_room [OF assms(1) Suc.prems(5)] r by (simp add: piece_range_def)
  have "drop (off + ?l) (fz_mem ?st) = drop (off + ?l) (fz_mem st)" using room sp(3) by simp
  then have en: "encrypted_at rc ?P (chunk_start (Suc k)) F (off + ?l) (fz_mem ?st)"
    using sp(2) unfolding e by (rule encrypted_cong)
  have ih: "pass_done rc ?P (Suc k) n (chunk_start (Suc k)) F (off + ?l) ?st (finalize_loop rc True fs F s off st)"
    unfolding fl by (rule Suc.IH [OF r' _ _ _ en]) (use Suc.prems(2-4) not_begun_set in \<open>simp_all add: map_wf_map_set\<close>)
  show ?case unfolding pass_done_def
  proof (intro conjI allI impI)
    show "fz_mem (finalize_loop rc True fs F s off st) = take off (fz_mem st) @ P @ drop (off + length P) (fz_mem st)"
      using ih room sp(3) by (simp add: pass_done_def take_drop_append add.commute [of "length P" off])
  next
    fix i assume i: "k \<le> i" "i \<le> k + Suc n"
    show "map_find (mMacMap (fz_macs (finalize_loop rc True fs F s off st))) (chunk_start i) = Some (chunk_entry rc P s F i)"
    proof (cases "i = k")
      case True
      then show ?thesis using ih Suc.prems(4) by (simp add: pass_done_def map_find_map_set)
    next
      case False
      then show ?thesis using ih i entry_next [OF r _ e, of i rc P] by (simp add: pass_done_def)
    qed
  next
    fix q assume q: "\<forall>i. k \<le> i \<longrightarrow> i \<le> k + Suc n \<longrightarrow> q \<noteq> chunk_start i"
    then show "map_find (mMacMap (fz_macs (finalize_loop rc True fs F s off st))) q = map_find (mMacMap (fz_macs st)) q"
      using ih Suc.prems(4) q [rule_format, of k] by (simp add: pass_done_def map_find_map_set)
  qed (use ih in \<open>simp_all add: pass_done_def\<close>)
qed

text \<open>The first pass leaves whole chunks to the worker, and makes new entries for them in both maps.\<close>

definition pass_queued :: "nat \<Rightarrow> nat \<Rightarrow> chunkmac_map \<Rightarrow> chunkmac_map \<Rightarrow> bool" where
  "pass_queued k n m m' \<longleftrightarrow> map_wf (mMacMap m') \<and>
    (\<forall>i. k \<le> i \<longrightarrow> i \<le> k + n \<longrightarrow> map_find (mMacMap m') (chunk_start i) = Some new_chunk) \<and>
    (\<forall>q. (\<forall>i. k \<le> i \<longrightarrow> i \<le> k + n \<longrightarrow> q \<noteq> chunk_start i) \<longrightarrow> map_find (mMacMap m') q = map_find (mMacMap m) q)"

lemma first_chunk:
  assumes r: "piece_range k n s F fs" and m: "map_find (mMacMap (fz_macs st)) (chunk_start k) = None" and src: "fz_source st = Some src"
  shows "finalize_chunk rc False fs s (s + int (chunk_len s F k)) c off st =
    st\<lparr>fz_queue := True, fz_macs := (fz_macs st)\<lparr>mMacMap := map_set (chunk_start k) new_chunk (mMacMap (fz_macs st))\<rparr>,
      fz_source := Some (src\<lparr>mMacMap := map_set (chunk_start k) new_chunk (mMacMap src)\<rparr>)\<rparr>"
proof -
  note g = range_first [OF r]
  have e: "s + int (chunk_len s F k) = chunkceil (chunk_start k) (int fs)" using g(2,5,8) by simp
  show ?thesis using m src by (simp add: finalize_chunk_def g(3) e finishedAt_def copyEntryTo_def Let_def)
qed

lemma first_loop:
  "piece_range k n s F fs \<Longrightarrow> (\<forall>i. k \<le> i \<longrightarrow> i \<le> k + n \<longrightarrow> map_find (mMacMap (fz_macs st)) (chunk_start i) = None) \<Longrightarrow>
    map_wf (mMacMap (fz_macs st)) \<Longrightarrow> fz_source st = Some src \<Longrightarrow> map_wf (mMacMap src) \<Longrightarrow>
    \<exists>macs' src'. finalize_loop rc False fs F s off st = st\<lparr>fz_queue := True, fz_macs := macs', fz_source := Some src'\<rparr> \<and>
      pass_queued k n (fz_macs st) macs' \<and> pass_queued k n src src'"
proof (induction n arbitrary: k s off st src)
  case 0
  note r = 0(1) and l = len_facts [OF 0(1)]
  have e: "s + int (chunk_len s F k) = int F" using l(4) by simp
  have m: "map_find (mMacMap (fz_macs st)) (chunk_start k) = None" using 0(2) by simp
  have "finalize_loop rc False fs F s off st = finalize_chunk rc False fs s (s + int (chunk_len s F k)) (word_of_nat (chunk_len s F k)) off st"
    using loop_step [OF r, of rc False off st] e at_end by simp
  then show ?case unfolding first_chunk [OF r m 0(4)]
    using 0(3,5) by (intro exI conjI) (assumption, auto simp: pass_queued_def map_find_map_set map_wf_map_set)
next
  case (Suc n)
  note r = Suc.prems(1) and l = len_facts [OF Suc.prems(1)] and r' = range_next [OF Suc.prems(1)]
  have e: "s + int (chunk_len s F k) = chunk_start (Suc k)" using l(4) by simp
  have m: "map_find (mMacMap (fz_macs st)) (chunk_start k) = None" using Suc.prems(2) by simp
  let ?macs = "(fz_macs st)\<lparr>mMacMap := map_set (chunk_start k) new_chunk (mMacMap (fz_macs st))\<rparr>"
  let ?src = "src\<lparr>mMacMap := map_set (chunk_start k) new_chunk (mMacMap src)\<rparr>"
  let ?st = "st\<lparr>fz_queue := True, fz_macs := ?macs, fz_source := Some ?src\<rparr>"
  have fl: "finalize_loop rc False fs F s off st = finalize_loop rc False fs F (chunk_start (Suc k)) (off + chunk_len s F k) ?st"
    using loop_step [OF r, of rc False off st] unfolding first_chunk [OF r m Suc.prems(4)] unfolding e .
  have "\<forall>i. Suc k \<le> i \<longrightarrow> i \<le> Suc k + n \<longrightarrow> map_find (mMacMap ?macs) (chunk_start i) = None"
    using Suc.prems(2,3) by (simp add: map_find_map_set)
  then obtain macs' src' where h: "finalize_loop rc False fs F s off st = ?st\<lparr>fz_queue := True, fz_macs := macs', fz_source := Some src'\<rparr>"
      "pass_queued (Suc k) n ?macs macs'" "pass_queued (Suc k) n ?src src'"
    unfolding fl using Suc.IH [OF r', of ?st ?src "off + chunk_len s F k"] Suc.prems(3,5) by (auto simp: map_wf_map_set)
  have "pass_queued k (Suc n) m m'" if "pass_queued (Suc k) n (m\<lparr>mMacMap := map_set (chunk_start k) new_chunk (mMacMap m)\<rparr>) m'"
      "map_wf (mMacMap m)" for m m' :: chunkmac_map
  proof -
    have "map_find (mMacMap m') (chunk_start i) = Some new_chunk" if "k \<le> i" "i \<le> k + Suc n" for i
      using that \<open>pass_queued (Suc k) n _ m'\<close> \<open>map_wf (mMacMap m)\<close>
      by (cases "i = k") (simp_all add: pass_queued_def map_find_map_set)
    then show ?thesis using that by (auto simp: pass_queued_def map_find_map_set)
  qed
  then show ?case using h Suc.prems(3,5) by auto
qed

section \<open>Pieces\<close>

text \<open>The memory of a piece holds the encrypted bytes of a range of the file that ends with a chunk or with the file.\<close>

definition encrypted_piece :: "read_cipher \<Rightarrow> bytes \<Rightarrow> nat \<Rightarrow> nat \<Rightarrow> nat \<Rightarrow> FilePiece \<Rightarrow> bool" where
  "encrypted_piece rc P k n fs p \<longleftrightarrow> \<not> isNull (pbuf p) \<and> piece_range k n (int (ppos p)) (ppos p + datalen (pbuf p)) fs \<and>
    length P = blocks_len (datalen (pbuf p)) \<and> (\<forall>i. datalen (pbuf p) \<le> i \<longrightarrow> i < length P \<longrightarrow> P ! i = 0) \<and>
    take (length P) (datastart (pbuf p)) = rc_ctr_mode rc (ctr_block (rc_ctriv rc) (int (ppos p) div 16)) P"

lemma encrypted_pieceD:
  assumes "encrypted_piece rc P k n fs p"
  shows "encrypted_at rc P (int (ppos p)) (ppos p + datalen (pbuf p)) 0 (datastart (pbuf p))"
    "piece_range k n (int (ppos p)) (ppos p + datalen (pbuf p)) fs" "\<not> isNull (pbuf p)"
    "ppos p + datalen (pbuf p) \<noteq> fs \<Longrightarrow> (ppos p + datalen (pbuf p)) mod 16 = 0"
proof -
  let ?F = "ppos p + datalen (pbuf p)"
  have n: "nat (int ?F - int (ppos p)) = datalen (pbuf p)" by simp
  show "encrypted_at rc P (int (ppos p)) ?F 0 (datastart (pbuf p))"
    using assms unfolding encrypted_piece_def encrypted_at_def n drop_0 by metis
  show r: "piece_range k n (int (ppos p)) ?F fs" "\<not> isNull (pbuf p)" using assms by (simp_all add: encrypted_piece_def)
  assume "?F \<noteq> fs"
  then have "int ?F = chunk_start (Suc (k + n))" using r by (simp add: piece_range_def)
  then have "int ?F mod 16 = 0" using chunk_start_mod by simp
  then show "?F mod 16 = 0" by (metis of_nat_eq_0_iff of_nat_mod of_nat_numeral)
qed

lemma finalpos_eq:
  "encrypted_piece rc P k n fs p \<Longrightarrow> piece_finalize rc parallel fs source p =
    (let st = finalize_loop rc parallel fs (ppos p + datalen (pbuf p)) (int (ppos p)) 0
       \<lparr>fz_queue = False, fz_mem = datastart (pbuf p), fz_macs = pmacs p, fz_source = source\<rparr>
     in (fz_queue st, (buf_write 0 (fz_mem st) p)\<lparr>pmacs := fz_macs st, pfinalized := \<not> fz_queue st\<rparr>, fz_source st))"
  using encrypted_pieceD(4) [of rc P k n fs p] by (simp add: piece_finalize_def Let_def BLOCKSIZE_def)

lemma rewrite_same: "\<not> isNull (pbuf p) \<Longrightarrow> buf_write 0 (datastart (pbuf p)) p = p"
  by (auto simp: buf_write_def isNull_def datastart_def write_at_def)

lemma written_start:
  assumes "\<not> isNull (pbuf p)" "length xs = length (datastart (pbuf p))" "0 < length xs"
  shows "datastart (pbuf (buf_write 0 xs p)) = xs" "datalen (pbuf (buf_write 0 xs p)) = datalen (pbuf p)"
  using assms by (auto simp: buf_write_def isNull_def datastart_def write_at_def datalen_def)

lemma piece_passes:
  assumes f: "counter_mode (rc_ctr_mode rc)" "block_cipher (rc_ecb rc)" and e: "encrypted_piece rc P k n fs p"
    and m: "mMacMap (pmacs p) = []" "map_wf (mMacMap macs)"
    and d: "decrypt_piece rc fs macs p = (p', macs')"
  shows "piece_bytes p' = take (datalen (pbuf p)) P" "pfinalized p'" "ppos p' = ppos p" "datalen (pbuf p') = datalen (pbuf p)"
    "\<forall>i. k \<le> i \<longrightarrow> i \<le> k + n \<longrightarrow>
      map_find (mMacMap (pmacs p')) (chunk_start i) = Some (chunk_entry rc P (int (ppos p)) (ppos p + datalen (pbuf p)) i)"
    "pass_queued k n macs macs'"
proof -
  let ?F = "ppos p + datalen (pbuf p)" let ?s = "int (ppos p)"
  note e' = encrypted_pieceD [OF e]
  let ?st = "\<lparr>fz_queue = False, fz_mem = datastart (pbuf p), fz_macs = pmacs p, fz_source = Some macs\<rparr>"
  obtain m1 s1 where l1: "finalize_loop rc False fs ?F ?s 0 ?st = ?st\<lparr>fz_queue := True, fz_macs := m1, fz_source := Some s1\<rparr>"
    and q: "pass_queued k n (pmacs p) m1" "pass_queued k n macs s1"
    using first_loop [OF e'(2), of ?st macs rc 0] m by (auto simp: map_find_def)
  let ?p1 = "p\<lparr>pmacs := m1, pfinalized := False\<rparr>"
  have f1: "piece_finalize rc False fs (Some macs) p = (True, ?p1, Some s1)"
    using rewrite_same [OF e'(3)] by (simp add: finalpos_eq [OF e] l1 Let_def)
  have e1: "encrypted_piece rc P k n fs ?p1" using e unfolding encrypted_piece_def by simp (metis)
  let ?st1 = "\<lparr>fz_queue = False, fz_mem = datastart (pbuf p), fz_macs = m1, fz_source = None\<rparr>"
  define st2 where "st2 = finalize_loop rc True fs ?F ?s 0 ?st1"
  have b: "not_begun k n m1" using q(1) by (auto simp: pass_queued_def not_begun_def notStarted_def new_chunk_def)
  have w: "pass_done rc P k n ?s ?F 0 ?st1 st2" unfolding st2_def
    by (rule worker_loop [OF f e'(2)]) (use b q(1) e'(1) in \<open>simp_all add: pass_queued_def\<close>)
  let ?xs = "P @ drop (length P) (datastart (pbuf p))"
  have w': "fz_mem st2 = ?xs" "\<not> fz_queue st2" using w by (simp_all add: pass_done_def)
  have room: "length P \<le> length (datastart (pbuf p))" using encrypted_room [OF f(1) e'(1)] e'(2) by (simp add: piece_range_def)
  have pos: "0 < datalen (pbuf p)" using e'(2) by (simp add: piece_range_def)
  have "length P = blocks_len (datalen (pbuf p))" using e unfolding encrypted_piece_def by blast
  then have dl: "datalen (pbuf p) \<le> length P" using blocks_len_ge [of "datalen (pbuf p)"] by simp
  then have "0 < length P" using pos by linarith
  then have len: "length ?xs = length (datastart (pbuf p))" "datalen (pbuf p) \<le> length P" "0 < length ?xs" using room dl by auto
  have p2: "p' = (buf_write 0 ?xs ?p1)\<lparr>pmacs := fz_macs st2, pfinalized := True\<rparr>" and s': "macs' = s1"
    using d unfolding decrypt_piece_def f1 by (simp_all add: finalpos_eq [OF e1] Let_def w' flip: st2_def)
  have p1: "\<not> isNull (pbuf ?p1)" "length ?xs = length (datastart (pbuf ?p1))" using e'(3) len by simp_all
  note ws = written_start [OF p1 len(3)]
  show "piece_bytes p' = take (datalen (pbuf p)) P" using ws len(2) by (simp add: piece_bytes_def p2)
  show "pfinalized p'" "ppos p' = ppos p" "datalen (pbuf p') = datalen (pbuf p)" using ws by (simp_all add: p2 buf_write_def)
  show "\<forall>i. k \<le> i \<longrightarrow> i \<le> k + n \<longrightarrow>
      map_find (mMacMap (pmacs p')) (chunk_start i) = Some (chunk_entry rc P ?s ?F i)" using w by (simp add: p2 pass_done_def)
  show "pass_queued k n macs macs'" using q(2) s' by simp
qed

lemma upload_entry:
  assumes "0 < l" "l < 2 ^ 31" "length Q = blocks_len l"
  shows "map_find (mMacMap (snd (chunk_ctr_encrypt ecb f a cid Q (word_of_nat l) cid v True new_chunkmac_map))) cid =
    Some \<lparr>cmac = mac_encrypt ecb a Q (int l) (start_mac v), offset = 0, finished = True\<rparr>"
proof -
  have l: "unat (word_of_nat l :: u32) = l" by (subst unat_of_nat) (use assms(2) in simp)
  have "ctr_crypt ecb f a Q (word_of_nat l) cid v (Some (cmac new_chunk)) True True =
    (f (ctr_block v (cid sdiv 16)) Q, Some (mac_encrypt ecb a Q (int l) (start_mac v)))"
    using ctr_crypt_encrypt [of "word_of_nat l" Q ecb f a cid v "cmac new_chunk" True] l assms by simp
  then show ?thesis by (simp add: chunk_ctr_encrypt_def new_chunkmac_map_def new_chunk_def map_find_def Let_def)
qed

text \<open>The bytes of chunk \<open>i\<close> in a piece of whole chunks, padded.\<close>

definition chunk_bytes :: "bytes \<Rightarrow> m_off_t \<Rightarrow> nat \<Rightarrow> nat \<Rightarrow> bytes" where
  "chunk_bytes P s F i = take (blocks_len (chunk_len s F i)) (drop (nat (chunk_start i - s)) P)"

lemma chunk_in_piece:
  assumes r: "piece_range k n s F fs" and s: "s = chunk_start k" and i: "k \<le> i" "i \<le> k + n" and p: "length P = blocks_len (nat (int F - s))"
  shows "0 < chunk_len s F i" "chunk_len s F i < 2 ^ 31" "length (chunk_bytes P s F i) = blocks_len (chunk_len s F i)"
    "chunk_entry rc P s F i = \<lparr>cmac = mac_encrypt (rc_ecb rc) (rc_aligned rc) (chunk_bytes P s F i) (int (chunk_len s F i)) (start_mac (rc_ctriv rc)),
      offset = 0, finished = True\<rparr>"
proof -
  have ki: "chunk_start k \<le> chunk_start i" using chunk_start_less [of k i] i by (cases "i = k") auto
  have iF: "chunk_start i < int F" using r i chunk_start_less [of i "k + n"] by (cases "i = k + n") (auto simp: piece_range_def)
  have c: "chunk_from s i = chunk_start i" using ki s by (simp add: chunk_from_def)
  show l: "0 < chunk_len s F i" "chunk_len s F i < 2 ^ 31"
    using chunk_start_Suc [of i] iF c by (simp_all add: chunk_len_def)
  obtain m where m: "nat (chunk_start i - s) = 16 * m"
  proof -
    have "(chunk_start i - s) mod 16 = 0" using chunk_start_mod [of i] chunk_start_mod [of k] s by (simp add: mod_diff_eq [symmetric])
    then obtain x where "chunk_start i - s = 16 * x" by auto
    then show ?thesis using that [of "nat x"] ki s by (simp add: nat_mult_distrib)
  qed
  have "16 * m + chunk_len s F i \<le> nat (int F - s)" using c ki iF s m by (simp add: chunk_len_def)
  then have "blocks_len (16 * m + chunk_len s F i) \<le> blocks_len (nat (int F - s))" unfolding blocks_len_def by (intro mult_le_mono1 div_le_mono) simp
  then show "length (chunk_bytes P s F i) = blocks_len (chunk_len s F i)" using p m by (simp add: chunk_bytes_def blocks_len_add)
  show "chunk_entry rc P s F i = \<lparr>cmac = mac_encrypt (rc_ecb rc) (rc_aligned rc) (chunk_bytes P s F i) (int (chunk_len s F i)) (start_mac (rc_ctriv rc)),
      offset = 0, finished = True\<rparr>" by (simp add: chunk_entry_def chunk_bytes_def c)
qed

section \<open>Ranges\<close>

text \<open>The ends of chunks: a position that is the start of one, or the end of the file.\<close>

definition boundary :: "m_off_t \<Rightarrow> m_off_t \<Rightarrow> bool" where
  "boundary fsize q \<longleftrightarrow> q = fsize \<or> chunkfloor q = q"

definition unbegun_at :: "chunkmac_map \<Rightarrow> m_off_t \<Rightarrow> bool" where
  "unbegun_at m q \<longleftrightarrow> (case map_find (mMacMap m) q of None \<Rightarrow> True | Some c \<Rightarrow> notStarted c)"

lemma ceil_least: "0 \<le> x \<Longrightarrow> x < q \<Longrightarrow> chunkfloor q = q \<Longrightarrow> chunkceil x (- 1) \<le> q"
  using chunk_bounds(2) [of x] chunk_bounds(7) [of x q] by linarith

lemma ceil_limit: "0 \<le> fsize \<Longrightarrow> chunkceil x fsize = min (chunkceil x (- 1)) fsize"
  using chunkceil_limit [of x fsize] by (simp add: Let_def min_def)

lemma ceil_facts:
  assumes "0 \<le> x" "x < fsize"
  shows "x < chunkceil x fsize" "chunkceil x fsize \<le> fsize" "boundary fsize (chunkceil x fsize)" "0 \<le> chunkceil x fsize"
  using assms chunk_bounds(3,6) [OF assms(1)] by (auto simp: ceil_limit boundary_def min_def)

lemma double_loop_returns:
  assumes "0 < val"
  shows "\<exists>v. double_loop val m = Some v \<and> m < v"
  using assms
proof (induction "nat (m + 1 - val)" arbitrary: val rule: less_induct)
  case less
  show ?case
  proof (cases "val \<le> m")
    case True
    have p: "push_bit 1 val = 2 * val" by (simp add: push_bit_eq_mult)
    then have "nat (m + 1 - push_bit 1 val) < nat (m + 1 - val)" using True less.prems by linarith
    from less.hyps [OF this] show ?thesis using True less.prems p by (simp add: double_loop.simps [of val])
  qed (simp add: double_loop.simps)
qed

text \<open>The loop that pads to lines ends at the latest with the whole file.\<close>

lemma pad_loop_step:
  "nx < fsize \<and> (nx - pos) mod RAIDLINE \<noteq> 0 \<Longrightarrow>
    pad_loop pos fsize r nx = pad_loop pos fsize (chunkceil r fsize) (chunkceil (pos + chunkceil r fsize) fsize)"
  "\<not> (nx < fsize \<and> (nx - pos) mod RAIDLINE \<noteq> 0) \<Longrightarrow> pad_loop pos fsize r nx = Some r"
  unfolding pad_loop.simps [of pos fsize r nx] Let_def by (simp_all only: if_True if_False simp_thms)

lemma whole_file_end: "0 \<le> pos \<Longrightarrow> fsize \<le> r \<Longrightarrow> 0 < fsize \<Longrightarrow> chunkceil (pos + r) fsize = fsize"
  using chunk_bounds(3) [of "pos + r"] ceil_limit [of fsize "pos + r"] by linarith

lemma pad_loop_returns:
  "0 \<le> pos \<Longrightarrow> 0 \<le> r \<Longrightarrow> 0 < fsize \<Longrightarrow> \<exists>r'. pad_loop pos fsize r (chunkceil (pos + r) fsize) = Some r' \<and> 0 \<le> r' \<and>
    (chunkceil (pos + r') fsize = fsize \<or> (chunkceil (pos + r') fsize - pos) mod RAIDLINE = 0)"
proof (induction "nat (fsize - r)" arbitrary: r rule: less_induct)
  case less
  let ?nx = "chunkceil (pos + r) fsize"
  show ?case
  proof (cases "?nx < fsize \<and> (?nx - pos) mod RAIDLINE \<noteq> 0")
    case True
    then have "r < fsize" using whole_file_end [OF less.prems(1) _ less.prems(3), of r] by linarith
    note c = ceil_facts [OF less.prems(2) this]
    have "nat (fsize - chunkceil r fsize) < nat (fsize - r)" using c(1,2) by linarith
    from less.hyps [OF this less.prems(1) c(4) less.prems(3)] show ?thesis unfolding pad_loop_step(1) [OF True] .
  next
    case False
    have "?nx \<le> fsize" using ceil_limit [of fsize "pos + r"] less.prems(3) by linarith
    then show ?thesis using False less.prems(2) unfolding pad_loop_step(2) [OF False] by (metis order_le_less)
  qed
qed

text \<open>The range grows by whole chunks that nobody has begun.\<close>

lemma expand_step:
  "npos < fsize \<and> npos - pos < r \<and> unbegun_at m npos \<Longrightarrow>
    expandUnprocessedPiece m pos npos fsize r = expandUnprocessedPiece m pos (chunkceil npos fsize) fsize r"
  "\<not> (npos < fsize \<and> npos - pos < r \<and> unbegun_at m npos) \<Longrightarrow> expandUnprocessedPiece m pos npos fsize r = Some npos"
  unfolding expandUnprocessedPiece.simps [of m pos npos] unbegun_at_def by (simp_all only: if_True if_False simp_thms)

lemma expand_range:
  "0 \<le> npos \<Longrightarrow> boundary fsize npos \<Longrightarrow> npos \<le> fsize \<Longrightarrow> \<exists>e. expandUnprocessedPiece m pos npos fsize r = Some e \<and>
    npos \<le> e \<and> e \<le> fsize \<and> boundary fsize e \<and> (\<forall>q. npos \<le> q \<longrightarrow> q < e \<longrightarrow> chunkfloor q = q \<longrightarrow> unbegun_at m q)"
proof (induction "nat (fsize - npos)" arbitrary: npos rule: less_induct)
  case less
  show ?case
  proof (cases "npos < fsize \<and> npos - pos < r \<and> unbegun_at m npos")
    case True
    let ?n = "chunkceil npos fsize"
    have lt: "npos < fsize" using True by blast
    note c = ceil_facts [OF less.prems(1) lt]
    have "nat (fsize - ?n) < nat (fsize - npos)" using c(1,2) by linarith
    from less.hyps [OF this c(4,3,2)]
    obtain e where e: "expandUnprocessedPiece m pos ?n fsize r = Some e" "?n \<le> e" "e \<le> fsize" "boundary fsize e"
      "\<forall>q. ?n \<le> q \<longrightarrow> q < e \<longrightarrow> chunkfloor q = q \<longrightarrow> unbegun_at m q" by blast
    have "unbegun_at m q" if q: "npos \<le> q" "q < e" "chunkfloor q = q" for q
    proof (cases "q = npos")
      case False
      then have "chunkceil npos (- 1) \<le> q" using ceil_least [OF less.prems(1), of q] q by simp
      then have "?n \<le> q" using ceil_limit [of fsize npos] lt less.prems(1) by linarith
      then show ?thesis using e(5) q by blast
    qed (use True in simp)
    moreover have "npos \<le> e" using c(1) e(2) by linarith
    ultimately show ?thesis unfolding expand_step(1) [OF True] using e(1,3,4) by blast
  next
    case False
    show ?thesis unfolding expand_step(2) [OF False] using less.prems by force
  qed
qed

text \<open>With nothing begun ahead, the range ends with the chunk at the given size.\<close>

lemma expand_exact:
  "pos < npos \<Longrightarrow> 0 \<le> pos \<Longrightarrow> 0 \<le> r \<Longrightarrow> boundary fsize npos \<Longrightarrow> npos \<le> chunkceil (pos + r) fsize \<Longrightarrow> 0 < fsize \<Longrightarrow>
    \<forall>q. pos < q \<longrightarrow> unbegun_at m q \<Longrightarrow> expandUnprocessedPiece m pos npos fsize (r + 1) = Some (chunkceil (pos + r) fsize)"
proof (induction "nat (fsize - npos)" arbitrary: npos rule: less_induct)
  case less
  let ?e = "chunkceil (pos + r) fsize"
  have ef: "?e = min (chunkceil (pos + r) (- 1)) fsize" using ceil_limit [of fsize "pos + r"] less.prems(6) by simp
  have pr: "0 \<le> pos + r" "0 \<le> npos" using less.prems by simp_all
  have u: "unbegun_at m npos" using less.prems(1,7) by blast
  show ?case
  proof (cases "npos < fsize \<and> npos - pos < r + 1")
    case True
    then have lt: "npos < fsize" "npos \<le> pos + r" and go: "npos < fsize \<and> npos - pos < r + 1 \<and> unbegun_at m npos" using u by auto
    note c = ceil_facts [OF pr(2) lt(1)]
    have "chunkceil npos (- 1) \<le> chunkceil (pos + r) (- 1)"
      using ceil_least [OF pr(2)] chunk_bounds(3,6) [OF pr(1)] lt(2) by force
    then have le: "chunkceil npos fsize \<le> ?e" using ef ceil_limit [of fsize npos] less.prems(6) by linarith
    have "nat (fsize - chunkceil npos fsize) < nat (fsize - npos)" using c(1,2) by linarith
    moreover have "pos < chunkceil npos fsize" using c(1) less.prems(1) by linarith
    ultimately show ?thesis unfolding expand_step(1) [OF go] using less.hyps less.prems c(3) le by blast
  next
    case False
    then have n: "\<not> (npos < fsize \<and> npos - pos < r + 1 \<and> unbegun_at m npos)" by blast
    have "npos = ?e"
    proof (cases "npos < fsize")
      case True
      then have "pos + r < npos" "chunkfloor npos = npos" using False less.prems(4) by (auto simp: boundary_def)
      then have "chunkceil (pos + r) (- 1) \<le> npos" using ceil_least [OF pr(1)] by blast
      then show ?thesis using less.prems(5) ef by linarith
    qed (use less.prems(5) ef in linarith)
    then show ?thesis unfolding expand_step(2) [OF n] by simp
  qed
qed

lemma line_offset: "0 \<le> x \<Longrightarrow> offsetToRaidLine (nat x) = 0 \<longleftrightarrow> x mod RAIDLINE = 0"
proof -
  assume x: "0 \<le> x"
  have "int (nat x mod 80) = x mod 80" using x by (simp add: zmod_int)
  then show ?thesis unfolding offsetToRaidLine_def LINE_80 by (simp add: RAIDLINE_def flip: of_nat_eq_0_iff [where ?'a = int])
qed

lemma sdiv_nonneg_4: "0 \<le> x \<Longrightarrow> 0 \<le> x sdiv (4 :: int)"
  by (cases "x = 0") (simp_all add: signed_divide_int_def sgn_if pos_imp_zdiv_nonneg_iff)

lemma new_raid_size:
  assumes "0 \<le> pos" "0 < fsize"
  shows "\<exists>r. new_raid_request_size pos fsize conn = Some (r + 1) \<and> 0 \<le> r \<and>
    (chunkceil (pos + r) fsize = fsize \<or> (chunkceil (pos + r) fsize - pos) mod RAIDLINE = 0)"
proof -
  define m where "m = max (MAX_REQ_SIZE_NEW_RAID * int EFFECTIVE_RAIDPARTS * 4 sdiv conn) (1 * 1024 * 1024 * int EFFECTIVE_RAIDPARTS)"
  define r where "r = (if fsize \<le> UPPER_FILESIZE_LIMIT_FOR_SMALLER_CHUNKS then fsize sdiv 4 else min m fsize)"
  have "0 \<le> m" unfolding m_def by (rule order_trans [OF _ max.cobounded2]) (simp add: EFFECTIVE_RAIDPARTS_def)
  then have "0 \<le> r" using assms(2) sdiv_nonneg_4 [of fsize] by (simp add: r_def)
  from pad_loop_returns [OF assms(1) this assms(2)]
  obtain r' where p: "pad_loop pos fsize r (chunkceil (pos + r) fsize) = Some r'" "0 \<le> r'"
    "chunkceil (pos + r') fsize = fsize \<or> (chunkceil (pos + r') fsize - pos) mod RAIDLINE = 0" by (elim exE conjE)
  have "new_raid_request_size pos fsize conn = map_option (\<lambda>m. m + 1) (pad_loop pos fsize r (chunkceil (pos + r) fsize))"
    unfolding new_raid_request_size_def Let_def r_def m_def ..
  also have "\<dots> = Some (r' + 1)" unfolding p(1) by simp
  finally show ?thesis using p(2,3) by (intro exI conjI)
qed

lemma request_size_returns:
  assumes "0 \<le> rq_pos t" "0 < rq_size t"
  shows "\<exists>r. request_size newRaid npos mx cc us t = Some r"
proof -
  obtain r where "new_raid_request_size (rq_pos t) (rq_size t) (rq_connections t) = Some r" using new_raid_size [OF assms] by blast
  moreover have "\<exists>r. get_request_size (rq_size t) (rq_progress t) mx cc = Some r"
    using double_loop_returns [of "0x100000"] by (auto simp: get_request_size_def Let_def)
  ultimately show ?thesis by (cases "rq_type t") (auto simp: request_size_def)
qed

lemma next_pos_returns: "0 \<le> pos \<Longrightarrow> \<exists>p. nextUnprocessedPosFrom m pos = Some p \<and> pos \<le> p"
  by (rule nextUnprocessedPosFrom_returns [where hi = "Max (insert 0 (fst ` set (mMacMap m)))"]) auto

lemma next_pos_here: "unbegun_at m (chunkfloor pos) \<Longrightarrow> nextUnprocessedPosFrom m pos = Some pos"
  by (auto simp: nextUnprocessedPosFrom.simps [of m pos] unbegun_at_def notStarted_def split: option.splits)

section \<open>Properties\<close>


text \<open>A small file of 20 bytes, with a cipher that is easy to undo.\<close>

definition demo_cipher :: read_cipher where
  "demo_cipher = \<lparr>rc_ecb = rev, rc_ctr_mode = (\<lambda>iv. map (\<lambda>b. b XOR 90)), rc_aligned = True, rc_ctriv = 77\<rparr>"

definition plain20 :: bytes where
  "plain20 = map word_of_nat [1..<21] @ replicate 12 0"

definition piece20 :: "nat \<Rightarrow> FilePiece" where
  "piece20 start = piece_of start \<lparr>hbuf = Some (map (\<lambda>b. b XOR 90) (drop start plain20)), hstart = 0, hend = 20 - start\<rparr>"

lemma demo_cipher_laws: "counter_mode (rc_ctr_mode demo_cipher)" "block_cipher (rc_ecb demo_cipher)"
  by (auto simp: demo_cipher_def counter_mode_def block_cipher_def comp_def xor.assoc)

lemma piece20_range: "piece_range 0 0 0 20 20" "piece_range 0 0 16 20 20"
  by (simp_all add: piece_range_def chunk_start_def SEGSIZE_def)

lemma zero_tail:
  assumes "list_all (\<lambda>b. b = 0) (drop l xs)" "l \<le> i" "i < length xs"
  shows "xs ! i = (0 :: byte)"
proof -
  obtain n where "i = l + n" using assms(2) le_Suc_ex by blast
  then show ?thesis using assms(1,3) by (simp add: list_all_length)
qed

lemma piece20_facts:
  "\<not> isNull (pbuf (piece20 0))" "\<not> isNull (pbuf (piece20 16))" "datalen (pbuf (piece20 0)) = 20" "datalen (pbuf (piece20 16)) = 4"
  "ppos (piece20 0) = 0" "ppos (piece20 16) = 16" "mMacMap (pmacs (piece20 s)) = []" "length plain20 = 32" "blocks_len 20 = 32" "blocks_len 4 = 16"
  "datastart (pbuf (piece20 s)) = map (\<lambda>b. b XOR 90) (drop s plain20)"
  by (simp_all add: piece20_def piece_of_def isNull_def datalen_def datastart_def plain20_def blocks_len_def new_chunkmac_map_def)

lemma plain20_tail: "list_all (\<lambda>b. b = 0) (drop 20 plain20)" "list_all (\<lambda>b. b = 0) (drop 4 (drop 16 plain20))"
  by code_simp+

lemma piece20_encrypted:
  "encrypted_piece demo_cipher plain20 0 0 20 (piece20 0)" "encrypted_piece demo_cipher (drop 16 plain20) 0 0 20 (piece20 16)"
proof -
  have "\<forall>i. 20 \<le> i \<longrightarrow> i < length plain20 \<longrightarrow> plain20 ! i = 0" using zero_tail [OF plain20_tail(1)] by blast
  then show "encrypted_piece demo_cipher plain20 0 0 20 (piece20 0)"
    using piece20_range by (simp add: encrypted_piece_def piece20_facts demo_cipher_def)
  have "\<forall>i. 4 \<le> i \<longrightarrow> i < length (drop 16 plain20) \<longrightarrow> drop 16 plain20 ! i = 0" using zero_tail [OF plain20_tail(2)] by blast
  then show "encrypted_piece demo_cipher (drop 16 plain20) 0 0 20 (piece20 16)"
    using piece20_range by (simp add: encrypted_piece_def piece20_facts demo_cipher_def)
qed


text \<open>
  C38: A chunk that arrives in two pieces loses the MAC of its first part.  When a piece begins inside a chunk, the first pass is meant to
  continue with the entry that the transfer's map has for the chunk; instead it overwrites that entry with a new one, and the MAC of the
  chunk is computed from the second piece alone, whatever the transfer's map held.
\<close>

theorem partial_chunk_restarts:
  assumes "counter_mode (rc_ctr_mode rc)" "block_cipher (rc_ecb rc)" "encrypted_piece rc P k n fs p" "chunk_start k < int (ppos p)"
    "mMacMap (pmacs p) = []" "map_wf (mMacMap macs)" "decrypt_piece rc fs macs p = (p', macs')"
  shows "map_find (mMacMap macs') (chunk_start k) = Some new_chunk \<and>
    (let len = chunk_len (int (ppos p)) (ppos p + datalen (pbuf p)) k
     in map_find (mMacMap (pmacs p')) (chunk_start k) =
       Some \<lparr>cmac = mac_encrypt (rc_ecb rc) (rc_aligned rc) (take (blocks_len len) P) (int len) (start_mac (rc_ctriv rc)), offset = 0, finished = True\<rparr>)"
  using piece_passes(5,6) [OF assms(1-3,5,6,7)] entry_first [OF encrypted_pieceD(2) [OF assms(3)], of rc P] by (simp add: pass_queued_def Let_def)

text \<open>The transfer's map after the first 16 of the 20 bytes, as \<^verbatim>\<open>ctr_decrypt\<close> leaves it.\<close>

definition half_macs :: chunkmac_map where
  "half_macs = snd (chunk_ctr_decrypt rev (\<lambda>iv. map (\<lambda>b. b XOR 90)) True 0 (map (\<lambda>b. b XOR 90) (take 16 plain20)) 16 0 77 False new_chunkmac_map)"

lemma half_facts: "map_wf (mMacMap half_macs)" "map_find (mMacMap half_macs) 0 \<noteq> Some new_chunk"
  by (simp_all add: half_macs_def chunk_ctr_decrypt_def ctr_crypt_def new_chunkmac_map_def map_find_def new_chunk_def notStarted_def map_wf_Cons Let_def)

lemma plain20_eq: "plain20 = [1, 2, 3, 4, 5, 6, 7, 8, 9, 10, 11, 12, 13, 14, 15, 16, 17, 18, 19, 20, 0, 0, 0, 0, 0, 0, 0, 0, 0, 0, 0, 0]"
proof -
  have "replicate 12 (0 :: byte) = [0, 0, 0, 0, 0, 0, 0, 0, 0, 0, 0, 0]" by (simp add: eval_nat_numeral)
  then show ?thesis by (simp add: plain20_def upt_rec)
qed

lemma macs_differ: "mac_encrypt rev True plain20 20 (start_mac 77) \<noteq> mac_encrypt rev True (drop 16 plain20) 4 (start_mac 77)"
proof -
  have "start_mac 77 = [77, 0, 0, 0, 0, 0, 0, 0, 77, 0, 0, 0, 0, 0, 0, 0]" by code_simp
  then have "mac_encrypt rev True plain20 20 (start_mac 77) ! 15 \<noteq> mac_encrypt rev True (drop 16 plain20) 4 (start_mac 77) ! 15"
    unfolding plain20_eq by (simp add: mac_encrypt.simps xorblock_eq BLOCKSIZE_def)
  then show ?thesis by metis
qed

theorem partial_chunk_restarts_witness:
  "let (p', macs') = decrypt_piece demo_cipher 20 half_macs (piece20 16);
       upload = snd (chunk_ctr_encrypt rev (\<lambda>iv. map (\<lambda>b. b XOR 90)) True 0 plain20 20 0 77 True new_chunkmac_map)
   in map_find (mMacMap half_macs) 0 \<noteq> Some new_chunk \<and> map_find (mMacMap macs') 0 = Some new_chunk \<and>
     map_find (mMacMap (pmacs p')) 0 \<noteq> map_find (mMacMap upload) 0"
proof -
  obtain p' m' where d: "decrypt_piece demo_cipher 20 half_macs (piece20 16) = (p', m')" by fastforce
  have m: "mMacMap (pmacs (piece20 16)) = []" "chunk_start 0 < int (ppos (piece20 16))"
    by (simp_all add: piece20_facts chunk_start_def)
  have c: "chunk_start 0 = 0" "chunk_len 16 20 0 = 4"
    by (simp_all add: chunk_start_def chunk_len_def chunk_from_def SEGSIZE_def)
  have u: "map_find (mMacMap (snd (chunk_ctr_encrypt rev (\<lambda>iv. map (\<lambda>b. b XOR 90)) True 0 plain20 20 0 77 True new_chunkmac_map))) 0 \<noteq>
    Some \<lparr>cmac = mac_encrypt rev True (drop 16 plain20) 4 (start_mac 77), offset = 0, finished = True\<rparr>"
    using upload_entry [of 20 plain20 rev "\<lambda>iv. map (\<lambda>b. b XOR 90)" True 0 77] macs_differ by (simp add: piece20_facts)
  have "map_find (mMacMap m') 0 = Some new_chunk \<and>
    map_find (mMacMap (pmacs p')) 0 = Some \<lparr>cmac = mac_encrypt rev True (drop 16 plain20) 4 (start_mac 77), offset = 0, finished = True\<rparr>"
    using partial_chunk_restarts [OF demo_cipher_laws piece20_encrypted(2) m(2,1) half_facts(1) d]
    by (simp add: piece20_facts c demo_cipher_def Let_def)
  then show ?thesis using d half_facts(2) u by (simp add: Let_def)
qed


definition demo_transfer :: "m_off_t \<Rightarrow> request_transfer" where
  "demo_transfer s = \<lparr>rq_pos = 0, rq_size = s, rq_type = GET, rq_macs = new_chunkmac_map, rq_progress = 0, rq_connections = 4\<rparr>"


text \<open>
  C40: A download in the newer scheme of striped files that is at the start of a line, with nothing begun ahead of it, is
  never refused: its next range ends with the file or after a whole number of lines.
\<close>

theorem new_raid_request_padded:
  assumes "rq_type t = GET" "0 \<le> rq_pos t" "rq_pos t < rq_size t" "rq_pos t mod RAIDLINE = 0"
    "\<forall>q. chunkfloor (rq_pos t) \<le> q \<longrightarrow> unbegun_at (rq_macs t) q"
  shows "\<exists>b. transfer_nextNPos True mx cc us t = Some ((rq_pos t, b), t) \<and> rq_pos t < b \<and> b \<le> rq_size t \<and>
    (b = rq_size t \<or> (b - rq_pos t) mod RAIDLINE = 0)"
proof -
  let ?p = "rq_pos t" let ?S = "rq_size t"
  have S: "0 < ?S" using assms(2,3) by linarith
  have fl: "chunkfloor ?p \<le> ?p" using chunk_bounds(2) [OF assms(2)] .
  have a: "nextUnprocessedPosFrom (rq_macs t) ?p = Some ?p" by (rule next_pos_here) (use assms(5) in blast)
  note c = ceil_facts [OF assms(2,3)]
  obtain r where r: "new_raid_request_size ?p ?S (rq_connections t) = Some (r + 1)" "0 \<le> r"
    "chunkceil (?p + r) ?S = ?S \<or> (chunkceil (?p + r) ?S - ?p) mod RAIDLINE = 0" using new_raid_size [OF assms(2) S, of "rq_connections t"] by (elim exE conjE)
  let ?b = "chunkceil (?p + r) ?S"
  have "chunkceil ?p (- 1) \<le> chunkceil (?p + r) (- 1)"
    using ceil_least [OF assms(2)] chunk_bounds(3,6) [of "?p + r"] assms(2) r(2) by force
  then have le: "chunkceil ?p ?S \<le> ?b" "?b \<le> ?S" using ceil_limit [of ?S] S by (simp_all add: min_le_iff_disj)
  have "\<forall>q. ?p < q \<longrightarrow> unbegun_at (rq_macs t) q" using assms(5) fl by (meson less_imp_le order_trans)
  then have e: "expandUnprocessedPiece (rq_macs t) ?p (chunkceil ?p ?S) ?S (r + 1) = Some ?b"
    using expand_exact [OF c(1) assms(2) r(2) c(3) le(1) S] by blast
  have b: "?p < ?b" using c(1) le(1) by linarith
  have o: "offsetToRaidLine (nat ?p) = 0" using line_offset [OF assms(2)] assms(4) by blast
  have o': "\<not> (?b < ?S \<and> offsetToRaidLine (nat (?b - ?p)) \<noteq> 0)" using line_offset [of "?b - ?p"] b r(3) by fastforce
  have rs: "request_size True (chunkceil ?p ?S) mx cc us t = Some (r + 1)" using assms(1) r(1) by (simp add: request_size_def)
  have t: "t\<lparr>rq_pos := ?p\<rparr> = t" by simp
  have "transfer_nextNPos True mx cc us t = Some ((?p, ?b), t)"
    unfolding transfer_nextNPos_def using S a c(1) o o' rs e t by (cases "?b < ?S") (simp_all add: Let_def)
  then show ?thesis using b le(2) r(3) by (intro exI conjI)
qed

theorem new_raid_request_padded_witness:
  "\<exists>b. transfer_nextNPos True 1 1 0 (demo_transfer 30000000) = Some ((0, b), demo_transfer 30000000) \<and> 0 < b \<and> b \<le> 30000000 \<and>
    (b = 30000000 \<or> b mod RAIDLINE = 0)"
proof -
  let ?t = "demo_transfer 30000000"
  have "unbegun_at (rq_macs ?t) q" for q by (simp add: demo_transfer_def unbegun_at_def new_chunkmac_map_def map_find_def)
  then have u: "\<forall>q. chunkfloor (rq_pos ?t) \<le> q \<longrightarrow> unbegun_at (rq_macs ?t) q" by blast
  have f: "rq_size ?t = 30000000" "rq_pos ?t = 0" "rq_type ?t = GET" by (simp_all add: demo_transfer_def)
  have g: "0 \<le> rq_pos ?t" "rq_pos ?t < rq_size ?t" "rq_pos ?t mod RAIDLINE = 0" by (simp_all add: f)
  show ?thesis using new_raid_request_padded [OF f(3) g u, of 1 1 0] unfolding f diff_zero .
qed

end
