(* ===== verification/Spec2Isabelle.thy ===== *)
theory Spec2Isabelle
  imports Mega_KeySync Mega_TransferList Mega_Request Mega_Attrs Mega_Tlv Mega_Download
begin

text \<open>
  A verification of core parts of the MEGA SDK, the C++ library behind MEGA's clients.  Paths are below the repository's root: \<^verbatim>\<open>src/\<close> holds
  the implementation, \<^verbatim>\<open>include/mega/\<close> its headers.

  \<^bold>\<open>The program.\<close>  A client keeps a cache of its account (nodes, users, transfers) in a local database.  It sends batches of JSON commands to
  the API server and processes the answers.  It encrypts and authenticates everything before it leaves the machine, and it moves file data
  in chunks over several connections.  The parts below stand between the cache, the API and the file data:

  \<^item> \<^emph>\<open>Formats.\<close>  Binary values become text with the codecs of \<^verbatim>\<open>src/base64.cpp\<close>.  Records of the cache are written by
    \<^verbatim>\<open>CacheableWriter\<close> and read by \<^verbatim>\<open>CacheableReader\<close> (\<^verbatim>\<open>src/utils.cpp\<close>, \<^verbatim>\<open>src/serialize64.cpp\<close>).  Fingerprints (\<^verbatim>\<open>src/filefingerprint.cpp\<close>),
    chunk MACs, node attributes (\<^verbatim>\<open>src/attrmap.cpp\<close>) and the user attributes' records (\<^verbatim>\<open>src/tlv.cpp\<close>) have formats of their own on top.
  \<^item> \<^emph>\<open>API traffic.\<close>  \<^verbatim>\<open>RequestDispatcher\<close> (\<^verbatim>\<open>src/request.cpp\<close>) queues commands, sends one batch at a time and hands the results to the
    commands with the reader of \<^verbatim>\<open>src/json.cpp\<close>.  Retries wait with the timers of \<^verbatim>\<open>src/backofftimer.cpp\<close>.
  \<^item> \<^emph>\<open>Keys.\<close>  \<^verbatim>\<open>KeyManager\<close> (\<^verbatim>\<open>src/megaclient.cpp\<close>) keeps the account's keys in one encrypted user attribute, commits changes to it in
    batches, accepts newer versions from other clients and promotes shares of verified contacts.
  \<^item> \<^emph>\<open>Transfers.\<close>  \<^verbatim>\<open>TransferList\<close> (\<^verbatim>\<open>src/transfer.cpp\<close>) orders transfers in two lazily erased queues (\<^verbatim>\<open>include/mega/types.h\<close>) and
    chooses what runs next.  Data is encrypted by \<^verbatim>\<open>SymmCipher\<close> (\<^verbatim>\<open>src/crypto/cryptopp.cpp\<close>) chunk by chunk, with a MAC per chunk in
    \<^verbatim>\<open>chunkmac_map\<close> (\<^verbatim>\<open>src/utils.cpp\<close>).  Downloads of striped files are combined from six servers by \<^verbatim>\<open>RaidBufferManager\<close> (\<^verbatim>\<open>src/raid.cpp\<close>).

  \<^bold>\<open>Theories.\<close>  A C++ function is a function of the same name, with a prefix or suffix where the name is taken.  An object is a record,
  passed in and returned changed.  A function's output parameters are components of its result.

  \<^item> \<^verbatim>\<open>Mega_Prelude\<close>: machine words, their bytes in memory, C strings, the lemmas on lists and words that the other theories share.
  \<^item> \<^verbatim>\<open>Mega_Containers\<close>: \<^verbatim>\<open>std::map\<close> and \<^verbatim>\<open>std::set\<close> as sorted lists, behind the interface \<^verbatim>\<open>ordered_store\<close>.
  \<^item> \<^verbatim>\<open>Mega_Base64\<close>: the codecs of \<^verbatim>\<open>src/base64.cpp\<close>, an instance each of the interface \<^verbatim>\<open>digit_code\<close> for an alphabet.
  \<^item> \<^verbatim>\<open>Mega_Serialize\<close>: the cache format.  A field's writer and reader satisfy \<^verbatim>\<open>field_codec\<close>; \<^verbatim>\<open>pair_codec\<close> and \<^verbatim>\<open>dep_codec\<close> combine fields,
    and every field of the source is an interpretation.  Fingerprints with their text and cache forms.
  \<^item> \<^verbatim>\<open>Mega_Json\<close>: the reader \<^verbatim>\<open>JSON\<close>, with positions in a text that ends with a NUL, and \<^verbatim>\<open>JSONWriter\<close>.
  \<^item> \<^verbatim>\<open>Mega_Cipher\<close>: counter mode with its MAC, and padded CBC, over arbitrary block cipher primitives.
  \<^item> \<^verbatim>\<open>Mega_Chunks\<close>: \<^verbatim>\<open>ChunkedHash\<close> and \<^verbatim>\<open>chunkmac_map\<close>.
  \<^item> \<^verbatim>\<open>Mega_Backoff\<close>: \<^verbatim>\<open>BackoffTimer\<close>, tracked timers and their group, with the contract \<^verbatim>\<open>retry_timer\<close>.
  \<^item> \<^verbatim>\<open>Mega_LazyDeque\<close> and \<^verbatim>\<open>Mega_TransferList\<close>: the lazily erased deque behind the interface \<^verbatim>\<open>erasable_sequence\<close>, and \<^verbatim>\<open>TransferList\<close> over it.
  \<^item> \<^verbatim>\<open>Mega_KeyManager\<close>: the key manager's data and its container format.  \<^verbatim>\<open>Mega_KeySync\<close>: commits, received containers and promotion of
    shares, with the client's tables and the API's answers as arguments.
  \<^item> \<^verbatim>\<open>Mega_Request\<close>: batches, the dispatcher, \<^verbatim>\<open>Command::checkError\<close> and the sequence tags of \<^verbatim>\<open>MegaClient\<close>.
  \<^item> \<^verbatim>\<open>Mega_Attrs\<close> and \<^verbatim>\<open>Mega_Tlv\<close>: the maps of node attributes and the records of user attributes.
  \<^item> \<^verbatim>\<open>Mega_Raid\<close>: \<^verbatim>\<open>RaidBufferManager\<close> with the buffer managers of transfers and direct reads.
  \<^item> \<^verbatim>\<open>Mega_Download\<close>: \<^verbatim>\<open>FilePiece::finalize\<close> (decryption and MACs of a piece) and the choice of request ranges in
    \<^verbatim>\<open>TransferBufferManager::nextNPosForConnection\<close>.

  \<^bold>\<open>What is shown.\<close>

  \<^item> Round trips: whatever a writer of the formats above can write, its reader reads back, and leaves the rest of the input alone.  The
    hypotheses are the limits of the format's length fields.
  \<^item> Refinement: the lazily erased deque behaves as a list; moves in the transfer queues are moves of a list, although priorities have to be
    renumbered when a gap is used up; commands are handled in the order in which they were queued, across batches, failures and retries.
  \<^item> Invariants of runs: any sequence of operations keeps the key manager's data, the dispatcher's queue, the timers' tracker and the chunk
    maps well-formed.
  \<^item> Safety: keys are encrypted only for contacts that need no verification or have it, an older container never replaces a newer one, a
    batch is sent again unchanged, a striped download hands out the bytes of the file in order, whatever its connections do, and a
    downloaded piece of whole chunks is decrypted to the plain bytes with the MACs of the upload.
  \<^item> Liveness and termination: every commit that is queued is completed exactly once, paused transfers become ready again when resumed, a
    striped download cannot stall while its parts arrive, and it completes, and the choice of a request range always returns.
  \<^item> Errors: batch errors reach every command, and the places where the code does something other than its comments say.

  \<^bold>\<open>Modelling decisions.\<close>  Integers whose width matters are words; file positions (\<^verbatim>\<open>m_off_t\<close>) and times are integers, as no computation comes
  near their limits.  In the striped downloads positions are natural numbers.  Bytes in memory are little-endian.  Pointers into a text are
  the rest of the text; iterators are positions.  The code outside the repository is an argument: the block cipher, counter and CBC modes,
  authenticated encryption, random numbers, UTF-8 decoding, the commands' result handlers.  Theorems that need something of it say so as a
  hypothesis, and their witnesses instantiate it.  Loops are structural where the source counts, have a termination proof where a measure
  decreases, and are partial functions with a proof that they return where they follow the input.  Fuel occurs only in the number of fetches
  of a striped download, where it is bounded by the number of lines of the file.

  \<^bold>\<open>Not modelled.\<close>

  \<^item> The public interface (\<^verbatim>\<open>src/megaapi.cpp\<close>, \<^verbatim>\<open>src/megaapi_impl.cpp\<close>) and the result handlers of \<^verbatim>\<open>src/commands.cpp\<close>: thousands of lines that
    copy fields between objects and call the application.
  \<^item> The node tree and its database (\<^verbatim>\<open>src/node.cpp\<close>, \<^verbatim>\<open>src/nodemanager.cpp\<close>, \<^verbatim>\<open>src/db/\<close>): their behaviour is that of the SQL statements they
    run.
  \<^item> The synchronisation engine (\<^verbatim>\<open>src/sync.cpp\<close>, \<^verbatim>\<open>src/syncinternals/\<close>), transfer slots, file service and virtual file system: state spread
    over threads, the file system and the network.
  \<^item> File system, network, threads and graphics (\<^verbatim>\<open>src/posix/\<close>, \<^verbatim>\<open>src/win32/\<close>, \<^verbatim>\<open>src/osx/\<close>, \<^verbatim>\<open>src/android/\<close>, \<^verbatim>\<open>src/gfx/\<close>, \<^verbatim>\<open>src/http.cpp\<close>,
    \<^verbatim>\<open>src/raidproxy.cpp\<close>): input and output through the system's libraries.
  \<^item> Chats, alerts, sets, heartbeats and media attributes: tables filled from the server's answers.
  \<^item> Bindings, examples, tests and third-party code.
  \<^item> Within the modelled parts: the streaming JSON splitter, key derivation, fingerprints computed from files, log output, assertions that
    hold by the invariants, and callbacks to the application.
\<close>

end
